(* ===== verification/Rust_Prelude.thy ===== *)
theory Rust_Prelude
  imports Main "HOL-Library.Word"
begin

unbundle bit_operations_syntax

text \<open>
  Shared vocabulary of the development.

  \<^item> Machine integers: \<open>usize\<close>, \<open>u8\<close>, \<open>u16\<close>, \<open>u32\<close> are words of the width of the
    \<open>riscv64gc\<close> target. Arithmetic wraps, as in the release profile that \<open>run.sh\<close> builds;
    the theorems that need the absence of overflow state it, so they also speak about a
    build with overflow checks.
  \<^item> Failure: a Rust panic, an out-of-range index, reading uninitialised memory and a loop
    that does not end are values of \<open>fault\<close>; a fallible operation returns \<open>fault + 'a\<close>.
  \<^item> The integer intrinsics of the standard library that the sources call.
  \<^item> Generic lemmas on words and lists, collected in \<open>unat_simps\<close> for moving word goals
    to natural numbers.
\<close>

named_theorems unat_simps "moves equalities and orderings of words to natural numbers"

type_synonym usize = "64 word"
type_synonym u8 = "8 word"
type_synonym u16 = "16 word"
type_synonym u32 = "32 word"

section \<open>Faults\<close>

datatype fault =
    Assert_failed
  | Unwrap_none
  | Index_out_of_bounds
  | Panicked string
  | Unimplemented
  | Unreachable
  | Undefined_behaviour
  | Diverges

type_synonym 'a res = "fault + 'a"

datatype ('t, 'e) result = Ok 't | Err 'e

definition rbind :: "'a res \<Rightarrow> ('a \<Rightarrow> 'b res) \<Rightarrow> 'b res" where
  "rbind m k = (case m of Inl e \<Rightarrow> Inl e | Inr x \<Rightarrow> k x)"

definition require :: "bool \<Rightarrow> fault \<Rightarrow> 'a res \<Rightarrow> 'a res" where
  "require b e m = (if b then m else Inl e)"

definition unwrap :: "'a option \<Rightarrow> 'a res" where
  "unwrap x = (case x of None \<Rightarrow> Inl Unwrap_none | Some y \<Rightarrow> Inr y)"

definition index :: "'a list \<Rightarrow> nat \<Rightarrow> 'a res" where
  "index xs i = (if i < length xs then Inr (xs ! i) else Inl Index_out_of_bounds)"

definition is_ok :: "'a res \<Rightarrow> bool" where
  "is_ok m = (case m of Inl _ \<Rightarrow> False | Inr _ \<Rightarrow> True)"

section \<open>Loops\<close>

text \<open>\<open>loop { body }\<close>: the body returns \<open>Inl r\<close> for \<open>return r\<close> and \<open>Inr s\<close> for \<open>continue\<close> in state \<open>s\<close>.\<close>

partial_function (option) loop_from :: "('s \<Rightarrow> ('a + 's) res) \<Rightarrow> 's \<Rightarrow> 'a res option" where
  "loop_from body s = (case body s of
       Inl f \<Rightarrow> Some (Inl f)
     | Inr (Inl r) \<Rightarrow> Some (Inr r)
     | Inr (Inr s') \<Rightarrow> loop_from body s')"

definition loop_res :: "('s \<Rightarrow> ('a + 's) res) \<Rightarrow> 's \<Rightarrow> 'a res" where
  "loop_res body s = (case loop_from body s of None \<Rightarrow> Inl Diverges | Some r \<Rightarrow> r)"

declare loop_from.simps [code]

section \<open>Integer intrinsics\<close>

fun nat_log2 :: "nat \<Rightarrow> nat" where
  "nat_log2 n = (if n < 2 then 0 else Suc (nat_log2 (n div 2)))"

fun nat_ctz :: "nat \<Rightarrow> nat" where
  "nat_ctz n = (if n = 0 \<or> odd n then 0 else Suc (nat_ctz (n div 2)))"

declare nat_log2.simps [simp del] nat_ctz.simps [simp del]

definition ilog2 :: "usize \<Rightarrow> nat" where
  "ilog2 w = nat_log2 (unat w)"

definition trailing_zeros :: "usize \<Rightarrow> nat" where
  "trailing_zeros w = (if w = 0 then 64 else nat_ctz (unat w))"

text \<open>
  \<open>next_power_of_two\<close> of a value above \<open>2 ^ 63\<close> is 0 in the release profile: the
  shift by 64 pushes the single bit out.
\<close>

definition next_power_of_two :: "usize \<Rightarrow> usize" where
  "next_power_of_two w = (if w \<le> 1 then 1 else push_bit (Suc (ilog2 (w - 1))) 1)"

text \<open>The release profile masks a shift amount with the width of the operand.\<close>

definition shl :: "usize \<Rightarrow> nat \<Rightarrow> usize" where
  "shl w n = push_bit (n mod 64) w"

definition shr :: "usize \<Rightarrow> nat \<Rightarrow> usize" where
  "shr w n = drop_bit (n mod 64) w"

section \<open>Lemmas on results\<close>

lemma rbind_simps [simp]:
  "rbind (Inl e) k = Inl e"
  "rbind (Inr x) k = k x"
  by (simp_all add: rbind_def)

lemma rbind_eq_Inr_iff [simp]: "rbind m k = Inr y \<longleftrightarrow> (\<exists>x. m = Inr x \<and> k x = Inr y)"
  by (cases m) auto

lemma rbind_eq_Inl_iff: "rbind m k = Inl e \<longleftrightarrow> m = Inl e \<or> (\<exists>x. m = Inr x \<and> k x = Inl e)"
  by (cases m) auto

lemma loop_res_simps:
  "body s = Inl f \<Longrightarrow> loop_res body s = Inl f"
  "body s = Inr (Inl r) \<Longrightarrow> loop_res body s = Inr r"
  "body s = Inr (Inr s') \<Longrightarrow> loop_res body s = loop_res body s'"
  by (simp_all add: loop_res_def loop_from.simps [of body s])

lemma loop_diverges:
  assumes "P s" and "\<And>s. P s \<Longrightarrow> \<exists>s'. body s = Inr (Inr s') \<and> P s'"
  shows "loop_res body s = Inl Diverges"
proof -
  have "\<not> P s" if "loop_from body s = Some r" for r s
    by (rule loop_from.raw_induct [where P = "\<lambda>body' s r. body' = body \<longrightarrow> \<not> P s", rule_format, OF _ that refl])
      (use assms(2) in \<open>fastforce split: sum.splits\<close>)
  then show ?thesis using assms(1) by (cases "loop_from body s") (auto simp: loop_res_def)
qed

lemma rbind_assoc: "rbind (rbind m f) g = rbind m (\<lambda>x. rbind (f x) g)"
  by (cases m) simp_all

lemma require_simps [simp]:
  "require True e m = m"
  "require False e m = Inl e"
  by (simp_all add: require_def)

lemma require_eq_Inr_iff [simp]: "require b e m = Inr y \<longleftrightarrow> b \<and> m = Inr y"
  by (simp add: require_def)

lemma unwrap_simps [simp]: "unwrap None = Inl Unwrap_none" "unwrap (Some x) = Inr x"
  by (simp_all add: unwrap_def)

lemma unwrap_eq_Inr_iff [simp]: "unwrap x = Inr y \<longleftrightarrow> x = Some y"
  by (cases x) simp_all

lemma index_eq_Inr_iff [simp]: "index xs i = Inr x \<longleftrightarrow> i < length xs \<and> xs ! i = x"
  by (simp add: index_def)

lemma index_in_range: "i < length xs \<Longrightarrow> index xs i = Inr (xs ! i)"
  by (simp add: index_def)

lemma is_ok_simps [simp]: "is_ok (Inl e) = False" "is_ok (Inr x) = True"
  by (simp_all add: is_ok_def)

lemma is_ok_iff: "is_ok m \<longleftrightarrow> (\<exists>x. m = Inr x)"
  by (cases m) simp_all

section \<open>Lemmas on the intrinsics\<close>

lemma nat_log2_bounds: "0 < n \<Longrightarrow> 2 ^ nat_log2 n \<le> n \<and> n < 2 ^ Suc (nat_log2 n)"
proof (induction n rule: nat_log2.induct)
  case (1 n)
  show ?case
  proof (cases "n < 2")
    case True
    with "1.prems" show ?thesis by (simp add: nat_log2.simps [of n])
  next
    case False
    with "1.IH" have "2 ^ nat_log2 (n div 2) \<le> n div 2" "n div 2 < 2 * 2 ^ nat_log2 (n div 2)"
      by simp_all
    then have "2 * 2 ^ nat_log2 (n div 2) \<le> n" "n < 2 * (2 * 2 ^ nat_log2 (n div 2))"
      by linarith+
    with False show ?thesis by (simp add: nat_log2.simps [of n])
  qed
qed

lemma nat_log2_unique: "2 ^ k \<le> n \<Longrightarrow> n < 2 ^ Suc k \<Longrightarrow> nat_log2 n = k"
proof -
  assume k: "2 ^ k \<le> n" "n < 2 ^ Suc k"
  then have "0 < n" by (metis gr0I less_le_trans power_eq_0_iff zero_neq_numeral le_zero_eq)
  note b = nat_log2_bounds [OF this]
  have "(2::nat) ^ k < 2 ^ Suc (nat_log2 n)" "(2::nat) ^ nat_log2 n < 2 ^ Suc k"
    using k b by linarith+
  then have "k < Suc (nat_log2 n)" "nat_log2 n < Suc k"
    by (simp_all only: power_strict_increasing_iff)
  then show ?thesis by simp
qed

lemma nat_log2_pow2 [simp]: "nat_log2 (2 ^ k) = k"
  by (rule nat_log2_unique) simp_all

lemma nat_ctz_dvd: "0 < n \<Longrightarrow> 2 ^ nat_ctz n dvd n \<and> \<not> 2 ^ Suc (nat_ctz n) dvd n"
proof (induction n rule: nat_ctz.induct)
  case (1 n)
  show ?case
  proof (cases "odd n")
    case True
    then show ?thesis by (simp add: nat_ctz.simps [of n])
  next
    case False
    with "1.prems" have "0 < n div 2" by (auto elim!: evenE)
    with "1.IH" "1.prems" False
    have ih: "2 ^ nat_ctz (n div 2) dvd n div 2" "\<not> 2 ^ Suc (nat_ctz (n div 2)) dvd n div 2"
      by simp_all
    from False obtain m where n: "n = 2 * m" by (auto elim: evenE)
    with "1.prems" have "nat_ctz n = Suc (nat_ctz m)" by (subst nat_ctz.simps) simp
    with n ih show ?thesis by simp
  qed
qed

lemma nat_ctz_pow2 [simp]: "nat_ctz (2 ^ k) = k"
proof -
  have "2 ^ nat_ctz (2 ^ k) dvd (2::nat) ^ k" "\<not> 2 ^ Suc (nat_ctz (2 ^ k)) dvd (2::nat) ^ k"
    using nat_ctz_dvd [of "2 ^ k"] by simp_all
  then show ?thesis
    by (metis le_antisym not_less_eq_eq power_dvd_imp_le dvd_power_iff_le le_refl one_less_numeral_iff semiring_norm(76))
qed

lemma pow2_dvd_iff_le_ctz: "0 < n \<Longrightarrow> 2 ^ k dvd n \<longleftrightarrow> k \<le> nat_ctz n"
  by (metis nat_ctz_dvd dvd_trans le_imp_power_dvd not_less_eq_eq)

lemma unat_usize_less [simp]: "unat (w :: usize) < 18446744073709551616"
  using unsigned_less [of w, where ?'a = nat] by simp

lemma unat_usize_less_pow: "unat (w :: usize) < 2 ^ 64"
  using unat_usize_less [of w] by simp

lemma unat_pow2:
  assumes "k < 64"
  shows "unat ((2 :: usize) ^ k) = 2 ^ k"
proof -
  have "(2::nat) ^ k < 2 ^ 64" using assms by (rule power_strict_increasing) simp
  then have "unat (word_of_nat (2 ^ k) :: usize) = 2 ^ k"
    by (simp only: unat_of_nat) simp
  then show ?thesis by simp
qed

lemma push_bit_one: "push_bit k (1 :: usize) = 2 ^ k"
  by (simp add: push_bit_eq_mult)

lemma unat_word_plus: "unat a + unat b < 18446744073709551616 \<Longrightarrow> unat (a + b :: usize) = unat a + unat b"
  by (simp add: unat_word_ariths)

lemma unat_word_minus: "unat b \<le> unat a \<Longrightarrow> unat (a - b :: usize) = unat a - unat b"
  by (simp add: unat_sub word_le_nat_alt)

lemma unat_plus_1:
  fixes a b :: usize
  assumes "unat a < unat b"
  shows "unat (a + 1) = Suc (unat a)"
proof -
  have "unat a + unat (1 :: usize) < 18446744073709551616"
    using assms unat_usize_less [of b] by (simp only: unsigned_1)
  from unat_word_plus [OF this] show ?thesis by simp
qed

lemma three_digits:
  fixes n :: nat
  assumes "n < 134217728"
  shows "(n div 262144 mod 512 * 512 + n div 512 mod 512) * 512 + n mod 512 = n"
proof -
  have "n div 262144 < 512" using assms by (simp add: less_mult_imp_div_less)
  moreover have "n div 262144 = n div 512 div 512" by (simp add: div_mult2_eq [symmetric])
  ultimately have "n div 262144 mod 512 * 512 + n div 512 mod 512 = n div 512"
    by (simp only: mod_less div_mult_mod_eq)
  then show ?thesis by (simp only: div_mult_mod_eq)
qed

declare word_less_nat_alt [unat_simps] word_le_nat_alt [unat_simps]
  word_unat_eq_iff [unat_simps] unat_word_plus [unat_simps] unat_word_minus [unat_simps]

lemma nat_log2_less_64: "n < 2 ^ 64 \<Longrightarrow> nat_log2 n < 64"
proof (cases "n = 0")
  case True
  then show ?thesis by (simp add: nat_log2.simps)
next
  case False
  assume "n < 2 ^ 64"
  moreover have "2 ^ nat_log2 n \<le> n" using False nat_log2_bounds by simp
  ultimately have "(2::nat) ^ nat_log2 n < 2 ^ 64" by linarith
  then show ?thesis by (simp only: power_strict_increasing_iff)
qed

lemma ilog2_less_64: "ilog2 w < 64"
  unfolding ilog2_def by (rule nat_log2_less_64) simp

lemma unat_next_power_of_two:
  assumes "0 < unat w" and "unat w \<le> 2 ^ 63"
  shows "\<exists>k \<le> 63. next_power_of_two w = 2 ^ k \<and> unat w \<le> 2 ^ k \<and> (\<forall>j. unat w \<le> 2 ^ j \<longrightarrow> k \<le> j)"
proof (cases "w \<le> 1")
  case True
  then show ?thesis by (intro exI [of _ 0]) (simp add: next_power_of_two_def word_le_nat_alt)
next
  case False
  define m where "m = unat (w - 1)"
  have m: "m = unat w - 1" and m0: "0 < m"
    using False by (simp_all add: m_def unat_simps)
  note b = nat_log2_bounds [OF m0]
  define k where "k = Suc (nat_log2 m)"
  have "(2::nat) ^ nat_log2 m < 2 ^ 63" using b m m0 assms by linarith
  then have "nat_log2 m < 63" by (rule power_less_imp_less_exp [rotated]) simp
  then have k: "k \<le> 63" by (simp add: k_def)
  have eq: "next_power_of_two w = 2 ^ k"
    using False by (simp add: next_power_of_two_def push_bit_one k_def ilog2_def m_def)
  have up: "unat w \<le> 2 ^ k" unfolding k_def using b m by linarith
  have least: "k \<le> j" if "unat w \<le> 2 ^ j" for j
  proof -
    have "(2::nat) ^ nat_log2 m < 2 ^ j" using that b m m0 by linarith
    then show ?thesis by (simp add: k_def Suc_le_eq)
  qed
  from k eq up least show ?thesis by blast
qed

section \<open>Masks and alignment\<close>

lemma unat_and_not_mask:
  "unat (w AND NOT (mask k) :: usize) = unat w div 2 ^ k * 2 ^ k"
proof -
  have "w AND NOT (mask k) = push_bit k (drop_bit k w)"
    by (rule bit_word_eqI) (auto simp: bit_simps)
  moreover have "unat (push_bit k (drop_bit k w)) = unat w div 2 ^ k * 2 ^ k"
  proof -
    have "unat w div 2 ^ k * 2 ^ k \<le> unat w" by (rule div_times_less_eq_dividend)
    then have "unat w div 2 ^ k * 2 ^ k < 2 ^ 64"
      using unat_usize_less_pow [of w] by (rule le_less_trans)
    then show ?thesis
      by (simp only: unsigned_push_bit_eq unat_drop_bit_eq)
        (simp add: drop_bit_eq_div push_bit_eq_mult take_bit_nat_eq_self_iff)
  qed
  ultimately show ?thesis by simp
qed

lemma unat_and_mask: "unat (w AND mask k :: usize) = unat w mod 2 ^ k"
  by (simp only: unsigned_take_bit_eq flip: take_bit_eq_mask) (simp only: take_bit_eq_mod)

end
