(* ===== verification/Address.thy ===== *)
theory Address
  imports Rust_Prelude
begin

text \<open>
  Addresses and page numbers: \<open>src/config.rs\<close>, \<open>src/mm/address.rs\<close>, the address helpers of
  \<open>src/mm/mod.rs\<close> (\<open>align_up\<close>, \<open>align_down\<close>) and of \<open>src/mm/buddy.rs\<close> (\<open>phys_to_virt\<close>,
  \<open>virt_to_phys\<close>), and the physical memory the kernel reads and writes through the linear
  mapping. The four Rust newtypes are one-constructor datatypes ordered as their derived
  \<open>Ord\<close> orders them. The lemmas show that conversions are inverse to each other where the
  code relies on it, and that rounding keeps inside or outside the interval it should.
\<close>

section \<open>Constants\<close>

definition PAGE_SIZE_BITS :: nat where "PAGE_SIZE_BITS = 12"
definition PAGE_SIZE :: usize where "PAGE_SIZE = 4096"
definition PHYS_VIRT_OFFSET :: usize where "PHYS_VIRT_OFFSET = 0xFFFFFFFF00000000"
definition PA_WIDTH_SV39 :: nat where "PA_WIDTH_SV39 = 56"
definition VA_WIDTH_SV39 :: nat where "VA_WIDTH_SV39 = 39"
definition PPN_WIDTH_SV39 :: nat where "PPN_WIDTH_SV39 = PA_WIDTH_SV39 - PAGE_SIZE_BITS"
definition VPN_WIDTH_SV39 :: nat where "VPN_WIDTH_SV39 = VA_WIDTH_SV39 - PAGE_SIZE_BITS"

section \<open>Newtypes\<close>

datatype phys_addr = PhysAddr (pa_val: usize)
datatype virt_addr = VirtAddr (va_val: usize)
datatype phys_page_num = PhysPageNum (ppn_val: usize)
datatype virt_page_num = VirtPageNum (vpn_val: usize)

instantiation phys_addr :: linorder
begin
definition less_eq_phys_addr :: "phys_addr \<Rightarrow> phys_addr \<Rightarrow> bool" where
  "a \<le> b \<longleftrightarrow> pa_val a \<le> pa_val b"
definition less_phys_addr :: "phys_addr \<Rightarrow> phys_addr \<Rightarrow> bool" where
  "a < b \<longleftrightarrow> pa_val a < pa_val b"
instance
  by standard (auto simp: less_eq_phys_addr_def less_phys_addr_def phys_addr.expand)
end

instantiation phys_page_num :: linorder
begin
definition less_eq_phys_page_num :: "phys_page_num \<Rightarrow> phys_page_num \<Rightarrow> bool" where
  "a \<le> b \<longleftrightarrow> ppn_val a \<le> ppn_val b"
definition less_phys_page_num :: "phys_page_num \<Rightarrow> phys_page_num \<Rightarrow> bool" where
  "a < b \<longleftrightarrow> ppn_val a < ppn_val b"
instance
  by standard (auto simp: less_eq_phys_page_num_def less_phys_page_num_def phys_page_num.expand)
end

instantiation virt_page_num :: linorder
begin
definition less_eq_virt_page_num :: "virt_page_num \<Rightarrow> virt_page_num \<Rightarrow> bool" where
  "a \<le> b \<longleftrightarrow> vpn_val a \<le> vpn_val b"
definition less_virt_page_num :: "virt_page_num \<Rightarrow> virt_page_num \<Rightarrow> bool" where
  "a < b \<longleftrightarrow> vpn_val a < vpn_val b"
instance
  by standard (auto simp: less_eq_virt_page_num_def less_virt_page_num_def virt_page_num.expand)
end

section \<open>Conversions and rounding\<close>

definition phys_to_virt :: "usize \<Rightarrow> usize" where
  "phys_to_virt pa = pa + PHYS_VIRT_OFFSET"

definition virt_to_phys :: "usize \<Rightarrow> usize" where
  "virt_to_phys va = va - PHYS_VIRT_OFFSET"

definition align_up :: "usize \<Rightarrow> usize \<Rightarrow> usize" where
  "align_up value align = (value + align - 1) AND NOT (align - 1)"

definition align_down :: "usize \<Rightarrow> usize \<Rightarrow> usize" where
  "align_down value align = value AND NOT (align - 1)"

definition indices_step :: "nat \<Rightarrow> usize \<times> usize list \<Rightarrow> usize \<times> usize list" where
  "indices_step i s = (case s of (vpn, idx) \<Rightarrow>
     (shr vpn 9, idx[i := vpn AND (shl 1 9 - 1)]))"

definition indices :: "virt_page_num \<Rightarrow> usize list" where
  "indices v = snd (fold indices_step (rev [0..<3]) (vpn_val v, [0, 0, 0]))"

definition va_floor :: "virt_addr \<Rightarrow> virt_page_num" where
  "va_floor a = VirtPageNum (shr (va_val a) PAGE_SIZE_BITS)"

definition va_ceil :: "virt_addr \<Rightarrow> virt_page_num" where
  "va_ceil a = VirtPageNum (shr (va_val a - 1 + PAGE_SIZE) PAGE_SIZE_BITS)"

definition va_page_offset :: "virt_addr \<Rightarrow> usize" where
  "va_page_offset a = va_val a AND (PAGE_SIZE - 1)"

definition va_aligned :: "virt_addr \<Rightarrow> bool" where
  "va_aligned a \<longleftrightarrow> va_page_offset a = 0"

definition vpn_from_va :: "virt_addr \<Rightarrow> virt_page_num res" where
  "vpn_from_va v = require (va_page_offset v = 0) Assert_failed (Inr (va_floor v))"

definition va_from_usize :: "usize \<Rightarrow> virt_addr" where
  "va_from_usize v = VirtAddr (signed_drop_bit 25 (shl v 25))"

definition va_from_vpn :: "virt_page_num \<Rightarrow> virt_addr" where
  "va_from_vpn v = va_from_usize (shl (vpn_val v) PAGE_SIZE_BITS)"

definition vpn_from_usize :: "usize \<Rightarrow> virt_page_num" where
  "vpn_from_usize v = VirtPageNum (v AND (shl 1 VPN_WIDTH_SV39 - 1))"

definition pa_from_usize :: "usize \<Rightarrow> phys_addr" where
  "pa_from_usize v = PhysAddr (v AND (shl 1 PA_WIDTH_SV39 - 1))"

definition ppn_from_usize :: "usize \<Rightarrow> phys_page_num" where
  "ppn_from_usize v = PhysPageNum (v AND (shl 1 PPN_WIDTH_SV39 - 1))"

definition usize_from_pa :: "phys_addr \<Rightarrow> usize" where
  "usize_from_pa v = pa_val v"

definition usize_from_ppn :: "phys_page_num \<Rightarrow> usize" where
  "usize_from_ppn v = ppn_val v"

definition pa_page_offset :: "phys_addr \<Rightarrow> usize" where
  "pa_page_offset a = pa_val a AND (PAGE_SIZE - 1)"

definition pa_floor :: "phys_addr \<Rightarrow> phys_page_num" where
  "pa_floor a = PhysPageNum (shr (pa_val a) PAGE_SIZE_BITS)"

definition pa_ceil :: "phys_addr \<Rightarrow> phys_page_num" where
  "pa_ceil a = PhysPageNum (shr (pa_val a + PAGE_SIZE - 1) PAGE_SIZE_BITS)"

definition ppn_from_pa :: "phys_addr \<Rightarrow> phys_page_num res" where
  "ppn_from_pa a = require (pa_page_offset a = 0) Assert_failed (Inr (pa_floor a))"

definition pa_from_ppn :: "phys_page_num \<Rightarrow> phys_addr" where
  "pa_from_ppn v = PhysAddr (shl (ppn_val v) PAGE_SIZE_BITS)"

section \<open>Ranges of virtual page numbers\<close>

record vpn_range =
  range_current :: virt_page_num
  range_end :: virt_page_num

definition vpn_next :: "virt_page_num \<Rightarrow> virt_page_num" where
  "vpn_next v = VirtPageNum (vpn_val v + 1)"

definition range_new :: "virt_page_num \<Rightarrow> virt_page_num \<Rightarrow> vpn_range" where
  "range_new s e = \<lparr>range_current = s, range_end = e\<rparr>"

definition range_next :: "vpn_range \<Rightarrow> virt_page_num option \<times> vpn_range" where
  "range_next r =
     (if range_current r < range_end r
      then (Some (range_current r), r\<lparr>range_current := vpn_next (range_current r)\<rparr>)
      else (None, r))"

function range_collect :: "vpn_range \<Rightarrow> virt_page_num list" where
  "range_collect r =
     (case range_next r of (None, _) \<Rightarrow> [] | (Some v, r') \<Rightarrow> v # range_collect r')"
  by pat_completeness auto
termination
  by (relation "measure (\<lambda>r. unat (vpn_val (range_end r)) - unat (vpn_val (range_current r)))")
    (auto simp: range_next_def vpn_next_def less_virt_page_num_def word_less_nat_alt
      unat_word_plus split: if_splits, unat_arith)

section \<open>Physical memory\<close>

text \<open>
  The kernel touches RAM in aligned 8-byte cells: list nodes of the buddy allocator, free
  objects of the slab allocator, page table entries. A memory maps the physical address of
  a cell to its contents. A pointer obtained with \<open>phys_to_virt\<close> is dereferenced through
  the linear mapping (\<open>load\<close>, \<open>store\<close>); code that runs before the page table switch
  dereferences physical addresses as they are.
\<close>

type_synonym memory = "usize \<Rightarrow> usize"

definition load :: "memory \<Rightarrow> usize \<Rightarrow> usize" where
  "load m va = m (virt_to_phys va)"

definition store :: "memory \<Rightarrow> usize \<Rightarrow> usize \<Rightarrow> memory" where
  "store m va x = m(virt_to_phys va := x)"

definition write_zero_page :: "memory \<Rightarrow> usize \<Rightarrow> memory" where
  "write_zero_page m pa = (\<lambda>a. if unat (a - pa) < 4096 then 0 else m a)"

definition ppn_clear :: "memory \<Rightarrow> phys_page_num \<Rightarrow> memory" where
  "ppn_clear m p = write_zero_page m (virt_to_phys (phys_to_virt (pa_val (pa_from_ppn p))))"

section \<open>Lemmas\<close>

lemma virt_phys_inverse [simp]:
  "virt_to_phys (phys_to_virt a) = a"
  "phys_to_virt (virt_to_phys a) = a"
  by (simp_all add: phys_to_virt_def virt_to_phys_def)

lemma phys_to_virt_inject [simp]: "phys_to_virt a = phys_to_virt b \<longleftrightarrow> a = b"
  by (simp add: phys_to_virt_def)

lemma load_store:
  "load (store m a x) b = (if a = b then x else load m b)"
  by (auto simp: load_def store_def virt_to_phys_def)

lemma load_phys_to_virt [simp]: "load m (phys_to_virt a) = m a"
  by (simp add: load_def)

lemma store_phys_to_virt [simp]: "store m (phys_to_virt a) x = m(a := x)"
  by (simp add: store_def)

lemma unat_shr: "n < 64 \<Longrightarrow> unat (shr w n) = unat w div 2 ^ n"
  by (simp only: shr_def unat_drop_bit_eq) (simp add: drop_bit_eq_div)

lemma unat_shl: "n < 64 \<Longrightarrow> unat w * 2 ^ n < 2 ^ 64 \<Longrightarrow> unat (shl w n) = unat w * 2 ^ n"
  by (simp only: shl_def unsigned_push_bit_eq)
    (simp add: push_bit_eq_mult take_bit_nat_eq_self_iff)

lemma page_size_mask: "PAGE_SIZE - 1 = mask 12"
  by (simp add: PAGE_SIZE_def mask_eq_exp_minus_1)

lemma unat_page_offset [simp]:
  "unat (pa_page_offset a) = unat (pa_val a) mod 4096"
  "unat (va_page_offset b) = unat (va_val b) mod 4096"
  using unat_and_mask [of _ 12] by (simp_all add: pa_page_offset_def va_page_offset_def page_size_mask)

lemma unat_pa_floor [simp]: "unat (ppn_val (pa_floor a)) = unat (pa_val a) div 4096"
  by (simp add: pa_floor_def unat_shr PAGE_SIZE_BITS_def)

lemma unat_pa_ceil:
  assumes "unat (pa_val a) + 4095 < 2 ^ 64"
  shows "unat (ppn_val (pa_ceil a)) = (unat (pa_val a) + 4095) div 4096"
proof -
  have "unat (pa_val a + 4095) = unat (pa_val a) + 4095"
    using assms by (simp add: unat_word_plus)
  then show ?thesis by (simp add: pa_ceil_def unat_shr PAGE_SIZE_BITS_def PAGE_SIZE_def add.commute)
qed

lemma unat_align_down:
  "unat (align_down v (2 ^ k)) = unat v div 2 ^ k * 2 ^ k"
  by (simp only: align_down_def mask_eq_exp_minus_1 [symmetric] unat_and_not_mask)

lemma unat_align_up:
  assumes "k < 64" and "unat v + 2 ^ k \<le> 2 ^ 64"
  shows "unat (align_up v (2 ^ k)) = (unat v + 2 ^ k - 1) div 2 ^ k * 2 ^ k"
proof -
  have eq: "align_up v (2 ^ k) = (v + (2 ^ k - 1)) AND NOT (mask k)"
    by (simp only: align_up_def mask_eq_exp_minus_1 add_diff_eq)
  have m: "unat ((2::usize) ^ k - 1) = 2 ^ k - 1"
    using assms(1) by (simp only: unat_word_minus unat_pow2 unsigned_1 one_le_numeral one_le_power)
  have "unat v + (2 ^ k - 1) < 2 ^ 64" using assms(2) by simp
  then have "unat (v + (2 ^ k - 1)) = unat v + (2 ^ k - 1)"
    by (subst unat_word_plus) (simp_all only: m, simp)
  then show ?thesis by (simp only: eq unat_and_not_mask) simp
qed

lemma unat_pa_from_ppn [simp]:
  "unat (ppn_val p) < 2 ^ 52 \<Longrightarrow> unat (pa_val (pa_from_ppn p)) = unat (ppn_val p) * 4096"
  by (simp add: pa_from_ppn_def unat_shl PAGE_SIZE_BITS_def)

lemma indices_eq:
  "indices v = [drop_bit 18 (vpn_val v) AND mask 9, drop_bit 9 (vpn_val v) AND mask 9,
                vpn_val v AND mask 9]"
  by (simp add: indices_def indices_step_def upt_rec shr_def shl_def mask_eq_exp_minus_1)

lemma length_indices [simp]: "length (indices v) = 3"
  by (simp add: indices_eq)

lemma unat_indices:
  "map unat (indices v) =
     [unat (vpn_val v) div 2 ^ 18 mod 512, unat (vpn_val v) div 512 mod 512, unat (vpn_val v) mod 512]"
  by (simp only: indices_eq list.map unat_and_mask unat_drop_bit_eq) (simp add: drop_bit_eq_div)

definition canonical :: "usize \<Rightarrow> bool" where
  "canonical v \<longleftrightarrow> signed_take_bit 38 v = v"

lemma va_from_usize_sign_extend: "va_from_usize v = VirtAddr (signed_take_bit 38 v)"
proof -
  have "bit (signed_drop_bit 25 (push_bit 25 v)) n \<longleftrightarrow> bit (signed_take_bit 38 v) n"
    if "n < 64" for n
    using that by (cases "n = 38") (auto simp: bit_simps min_def)
  then have "signed_drop_bit 25 (push_bit 25 v) = signed_take_bit 38 v"
    by (intro bit_word_eqI) simp
  then show ?thesis by (simp add: va_from_usize_def shl_def)
qed

lemma bit_small: "unat (a :: usize) < 2 ^ k \<Longrightarrow> k \<le> n \<Longrightarrow> \<not> bit a n"
  by (metis bit_take_bit_iff not_less take_bit_nat_eq_self unsigned_take_bit_eq word_unat_eq_iff)

lemma bit_offset: "bit PHYS_VIRT_OFFSET n \<longleftrightarrow> 32 \<le> n \<and> n < 64"
proof -
  have eq: "PHYS_VIRT_OFFSET = push_bit 32 (mask 32)"
    by (simp add: PHYS_VIRT_OFFSET_def mask_eq_exp_minus_1)
  show ?thesis unfolding eq bit_push_bit_iff bit_mask_iff by auto
qed

lemma phys_to_virt_or: "unat pa < 2 ^ 32 \<Longrightarrow> phys_to_virt pa = pa OR PHYS_VIRT_OFFSET"
  unfolding phys_to_virt_def
  by (rule disjunctive_add) (meson bit_offset bit_small)

lemma phys_to_virt_nonzero: "unat pa < 2 ^ 32 \<Longrightarrow> phys_to_virt pa \<noteq> 0"
proof
  assume "unat pa < 2 ^ 32" "phys_to_virt pa = 0"
  then have "virt_to_phys (phys_to_virt pa) = virt_to_phys 0" by simp
  then have "pa = virt_to_phys 0" by simp
  then have "unat pa = 2 ^ 32" by (simp add: virt_to_phys_def PHYS_VIRT_OFFSET_def)
  with \<open>unat pa < 2 ^ 32\<close> show False by simp
qed

lemma canonical_linear:
  assumes "unat pa < 2 ^ 32"
  shows "canonical (phys_to_virt pa)"
proof -
  have "bit (phys_to_virt pa) n \<longleftrightarrow> 32 \<le> n \<or> bit pa n" if "n < 64" for n
    using that assms by (simp add: phys_to_virt_or bit_or_iff bit_offset) auto
  then show ?thesis unfolding canonical_def
    by (intro bit_word_eqI) (auto simp: bit_signed_take_bit_iff min_def)
qed

lemma shl_shr_aligned: "w AND mask 12 = 0 \<Longrightarrow> shl (shr w 12) 12 = w"
proof -
  assume *: "w AND mask 12 = 0"
  have "\<not> bit w n" if "n < 12" for n
    using arg_cong [OF *, of "\<lambda>x. bit x n"] that by (simp add: bit_and_iff bit_mask_iff)
  then have "bit (shl (shr w 12) 12) n \<longleftrightarrow> bit w n" if "n < 64" for n
    using that by (cases "n < 12") (auto simp: shl_def shr_def bit_simps)
  then show ?thesis by (intro bit_word_eqI) simp
qed

lemma page_offset_eq_0 [simp]:
  "pa_page_offset a = 0 \<longleftrightarrow> unat (pa_val a) mod 4096 = 0"
  "va_page_offset b = 0 \<longleftrightarrow> unat (va_val b) mod 4096 = 0"
  by (simp_all add: word_unat_eq_iff)

section \<open>Properties\<close>

text \<open>The three Sv39 table indices of a virtual page number are its three 9-bit digits,
  most significant first; each is a valid index into a 512-entry table, and two 27-bit page
  numbers with the same indices are equal, so distinct pages never share a leaf slot path.\<close>

theorem indices_determine_vpn:
  assumes "unat (vpn_val v) < 2 ^ 27" and "unat (vpn_val w) < 2 ^ 27"
  shows "(\<forall>i \<in> set (indices v). unat i < 512) \<and> (indices v = indices w \<longleftrightarrow> v = w)"
proof
  show "\<forall>i \<in> set (indices v). unat i < 512"
    using unat_indices [of v] by (auto simp: indices_eq)
next
  have rebuild: "unat (vpn_val u) =
      (unat (indices u ! 0) * 512 + unat (indices u ! 1)) * 512 + unat (indices u ! 2)"
    if "unat (vpn_val u) < 2 ^ 27" for u
  proof -
    have "[unat (indices u ! 0), unat (indices u ! 1), unat (indices u ! 2)] = map unat (indices u)"
      by (simp add: indices_eq)
    then have "unat (indices u ! 0) = unat (vpn_val u) div 262144 mod 512"
      "unat (indices u ! 1) = unat (vpn_val u) div 512 mod 512"
      "unat (indices u ! 2) = unat (vpn_val u) mod 512"
      unfolding unat_indices by simp_all
    moreover from that have "unat (vpn_val u) < 134217728" by simp
    ultimately show ?thesis by (simp only: three_digits)
  qed
  show "indices v = indices w \<longleftrightarrow> v = w"
    using rebuild [OF assms(1)] rebuild [OF assms(2)]
    by (metis virt_page_num.expand word_unat_eq_iff)
qed

theorem indices_determine_vpn_witness:
  "indices (VirtPageNum 0x80200) = [2, 1, 0] \<and> indices (VirtPageNum 0x80200) \<noteq> indices (VirtPageNum 0x80201)"
proof -
  have "indices (VirtPageNum 0x80200) = indices (VirtPageNum 0x80201)
      \<longleftrightarrow> VirtPageNum 0x80200 = VirtPageNum 0x80201"
    using indices_determine_vpn [of "VirtPageNum 0x80200" "VirtPageNum 0x80201"] by simp
  then show ?thesis by (simp add: indices_eq mask_eq_exp_minus_1 drop_bit_eq_div)
qed

text \<open>Every page-aligned physical address below 4 GiB is reached through the linear
  mapping without loss: its higher-half address is canonical, so \<open>VirtAddr::from\<close> leaves it
  alone, converting it to a page number does not panic, and converting the page number back
  and removing the offset gives the physical address again.\<close>

theorem linear_map_round_trip:
  assumes "unat pa < 2 ^ 32" and "unat pa mod 4096 = 0"
  shows "\<exists>v. va_from_usize (phys_to_virt pa) = VirtAddr (phys_to_virt pa)
    \<and> vpn_from_va (VirtAddr (phys_to_virt pa)) = Inr v
    \<and> virt_to_phys (va_val (va_from_vpn v)) = pa"
proof -
  have can: "va_from_usize (phys_to_virt pa) = VirtAddr (phys_to_virt pa)"
    using canonical_linear [OF assms(1)] by (simp add: va_from_usize_sign_extend canonical_def)
  have "unat (phys_to_virt pa AND mask 12) = 0"
  proof -
    have "phys_to_virt pa AND mask 12 = pa AND mask 12"
      using assms(1)
      by (intro bit_word_eqI) (auto simp: phys_to_virt_or bit_simps bit_offset)
    then show ?thesis using assms(2) by (simp only: unat_and_mask) simp
  qed
  then have al: "phys_to_virt pa AND mask 12 = 0" by (simp add: unat_eq_0)
  then have ok: "vpn_from_va (VirtAddr (phys_to_virt pa)) = Inr (va_floor (VirtAddr (phys_to_virt pa)))"
    by (simp add: vpn_from_va_def va_page_offset_def page_size_mask)
  have "va_from_vpn (va_floor (VirtAddr (phys_to_virt pa))) = VirtAddr (phys_to_virt pa)"
    using shl_shr_aligned [OF al] can by (simp add: va_from_vpn_def va_floor_def PAGE_SIZE_BITS_def)
  with can ok show ?thesis by simp
qed

theorem linear_map_round_trip_witness:
  "\<exists>v. vpn_from_va (VirtAddr (phys_to_virt 0x80200000)) = Inr v
    \<and> virt_to_phys (va_val (va_from_vpn v)) = 0x80200000"
  using linear_map_round_trip [of "0x80200000"] by auto

text \<open>Page numbers and page addresses are inverse to each other: the address of a page
  below the 64-bit limit converts back to that page, and \<open>PhysPageNum::from\<close> succeeds on an
  address exactly when it is page aligned, panicking otherwise.\<close>

theorem ppn_pa_round_trip:
  assumes "unat (ppn_val p) < 2 ^ 52"
  shows "ppn_from_pa (pa_from_ppn p) = Inr p
    \<and> (ppn_from_pa a = (if unat (pa_val a) mod 4096 = 0 then Inr (pa_floor a) else Inl Assert_failed))
    \<and> (unat (pa_val a) mod 4096 = 0 \<longrightarrow> pa_from_ppn (pa_floor a) = a)"
proof (intro conjI impI)
  have "pa_floor (pa_from_ppn p) = p"
    using assms by (intro phys_page_num.expand) (simp add: word_unat_eq_iff)
  moreover have "unat (pa_page_offset (pa_from_ppn p)) = 0" using assms by simp
  ultimately show "ppn_from_pa (pa_from_ppn p) = Inr p"
    by (simp add: ppn_from_pa_def)
  show "ppn_from_pa a = (if unat (pa_val a) mod 4096 = 0 then Inr (pa_floor a) else Inl Assert_failed)"
    by (simp add: ppn_from_pa_def require_def)
  assume "unat (pa_val a) mod 4096 = 0"
  then show "pa_from_ppn (pa_floor a) = a"
    by (intro phys_addr.expand)
      (simp add: word_unat_eq_iff less_mult_imp_div_less mod_eq_0_iff_dvd)
qed

theorem ppn_pa_round_trip_witness:
  "ppn_from_pa (pa_from_ppn (PhysPageNum 0x80200)) = Inr (PhysPageNum 0x80200)"
  by (rule ppn_pa_round_trip [THEN conjunct1]) simp

text \<open>Iterating a \<open>VPNRange\<close> yields exactly the page numbers from its start to just before
  its end, in order, and then stops; a range whose start is not below its end is empty.\<close>

theorem range_collect_upt:
  "map (unat \<circ> vpn_val) (range_collect (range_new s e)) = [unat (vpn_val s)..<unat (vpn_val e)]"
proof -
  have "map (unat \<circ> vpn_val) (range_collect r) = [unat (vpn_val (range_current r))..<unat (vpn_val (range_end r))]" for r
  proof (induction r rule: range_collect.induct)
    case (1 r)
    show ?case
    proof (cases "range_current r < range_end r")
      case True
      then have lt: "unat (vpn_val (range_current r)) < unat (vpn_val (range_end r))"
        by (simp add: less_virt_page_num_def word_less_nat_alt)
      then have "unat (vpn_val (range_current r) + 1) = Suc (unat (vpn_val (range_current r)))"
        by (rule unat_plus_1)
      with True lt "1" show ?thesis
        by (simp add: range_collect.simps [of r] range_next_def vpn_next_def upt_conv_Cons)
    next
      case False
      then show ?thesis
        by (simp add: range_collect.simps [of r] range_next_def less_virt_page_num_def word_less_nat_alt)
    qed
  qed
  then show ?thesis by (simp add: range_new_def)
qed

end
