(* ===== verification/Ring_Buffer.thy ===== *)
theory Ring_Buffer
  imports Rust_Prelude
begin

text \<open>
  The ring buffer of \<open>src/data_struct/ring_buf.rs\<close>: a \<open>[MaybeUninit<T>; N]\<close> with head, tail
  and length. A slot is \<open>None\<close> while it has never been written; reading such a slot is
  undefined behaviour in the source and a fault here. The interface the UART service relies
  on is the locale \<open>bounded_fifo\<close>; the ring buffer is an instance of it for every non-zero
  capacity, and the 4096-byte buffers of the service are interpreted at the end.
\<close>

record 'a ring_buffer =
  rb_buffer :: "'a option list"
  rb_head :: usize
  rb_tail :: usize
  rb_len :: usize

definition rb_new :: "usize \<Rightarrow> 'a ring_buffer" where
  "rb_new N = \<lparr>rb_buffer = replicate (unat N) None, rb_head = 0, rb_tail = 0, rb_len = 0\<rparr>"

definition rb_push :: "usize \<Rightarrow> 'a ring_buffer \<Rightarrow> 'a \<Rightarrow> ((unit, 'a) result \<times> 'a ring_buffer) res" where
  "rb_push N b item =
     (if rb_len b = N then Inr (Err item, b)
      else require (unat (rb_tail b) < length (rb_buffer b)) Index_out_of_bounds
        (require (N \<noteq> 0) (Panicked ''remainder with a divisor of zero'')
          (Inr (Ok (), b\<lparr>rb_buffer := (rb_buffer b)[unat (rb_tail b) := Some item],
                         rb_tail := (rb_tail b + 1) mod N,
                         rb_len := rb_len b + 1\<rparr>))))"

definition rb_pop :: "usize \<Rightarrow> 'a ring_buffer \<Rightarrow> ('a option \<times> 'a ring_buffer) res" where
  "rb_pop N b =
     (if rb_len b = 0 then Inr (None, b)
      else require (N \<noteq> 0) (Panicked ''remainder with a divisor of zero'')
        (let old_head = rb_head b;
             b' = b\<lparr>rb_head := (rb_head b + 1) mod N, rb_len := rb_len b - 1\<rparr>
         in rbind (index (rb_buffer b') (unat old_head))
              (\<lambda>slot. case slot of None \<Rightarrow> Inl Undefined_behaviour
                                | Some v \<Rightarrow> Inr (Some v, b'))))"

definition rb_is_empty :: "'a ring_buffer \<Rightarrow> bool" where
  "rb_is_empty b \<longleftrightarrow> rb_len b = 0"

definition rb_is_full :: "usize \<Rightarrow> 'a ring_buffer \<Rightarrow> bool" where
  "rb_is_full N b \<longleftrightarrow> rb_len b = N"

definition rb_capacity :: "usize \<Rightarrow> 'a ring_buffer \<Rightarrow> usize" where
  "rb_capacity N b = N"

section \<open>Interface\<close>

text \<open>A client that pops at most \<open>k\<close> elements, stopping early when the queue is empty.\<close>

fun pop_upto :: "('q \<Rightarrow> ('a option \<times> 'q) res) \<Rightarrow> nat \<Rightarrow> 'q \<Rightarrow> ('a list \<times> 'q) res" where
  "pop_upto pop 0 q = Inr ([], q)"
| "pop_upto pop (Suc k) q =
     rbind (pop q) (\<lambda>(c, q'). case c of
         None \<Rightarrow> Inr ([], q')
       | Some x \<Rightarrow> rbind (pop_upto pop k q') (\<lambda>(xs, q''). Inr (x # xs, q'')))"

fun push_all :: "('q \<Rightarrow> 'a \<Rightarrow> ((unit, 'a) result \<times> 'q) res) \<Rightarrow> 'q \<Rightarrow> 'a list \<Rightarrow> 'q res" where
  "push_all push q [] = Inr q"
| "push_all push q (x # xs) = rbind (push q x) (\<lambda>(_, q'). push_all push q' xs)"

locale bounded_fifo =
  fixes push :: "'q \<Rightarrow> 'a \<Rightarrow> ((unit, 'a) result \<times> 'q) res"
    and pop :: "'q \<Rightarrow> ('a option \<times> 'q) res"
    and is_empty :: "'q \<Rightarrow> bool"
    and cap :: nat
    and contents :: "'q \<Rightarrow> 'a list"
    and invar :: "'q \<Rightarrow> bool"
  assumes bounded: "invar q \<Longrightarrow> length (contents q) \<le> cap"
    and push_ok: "invar q \<Longrightarrow> length (contents q) < cap \<Longrightarrow>
      \<exists>q'. push q x = Inr (Ok (), q') \<and> invar q' \<and> contents q' = contents q @ [x]"
    and push_full: "invar q \<Longrightarrow> length (contents q) = cap \<Longrightarrow> push q x = Inr (Err x, q)"
    and pop_empty: "invar q \<Longrightarrow> contents q = [] \<Longrightarrow> pop q = Inr (None, q)"
    and pop_ok: "invar q \<Longrightarrow> contents q = x # xs \<Longrightarrow>
      \<exists>q'. pop q = Inr (Some x, q') \<and> invar q' \<and> contents q' = xs"
    and is_empty_iff: "invar q \<Longrightarrow> is_empty q \<longleftrightarrow> contents q = []"
begin

lemma push_cases:
  assumes "invar q"
  obtains q' where "push q x = Inr (Ok (), q')" "invar q'" "contents q' = contents q @ [x]"
    "length (contents q) < cap"
  | "push q x = Inr (Err x, q)" "length (contents q) = cap"
  using assms bounded push_ok push_full by (metis le_neq_implies_less)

lemma pop_upto_take:
  assumes "invar q"
  shows "\<exists>q'. pop_upto pop k q = Inr (take k (contents q), q') \<and> invar q'
    \<and> contents q' = drop k (contents q)"
  using assms
proof (induction k arbitrary: q)
  case 0
  then show ?case by simp
next
  case (Suc k)
  show ?case
  proof (cases "contents q")
    case Nil
    with Suc.prems show ?thesis by (simp add: pop_empty)
  next
    case (Cons x xs)
    then obtain q1 where q1: "pop q = Inr (Some x, q1)" "invar q1" "contents q1 = xs"
      using pop_ok Suc.prems by blast
    with Suc.IH [OF q1(2)] Cons show ?thesis by auto
  qed
qed

lemma push_all_take:
  assumes "invar q"
  shows "\<exists>q'. push_all push q xs = Inr q' \<and> invar q'
    \<and> contents q' = contents q @ take (cap - length (contents q)) xs"
  using assms
proof (induction xs arbitrary: q)
  case Nil
  then show ?case by simp
next
  case (Cons x xs)
  from Cons.prems show ?case
  proof (cases rule: push_cases [of q x])
    case (1 q')
    from Cons.IH [OF 1(2)] 1 show ?thesis by (auto simp: take_Cons' Suc_diff_Suc)
  next
    case 2
    from Cons.IH [OF Cons.prems] 2 show ?thesis by simp
  qed
qed

lemma fifo_round_trip:
  assumes "invar q" and "length (contents q) + length xs \<le> cap"
  shows "\<exists>q1 q2. push_all push q xs = Inr q1
    \<and> pop_upto pop (length (contents q) + length xs) q1 = Inr (contents q @ xs, q2)
    \<and> invar q2 \<and> contents q2 = []"
proof -
  obtain q1 where q1: "push_all push q xs = Inr q1" "invar q1" "contents q1 = contents q @ xs"
    using push_all_take [OF assms(1), of xs] assms(2) by auto
  with pop_upto_take [OF q1(2), of "length (contents q) + length xs"] show ?thesis by auto
qed

end

section \<open>The ring buffer implements the interface\<close>

definition rb_inv :: "usize \<Rightarrow> 'a ring_buffer \<Rightarrow> bool" where
  "rb_inv N b \<longleftrightarrow> 0 < N \<and> length (rb_buffer b) = unat N \<and> rb_head b < N \<and> rb_len b \<le> N
     \<and> unat (rb_tail b) = (unat (rb_head b) + unat (rb_len b)) mod unat N
     \<and> (\<forall>i < unat (rb_len b). rb_buffer b ! ((unat (rb_head b) + i) mod unat N) \<noteq> None)"

definition rb_list :: "usize \<Rightarrow> 'a ring_buffer \<Rightarrow> 'a list" where
  "rb_list N b = map (\<lambda>i. the (rb_buffer b ! ((unat (rb_head b) + i) mod unat N))) [0..<unat (rb_len b)]"

lemma length_rb_list [simp]: "length (rb_list N b) = unat (rb_len b)"
  by (simp add: rb_list_def)

lemma unat_Suc_mod: "0 < N \<Longrightarrow> w < N \<Longrightarrow> unat ((w + 1) mod N :: usize) = Suc (unat w) mod unat N"
  by (simp add: unat_mod_distrib unat_plus_1 word_less_nat_alt)

lemma mod_slot_neq:
  fixes N :: nat
  assumes "i < j" "j < N"
  shows "(h + i) mod N \<noteq> (h + j) mod N"
proof
  assume "(h + i) mod N = (h + j) mod N"
  then have "i mod N = j mod N" by (simp add: nat_mod_eq_iff add.commute)
  with assms show False by simp
qed

lemma rb_len_new [simp]: "rb_len (rb_new N) = 0"
  by (simp add: rb_new_def)

lemma rb_new_inv: "0 < N \<Longrightarrow> rb_inv N (rb_new N) \<and> rb_list N (rb_new N) = []"
  by (simp add: rb_inv_def rb_new_def rb_list_def)

lemma rb_push_ok:
  assumes inv: "rb_inv N b" and room: "unat (rb_len b) < unat N"
  shows "\<exists>b'. rb_push N b x = Inr (Ok (), b') \<and> rb_inv N b' \<and> rb_list N b' = rb_list N b @ [x]"
proof -
  let ?n = "unat N" and ?h = "unat (rb_head b)" and ?l = "unat (rb_len b)"
  let ?t = "unat (rb_tail b)"
  define b' where "b' = b\<lparr>rb_buffer := (rb_buffer b)[?t := Some x],
    rb_tail := (rb_tail b + 1) mod N, rb_len := rb_len b + 1\<rparr>"
  have n: "0 < N" "0 < ?n" using inv by (auto simp: rb_inv_def word_less_nat_alt)
  have t: "?t = (?h + ?l) mod ?n" and len: "length (rb_buffer b) = ?n"
    using inv by (auto simp: rb_inv_def)
  have t_lt: "?t < ?n" using t n by simp
  have l': "unat (rb_len b + 1) = Suc ?l" using room by (rule unat_plus_1)
  have t': "unat ((rb_tail b + 1) mod N) = Suc ?t mod ?n"
    using n t_lt by (simp add: unat_Suc_mod word_less_nat_alt)
  have slot: "rb_buffer b' ! ((?h + i) mod ?n) =
      (if i = ?l then Some x else rb_buffer b ! ((?h + i) mod ?n))" if "i \<le> ?l" for i
  proof (cases "i = ?l")
    case True
    with t t_lt len show ?thesis by (simp add: b'_def)
  next
    case False
    with that room have "(?h + i) mod ?n \<noteq> ?t" unfolding t by (intro mod_slot_neq) simp_all
    with False show ?thesis by (simp add: b'_def)
  qed
  have "rb_inv N b'"
    using inv room len l' t' t slot unfolding rb_inv_def
    by (auto simp: b'_def word_le_nat_alt less_Suc_eq mod_Suc_eq)
  moreover have "rb_list N b' = rb_list N b @ [x]"
    using slot l' by (auto simp: rb_list_def b'_def)
  moreover have "rb_push N b x = Inr (Ok (), b')"
    using room t_lt len n by (auto simp: rb_push_def b'_def)
  ultimately show ?thesis by blast
qed

lemma rb_pop_ok:
  assumes inv: "rb_inv N b" and contents: "rb_list N b = x # xs"
  shows "\<exists>b'. rb_pop N b = Inr (Some x, b') \<and> rb_inv N b' \<and> rb_list N b' = xs"
proof -
  let ?n = "unat N" and ?h = "unat (rb_head b)" and ?l = "unat (rb_len b)"
  define b' where "b' = b\<lparr>rb_head := (rb_head b + 1) mod N, rb_len := rb_len b - 1\<rparr>"
  have l: "?l = Suc (length xs)" using arg_cong [OF contents, of length] by simp
  have n: "0 < N" and h: "?h < ?n" and len: "length (rb_buffer b) = ?n"
    using inv by (auto simp: rb_inv_def word_less_nat_alt)
  have h': "unat ((rb_head b + 1) mod N) = Suc ?h mod ?n"
    using n h by (simp add: unat_Suc_mod word_less_nat_alt)
  have l': "unat (rb_len b - 1) = length xs"
    using l by (simp add: unat_word_minus)
  have shift: "(Suc ?h mod ?n + i) mod ?n = (?h + Suc i) mod ?n" for i
    by (simp add: mod_add_left_eq)
  have split: "[0..<?l] = 0 # map Suc [0..<length xs]"
    unfolding l by (simp add: upt_conv_Cons map_Suc_upt del: upt_Suc)
  have x: "rb_buffer b ! ?h = Some x"
  proof -
    have "the (rb_buffer b ! ((?h + 0) mod ?n)) = x"
      using contents unfolding rb_list_def split by simp
    moreover have "rb_buffer b ! ((?h + 0) mod ?n) \<noteq> None"
      using inv l unfolding rb_inv_def by (metis zero_less_Suc)
    ultimately show ?thesis using h by auto
  qed
  have "rb_list N b' = xs"
    using contents unfolding rb_list_def split by (simp add: b'_def h' l' shift comp_def)
  moreover have "rb_inv N b'"
  proof -
    have "rb_buffer b ! ((?h + Suc i) mod ?n) \<noteq> None" if "i < length xs" for i
      using inv l that unfolding rb_inv_def by (metis Suc_less_eq)
    with inv l show ?thesis
      by (simp add: rb_inv_def b'_def h' l' shift word_le_nat_alt word_less_nat_alt)
  qed
  moreover have "rb_pop N b = Inr (Some x, b')"
    using n h len x l by (auto simp: rb_pop_def b'_def index_def)
  ultimately show ?thesis by blast
qed

lemma rb_fifo: "0 < N \<Longrightarrow>
  bounded_fifo (rb_push N) (rb_pop N) rb_is_empty (unat N) (rb_list N) (rb_inv N)"
proof unfold_locales
  fix q :: "'a ring_buffer" and x xs
  assume inv: "rb_inv N q"
  show "length (rb_list N q) \<le> unat N" using inv by (simp add: rb_inv_def word_le_nat_alt)
  show "\<exists>q'. rb_push N q x = Inr (Ok (), q') \<and> rb_inv N q' \<and> rb_list N q' = rb_list N q @ [x]"
    if "length (rb_list N q) < unat N"
    using rb_push_ok [OF inv] that by simp
  show "\<exists>q'. rb_pop N q = Inr (Some x, q') \<and> rb_inv N q' \<and> rb_list N q' = xs"
    if "rb_list N q = x # xs"
    using rb_pop_ok [OF inv that] .
qed (auto simp: rb_push_def rb_pop_def rb_is_empty_def rb_list_def unat_eq_0 dest: iffD2 [OF word_unat_eq_iff])

interpretation uart_buf: bounded_fifo "rb_push 4096" "rb_pop 4096" rb_is_empty 4096
  "rb_list 4096" "rb_inv 4096"
  using rb_fifo [of 4096] by simp

section \<open>Properties\<close>

text \<open>C16. The ring buffer is a bounded first-in first-out queue. In a well-formed buffer of any
  capacity \<open>push\<close> and \<open>pop\<close> never index out of range and never read an uninitialised slot:
  \<open>push\<close> appends at the back, or hands the item back and changes nothing exactly when the
  buffer is full; \<open>pop\<close> removes the oldest element, or returns \<open>None\<close> exactly when it is
  empty; both keep the buffer well-formed.\<close>

theorem rb_refines_fifo:
  assumes "rb_inv N b"
  shows "(case rb_push N b x of
            Inr (Ok _, b') \<Rightarrow> length (rb_list N b) < unat N \<and> rb_inv N b' \<and> rb_list N b' = rb_list N b @ [x]
          | Inr (Err y, b') \<Rightarrow> length (rb_list N b) = unat N \<and> y = x \<and> b' = b
          | Inl _ \<Rightarrow> False)
       \<and> (case rb_pop N b of
            Inr (Some y, b') \<Rightarrow> rb_inv N b' \<and> rb_list N b = y # rb_list N b'
          | Inr (None, b') \<Rightarrow> rb_list N b = [] \<and> b' = b
          | Inl _ \<Rightarrow> False)"
proof -
  have fifo: "bounded_fifo (rb_push N) (rb_pop N) rb_is_empty (unat N) (rb_list N) (rb_inv N :: 'a ring_buffer \<Rightarrow> bool)"
    using assms by (intro rb_fifo) (simp add: rb_inv_def)
  show ?thesis
  proof
    show "case rb_push N b x of
            Inr (Ok _, b') \<Rightarrow> length (rb_list N b) < unat N \<and> rb_inv N b' \<and> rb_list N b' = rb_list N b @ [x]
          | Inr (Err y, b') \<Rightarrow> length (rb_list N b) = unat N \<and> y = x \<and> b' = b
          | Inl _ \<Rightarrow> False"
      by (rule bounded_fifo.push_cases [OF fifo assms, of x]) simp_all
    show "case rb_pop N b of
            Inr (Some y, b') \<Rightarrow> rb_inv N b' \<and> rb_list N b = y # rb_list N b'
          | Inr (None, b') \<Rightarrow> rb_list N b = [] \<and> b' = b
          | Inl _ \<Rightarrow> False"
    proof (cases "rb_list N b")
      case Nil
      then show ?thesis using bounded_fifo.pop_empty [OF fifo assms] by simp
    next
      case (Cons y ys)
      then show ?thesis using bounded_fifo.pop_ok [OF fifo assms] by fastforce
    qed
  qed
qed

theorem rb_refines_fifo_witness:
  "rb_inv 2 (rb_new 2 :: nat ring_buffer)
   \<and> rb_push 2 (rb_new 2) (7::nat)
       = Inr (Ok (), \<lparr>rb_buffer = [Some 7, None], rb_head = 0, rb_tail = 1, rb_len = 1\<rparr>)
   \<and> rb_list 2 \<lparr>rb_buffer = [Some 7, None], rb_head = 0, rb_tail = 1, rb_len = 1\<rparr> = [7::nat]"
proof -
  have inv: "rb_inv 2 (rb_new 2 :: nat ring_buffer)" by (simp add: rb_new_inv)
  have "replicate 2 None = [None, None :: nat option]" by (simp add: numeral_2_eq_2)
  then have push: "rb_push 2 (rb_new 2) (7::nat)
      = Inr (Ok (), \<lparr>rb_buffer = [Some 7, None], rb_head = 0, rb_tail = 1, rb_len = 1\<rparr>)"
    by (simp add: rb_push_def rb_new_def)
  from rb_refines_fifo [OF inv, of 7] inv push show ?thesis
    by (simp add: rb_new_inv)
qed

text \<open>The 4096-byte buffers of the UART service lose and reorder nothing: any sequence of
  at most 4096 bytes pushed into a fresh buffer is popped again in the same order, after which
  the buffer is empty and well-formed.\<close>

theorem uart_buffer_round_trip:
  assumes "length xs \<le> 4096"
  shows "\<exists>b1 b2. push_all (rb_push 4096) (rb_new 4096) xs = Inr b1
    \<and> pop_upto (rb_pop 4096) (length xs) b1 = Inr (xs, b2)
    \<and> rb_inv 4096 b2 \<and> rb_list 4096 b2 = []"
  using uart_buf.fifo_round_trip [of "rb_new 4096" xs] assms by (simp add: rb_new_inv)

theorem uart_buffer_round_trip_witness:
  "\<exists>b1 b2. push_all (rb_push 4096) (rb_new 4096) [72 :: u8, 105] = Inr b1
    \<and> pop_upto (rb_pop 4096) 2 b1 = Inr ([72, 105], b2)"
  using uart_buffer_round_trip [of "[72 :: u8, 105]"] by (simp add: numeral_2_eq_2 [symmetric]) blast

end
