(* ===== verification/Memblock.thy ===== *)
theory Memblock
  imports Address
begin

text \<open>
  The boot-time region allocator of \<open>src/mm/memblock.rs\<close>. A \<open>RegionArray\<close> is an array of 128
  regions of which the first \<open>count\<close> are in use; \<open>add_region\<close> merges, \<open>remove_region\<close> cuts, both
  by shifting array elements with \<open>copy_within\<close>. The array operations are first shown to
  compute simple list functions on the used prefix, and those are given a meaning as sets of
  byte addresses. The contract \<open>interval_store\<close> is what \<open>Memblock\<close> relies on.
\<close>

definition MAX_REGIONS :: nat where "MAX_REGIONS = 128"

record mem_region =
  mr_base :: phys_addr
  mr_size :: usize

definition region_end :: "mem_region \<Rightarrow> phys_addr" where
  "region_end r = PhysAddr (pa_val (mr_base r) + mr_size r)"

record region_array =
  ra_regions :: "mem_region list"
  ra_count :: nat
  ra_total_size :: usize

definition region_array_new :: region_array where
  "region_array_new = \<lparr>ra_regions = replicate MAX_REGIONS \<lparr>mr_base = PhysAddr 0, mr_size = 0\<rparr>,
     ra_count = 0, ra_total_size = 0\<rparr>"

text \<open>\<open><[T]>::copy_within(s..e, d)\<close>.\<close>

definition copy_within :: "'a list \<Rightarrow> nat \<Rightarrow> nat \<Rightarrow> nat \<Rightarrow> 'a list res" where
  "copy_within xs s e d =
     (if s \<le> e \<and> e \<le> length xs \<and> d \<le> length xs - (e - s)
      then Inr (take d xs @ take (e - s) (drop s xs) @ drop (d + (e - s)) xs)
      else Inl Index_out_of_bounds)"

definition update_total :: "region_array \<Rightarrow> region_array res" where
  "update_total a = require (ra_count a \<le> length (ra_regions a)) Index_out_of_bounds
     (Inr (a\<lparr>ra_total_size := sum_list (map mr_size (take (ra_count a) (ra_regions a)))\<rparr>))"

function insert_idx_loop :: "region_array \<Rightarrow> phys_addr \<Rightarrow> nat \<Rightarrow> nat res" where
  "insert_idx_loop a base i =
     (if i < ra_count a
      then rbind (index (ra_regions a) i) (\<lambda>r.
             if region_end r < base then insert_idx_loop a base (Suc i) else Inr i)
      else Inr i)"
  by pat_completeness auto
termination
  by (relation "measure (\<lambda>(a, base, i). ra_count a - i)") auto

function merge_loop :: "region_array \<Rightarrow> phys_addr \<Rightarrow> phys_addr \<Rightarrow> nat \<Rightarrow> (phys_addr \<times> phys_addr \<times> nat) res" where
  "merge_loop a merged_base merged_end i =
     (if i < ra_count a
      then rbind (index (ra_regions a) i) (\<lambda>r.
             if mr_base r \<le> merged_end
             then merge_loop a
                    (PhysAddr (min (pa_val merged_base) (pa_val (mr_base r))))
                    (PhysAddr (max (pa_val merged_end) (pa_val (region_end r)))) (Suc i)
             else Inr (merged_base, merged_end, i))
      else Inr (merged_base, merged_end, i))"
  by pat_completeness auto
termination
  by (relation "measure (\<lambda>(a, mb, me, i). ra_count a - i)") auto

declare insert_idx_loop.simps [simp del] merge_loop.simps [simp del]

definition set_region :: "region_array \<Rightarrow> nat \<Rightarrow> mem_region \<Rightarrow> region_array res" where
  "set_region a i r = require (i < length (ra_regions a)) Index_out_of_bounds
     (Inr (a\<lparr>ra_regions := (ra_regions a)[i := r]\<rparr>))"

definition make_room :: "region_array \<Rightarrow> nat \<Rightarrow> nat \<Rightarrow> region_array res" where
  "make_room a insert_idx i =
     (let merge_count = i - insert_idx in
      if merge_count = 0
      then require (ra_count a < MAX_REGIONS) Assert_failed
             (rbind (copy_within (ra_regions a) insert_idx (ra_count a) (insert_idx + 1)) (\<lambda>rs.
                Inr (a\<lparr>ra_regions := rs, ra_count := ra_count a + 1\<rparr>)))
      else let shift = merge_count - 1 in
        if shift > 0
        then rbind (copy_within (ra_regions a) i (ra_count a) (i - shift)) (\<lambda>rs.
               Inr (a\<lparr>ra_regions := rs, ra_count := ra_count a - shift\<rparr>))
        else Inr a)"

definition add_region :: "region_array \<Rightarrow> phys_addr \<Rightarrow> usize \<Rightarrow> region_array res" where
  "add_region a base sz =
     (if sz = 0 then Inr a
      else
        rbind (insert_idx_loop a base 0) (\<lambda>insert_idx.
        rbind (merge_loop a base (PhysAddr (pa_val base + sz)) insert_idx) (\<lambda>(merged_base, merged_end, i).
        rbind (make_room a insert_idx i) (\<lambda>a1.
        rbind (set_region a1 insert_idx
                 \<lparr>mr_base = merged_base, mr_size = pa_val merged_end - pa_val merged_base\<rparr>)
        update_total))))"

definition remove_step :: "phys_addr \<Rightarrow> phys_addr \<Rightarrow> region_array \<Rightarrow> nat \<Rightarrow> (region_array \<times> nat) res" where
  "remove_step rm_base rm_end a i =
     rbind (index (ra_regions a) i) (\<lambda>r.
       let reg_base = mr_base r; reg_end = region_end r in
       if rm_base < reg_end \<and> rm_end > reg_base
       then if rm_base \<le> reg_base \<and> rm_end \<ge> reg_end
            then rbind (copy_within (ra_regions a) (i + 1) (ra_count a) i) (\<lambda>rs.
                   Inr (a\<lparr>ra_regions := rs, ra_count := ra_count a - 1\<rparr>, i))
            else if rm_base \<le> reg_base \<and> rm_end < reg_end
            then rbind (set_region a i \<lparr>mr_base = rm_end, mr_size = pa_val reg_end - pa_val rm_end\<rparr>)
                   (\<lambda>a'. Inr (a', i + 1))
            else if rm_base > reg_base \<and> rm_end \<ge> reg_end
            then rbind (set_region a i (r\<lparr>mr_size := pa_val rm_base - pa_val reg_base\<rparr>))
                   (\<lambda>a'. Inr (a', i + 1))
            else require (ra_count a < MAX_REGIONS) Assert_failed
                   (rbind (set_region a i (r\<lparr>mr_size := pa_val rm_base - pa_val reg_base\<rparr>)) (\<lambda>a1.
                    rbind (copy_within (ra_regions a1) (i + 1) (ra_count a1) (i + 2)) (\<lambda>rs.
                    rbind (set_region (a1\<lparr>ra_regions := rs\<rparr>) (i + 1)
                             \<lparr>mr_base = rm_end, mr_size = pa_val reg_end - pa_val rm_end\<rparr>) (\<lambda>a2.
                    Inr (a2\<lparr>ra_count := ra_count a2 + 1\<rparr>, i + 2)))))
       else Inr (a, i + 1))"

lemma remove_step_measure:
  "remove_step b e a i = Inr (a', i') \<Longrightarrow> i < ra_count a \<Longrightarrow> ra_count a' - i' < ra_count a - i"
  by (auto simp: remove_step_def set_region_def Let_def split: if_splits)

function remove_loop :: "phys_addr \<Rightarrow> phys_addr \<Rightarrow> region_array \<Rightarrow> nat \<Rightarrow> region_array res" where
  "remove_loop rm_base rm_end a i =
     (if i < ra_count a
      then (case remove_step rm_base rm_end a i of
              Inl f \<Rightarrow> Inl f
            | Inr (a', i') \<Rightarrow> remove_loop rm_base rm_end a' i')
      else Inr a)"
  by pat_completeness auto
termination
  by (relation "measure (\<lambda>(b, e, a, i). ra_count a - i)") (auto dest: remove_step_measure)

declare remove_loop.simps [simp del]

definition remove_region :: "region_array \<Rightarrow> phys_addr \<Rightarrow> usize \<Rightarrow> region_array res" where
  "remove_region a rm_base rm_size =
     (if rm_size = 0 then Inr a
      else rbind (remove_loop rm_base (PhysAddr (pa_val rm_base + rm_size)) a 0) update_total)"

section \<open>Memblock\<close>

record memblock =
  mb_available :: region_array
  mb_reserved :: region_array
  mb_allocated :: region_array

definition memblock_new :: memblock where
  "memblock_new = \<lparr>mb_available = region_array_new, mb_reserved = region_array_new,
     mb_allocated = region_array_new\<rparr>"

definition init_add_memory :: "memblock \<Rightarrow> phys_addr \<Rightarrow> usize \<Rightarrow> memblock res" where
  "init_add_memory m base sz =
     rbind (add_region (mb_available m) base sz) (\<lambda>a. Inr (m\<lparr>mb_available := a\<rparr>))"

definition reserve_memory :: "memblock \<Rightarrow> phys_addr \<Rightarrow> usize \<Rightarrow> memblock res" where
  "reserve_memory m base sz =
     rbind (remove_region (mb_available m) base sz) (\<lambda>a.
     rbind (add_region (mb_reserved m) base sz) (\<lambda>r.
       Inr (m\<lparr>mb_available := a, mb_reserved := r\<rparr>)))"

definition alloc_base_of :: "mem_region \<Rightarrow> usize \<Rightarrow> usize \<Rightarrow> usize" where
  "alloc_base_of reg sz align = (pa_val (region_end reg) - sz) AND NOT (align - 1)"

fun early_alloc_loop :: "memblock \<Rightarrow> usize \<Rightarrow> usize \<Rightarrow> nat \<Rightarrow> (phys_addr option \<times> memblock) res" where
  "early_alloc_loop m sz align 0 = Inr (None, m)"
| "early_alloc_loop m sz align (Suc i) =
     rbind (index (ra_regions (mb_available m)) i) (\<lambda>reg.
       let alloc_base = alloc_base_of reg sz align in
       if pa_val (mr_base reg) \<le> alloc_base
       then rbind (remove_region (mb_available m) (PhysAddr alloc_base) sz) (\<lambda>av.
            rbind (add_region (mb_allocated m) (PhysAddr alloc_base) sz) (\<lambda>al.
              Inr (Some (PhysAddr alloc_base), m\<lparr>mb_available := av, mb_allocated := al\<rparr>)))
       else early_alloc_loop m sz align i)"

definition early_alloc :: "memblock \<Rightarrow> usize \<Rightarrow> usize \<Rightarrow> (phys_addr option \<times> memblock) res" where
  "early_alloc m sz align = early_alloc_loop m sz align (ra_count (mb_available m))"

section \<open>The used prefix of a region array\<close>

definition ra_list :: "region_array \<Rightarrow> mem_region list" where
  "ra_list a = take (ra_count a) (ra_regions a)"

definition ra_ok :: "region_array \<Rightarrow> bool" where
  "ra_ok a \<longleftrightarrow> length (ra_regions a) = MAX_REGIONS \<and> ra_count a \<le> MAX_REGIONS"

fun merge_list :: "phys_addr \<Rightarrow> phys_addr \<Rightarrow> mem_region list \<Rightarrow> phys_addr \<times> phys_addr \<times> nat" where
  "merge_list mb me [] = (mb, me, 0)"
| "merge_list mb me (r # rs) =
     (if mr_base r \<le> me
      then case merge_list (PhysAddr (min (pa_val mb) (pa_val (mr_base r))))
                           (PhysAddr (max (pa_val me) (pa_val (region_end r)))) rs of
             (x, y, n) \<Rightarrow> (x, y, Suc n)
      else (mb, me, 0))"

lemma length_ra_list [simp]: "ra_ok a \<Longrightarrow> length (ra_list a) = ra_count a"
  by (simp add: ra_ok_def ra_list_def)

lemma ra_list_nth: "ra_ok a \<Longrightarrow> i < ra_count a \<Longrightarrow> ra_regions a ! i = ra_list a ! i"
  by (simp add: ra_list_def)

lemma index_ra: "ra_ok a \<Longrightarrow> i < ra_count a \<Longrightarrow> index (ra_regions a) i = Inr (ra_list a ! i)"
  by (simp add: ra_list_nth ra_ok_def)

lemma drop_ra_list:
  "ra_ok a \<Longrightarrow> i < ra_count a \<Longrightarrow> drop i (ra_list a) = ra_list a ! i # drop (Suc i) (ra_list a)"
  by (simp add: Cons_nth_drop_Suc)

lemma insert_idx_loop_list:
  assumes "ra_ok a" and "i \<le> ra_count a"
  shows "insert_idx_loop a base i =
    Inr (i + length (takeWhile (\<lambda>r. region_end r < base) (drop i (ra_list a))))"
  using assms
proof (induction a base i rule: insert_idx_loop.induct)
  case (1 a base i)
  show ?case
  proof (cases "i < ra_count a")
    case True
    with "1" show ?thesis
      by (simp add: insert_idx_loop.simps [of a base i] index_ra drop_ra_list)
  next
    case False
    with "1.prems" show ?thesis by (subst insert_idx_loop.simps) simp
  qed
qed

lemma merge_loop_list:
  assumes "ra_ok a" and "i \<le> ra_count a"
  shows "merge_loop a mb me i =
    (case merge_list mb me (drop i (ra_list a)) of (x, y, n) \<Rightarrow> Inr (x, y, i + n))"
  using assms
proof (induction a mb me i rule: merge_loop.induct)
  case (1 a mb me i)
  show ?case
  proof (cases "i < ra_count a")
    case True
    with "1" show ?thesis
      by (simp add: merge_loop.simps [of a mb me i] index_ra drop_ra_list split: prod.splits)
  next
    case False
    with "1.prems" show ?thesis by (subst merge_loop.simps) simp
  qed
qed

lemma merge_list_length: "merge_list mb me rs = (x, y, n) \<Longrightarrow> n \<le> length rs"
  by (induction mb me rs arbitrary: x y n rule: merge_list.induct) (auto split: if_splits prod.splits)

lemma copy_within_length: "copy_within xs s e d = Inr ys \<Longrightarrow> length ys = length xs"
  by (auto simp: copy_within_def split: if_splits)

lemma ra_split:
  assumes "ra_ok a" and "k + n \<le> ra_count a"
  obtains P M R Z where "ra_regions a = P @ M @ R @ Z" "length P = k" "length M = n"
    "ra_count a = k + n + length R" "ra_list a = P @ M @ R" "k + n + length R + length Z = MAX_REGIONS"
proof -
  let ?xs = "ra_regions a" and ?c = "ra_count a"
  let ?P = "take k ?xs" and ?M = "take n (drop k ?xs)" and ?R = "take (?c - k - n) (drop (k + n) ?xs)"
  have len: "length ?xs = MAX_REGIONS" "?c \<le> MAX_REGIONS" using assms by (simp_all add: ra_ok_def)
  have "?P @ ?M @ ?R = take (k + n + (?c - k - n)) ?xs"
    by (simp add: take_add add.commute)
  with assms have pre: "?P @ ?M @ ?R = take ?c ?xs" by simp
  then have "?xs = ?P @ ?M @ ?R @ drop ?c ?xs" by (metis append_assoc append_take_drop_id)
  with pre assms len that [of ?P ?M ?R "drop ?c ?xs"] show ?thesis by (simp add: ra_list_def)
qed

lemma shifted_tail:
  "R @ z # Z = w # ws \<Longrightarrow>
   take (length R) (w # ws) = R \<and> drop (length R) ws = Z \<and> length ws = length R + length Z"
  by (cases R) auto

lemma make_room_set_list:
  assumes ok: "ra_ok a" and k: "k + n \<le> ra_count a" and room: "n = 0 \<Longrightarrow> ra_count a < MAX_REGIONS"
  shows "\<exists>a1 a2. make_room a k (k + n) = Inr a1 \<and> set_region a1 k r = Inr a2 \<and> ra_ok a2
    \<and> ra_list a2 = take k (ra_list a) @ [r] @ drop (k + n) (ra_list a)"
proof -
  from ok k obtain P M R Z where s: "ra_regions a = P @ M @ R @ Z" "length P = k" "length M = n"
    "ra_count a = k + n + length R" "ra_list a = P @ M @ R" "k + n + length R + length Z = MAX_REGIONS"
    by (rule ra_split)
  show ?thesis
  proof (cases n)
    case 0
    with room s obtain z Z' where Z: "Z = z # Z'" by (cases Z) auto
    obtain w ws where w: "R @ z # Z' = w # ws" by (cases R) auto
    note sh = shifted_tail [OF w]
    have "take (Suc k) (P @ w # ws) = P @ [w]" using s by simp
    then have "make_room a k (k + n) = Inr (a\<lparr>ra_regions := P @ w # R @ Z', ra_count := Suc (ra_count a)\<rparr>)"
      using 0 s Z w sh by (simp add: make_room_def copy_within_def)
    with 0 s Z show ?thesis
      by (simp add: set_region_def ra_ok_def ra_list_def list_update_append)
  next
    case (Suc m)
    with s obtain w W where M: "M = w # W" by (cases M) auto
    have room_eq: "\<exists>Z'. make_room a k (k + n) = Inr (a\<lparr>ra_regions := P @ w # R @ Z', ra_count := Suc (k + length R)\<rparr>)
        \<and> length Z' = length Z + m"
    proof (cases m)
      case 0
      with Suc s M show ?thesis by (intro exI [of _ Z]) (simp add: make_room_def)
    next
      case (Suc m')
      with \<open>n = Suc m\<close> s M show ?thesis
        by (intro exI [of _ "drop (length R) (W @ R @ Z)"]) (simp add: make_room_def copy_within_def Let_def)
    qed
    with Suc s show ?thesis
      by (auto simp add: set_region_def ra_ok_def ra_list_def list_update_append)
  qed
qed

lemma update_total_list:
  assumes "ra_ok a"
  shows "\<exists>a'. update_total a = Inr a' \<and> ra_ok a' \<and> ra_list a' = ra_list a
    \<and> ra_total_size a' = sum_list (map mr_size (ra_list a))"
  using assms by (simp add: update_total_def ra_ok_def ra_list_def)

definition cut :: "phys_addr \<Rightarrow> phys_addr \<Rightarrow> mem_region \<Rightarrow> mem_region list" where
  "cut b e r =
     (if b < region_end r \<and> mr_base r < e
      then (if mr_base r < b then [r\<lparr>mr_size := pa_val b - pa_val (mr_base r)\<rparr>] else []) @
           (if e < region_end r then [\<lparr>mr_base = e, mr_size = pa_val (region_end r) - pa_val e\<rparr>] else [])
      else [r])"

lemma remove_step_list:
  assumes ok: "ra_ok a" and i: "i < ra_count a"
    and room: "length (cut b e (ra_list a ! i)) = 2 \<Longrightarrow> ra_count a < MAX_REGIONS"
  shows "\<exists>a'. remove_step b e a i = Inr (a', i + length (cut b e (ra_list a ! i))) \<and> ra_ok a'
    \<and> ra_list a' = take i (ra_list a) @ cut b e (ra_list a ! i) @ drop (Suc i) (ra_list a)"
proof -
  from i have "i + 1 \<le> ra_count a" by simp
  with ok obtain P M R Z where s: "ra_regions a = P @ M @ R @ Z" "length P = i" "length M = 1"
    "ra_count a = i + 1 + length R" "ra_list a = P @ M @ R" "i + 1 + length R + length Z = MAX_REGIONS"
    by (rule ra_split)
  then obtain r where M: "M = [r]" by (cases M) auto
  with s have r: "ra_list a ! i = r" by (simp add: nth_append)
  have idx: "index (ra_regions a) i = Inr r" using index_ra [OF ok i] r by simp
  have nth: "(P @ r # X) ! i = r" for X using s(2) by (simp add: nth_append)
  have upd: "(P @ x # X)[i := y] = P @ y # X" for x y X using s(2) by (simp add: list_update_append)
  have upd2: "(P @ v # x # X)[Suc i := y] = P @ v # y # X" for v x y X
    using s(2) by (simp add: list_update_append)
  note step = remove_step_def idx nth upd upd2 Let_def set_region_def ra_ok_def ra_list_def
  consider (miss) "\<not> (b < region_end r \<and> mr_base r < e)"
    | (all) "b < region_end r" "mr_base r < e" "b \<le> mr_base r" "region_end r \<le> e"
    | (head) "b < region_end r" "mr_base r < e" "b \<le> mr_base r" "e < region_end r"
    | (tail) "b < region_end r" "mr_base r < e" "mr_base r < b" "region_end r \<le> e"
    | (hole) "b < region_end r" "mr_base r < e" "mr_base r < b" "e < region_end r"
    by (meson not_le)
  then show ?thesis
  proof cases
    case miss
    then have "cut b e r = [r]" by (auto simp: cut_def)
    with miss ok s M show ?thesis
      by (auto simp: remove_step_def idx nth Let_def)
  next
    case all
    then have "cut b e r = []" by (simp add: cut_def leD)
    with all s M show ?thesis by (simp add: step copy_within_def)
  next
    case head
    then have "cut b e r = [\<lparr>mr_base = e, mr_size = pa_val (region_end r) - pa_val e\<rparr>]"
      by (simp add: cut_def leD)
    with head s M show ?thesis by (simp add: step)
  next
    case tail
    then have "cut b e r = [r\<lparr>mr_size := pa_val b - pa_val (mr_base r)\<rparr>]"
      by (simp add: cut_def leD)
    with tail s M show ?thesis by (simp add: step)
  next
    case hole
    then have c: "cut b e r = [r\<lparr>mr_size := pa_val b - pa_val (mr_base r)\<rparr>,
        \<lparr>mr_base = e, mr_size = pa_val (region_end r) - pa_val e\<rparr>]"
      by (simp add: cut_def)
    with room r s obtain z Z' where Z: "Z = z # Z'" by (cases Z) auto
    obtain w ws where w: "R @ z # Z' = w # ws" by (cases R) auto
    note sh = shifted_tail [OF w]
    have "take (Suc (Suc i)) (P @ x # w # ws) = P @ [x, w]" for x using s by simp
    with hole c s M Z w sh show ?thesis by (simp add: step copy_within_def leD [OF less_imp_le] not_le)
  qed
qed

lemma remove_loop_list:
  assumes "ra_ok a" and "i \<le> ra_count a" and "remove_loop b e a i = Inr a'"
  shows "ra_ok a' \<and> ra_list a' = take i (ra_list a) @ concat (map (cut b e) (drop i (ra_list a)))"
  using assms
proof (induction b e a i rule: remove_loop.induct)
  case (1 b e a i)
  show ?case
  proof (cases "i < ra_count a")
    case False
    with "1.prems"(3) have "a' = a" by (subst (asm) remove_loop.simps) simp
    with False "1.prems" show ?thesis by simp
  next
    case True
    let ?r = "ra_list a ! i"
    from True "1.prems"(3) obtain a1 i1 where step: "remove_step b e a i = Inr (a1, i1)"
      and rest: "remove_loop b e a1 i1 = Inr a'"
      by (auto simp: remove_loop.simps [of b e a i] split: sum.splits)
    have "ra_count a < MAX_REGIONS" if "length (cut b e ?r) = 2"
      using step that by (auto simp: remove_step_def index_ra [OF "1.prems"(1) True] cut_def Let_def
          require_def not_le split: if_splits)
    with remove_step_list [OF "1.prems"(1) True, of b e] step
    have a1: "i1 = i + length (cut b e ?r)" "ra_ok a1"
      "ra_list a1 = take i (ra_list a) @ cut b e ?r @ drop (Suc i) (ra_list a)" by auto
    have "i1 \<le> ra_count a1"
      using a1 True "1.prems"(1) length_ra_list [OF a1(2)] by simp
    from "1.IH" [OF True step refl a1(2) this rest] a1 True "1.prems"(1) show ?thesis
      by (simp add: drop_ra_list)
  qed
qed

lemma remove_loop_succeeds:
  assumes "ra_ok a" and "i \<le> ra_count a"
    and "ra_count a + length (filter (\<lambda>r. length (cut b e r) = 2) (drop i (ra_list a))) \<le> MAX_REGIONS"
  shows "\<exists>a'. remove_loop b e a i = Inr a'"
  using assms
proof (induction b e a i rule: remove_loop.induct)
  case (1 b e a i)
  show ?case
  proof (cases "i < ra_count a")
    case False
    then show ?thesis by (subst remove_loop.simps) simp
  next
    case True
    let ?r = "ra_list a ! i"
    have "ra_count a < MAX_REGIONS" if "length (cut b e ?r) = 2"
      using "1.prems" True that by (simp add: drop_ra_list)
    with remove_step_list [OF "1.prems"(1) True, of b e] obtain a1
      where a1: "remove_step b e a i = Inr (a1, i + length (cut b e ?r))" "ra_ok a1"
        "ra_list a1 = take i (ra_list a) @ cut b e ?r @ drop (Suc i) (ra_list a)" by auto
    have c: "ra_count a1 = ra_count a + length (cut b e ?r) - 1"
      using arg_cong [OF a1(3), of length] a1(2) "1.prems"(1) True by simp
    have "length (cut b e ?r) \<le> 2" by (simp add: cut_def)
    with a1 c True "1.prems" "1.IH" [OF True a1(1) refl a1(2)] show ?thesis
      by (auto simp: remove_loop.simps [of b e a i] drop_ra_list split: if_splits)
  qed
qed

lemma add_region_list:
  assumes ok: "ra_ok a" and sz: "sz \<noteq> 0"
    and k: "k = length (takeWhile (\<lambda>r. region_end r < base) (ra_list a))"
    and mg: "merge_list base (PhysAddr (pa_val base + sz)) (drop k (ra_list a)) = (mb, me, n)"
  shows "if n = 0 \<and> ra_count a = MAX_REGIONS then add_region a base sz = Inl Assert_failed
    else \<exists>a'. add_region a base sz = Inr a' \<and> ra_ok a'
      \<and> ra_list a' = take k (ra_list a) @ [\<lparr>mr_base = mb, mr_size = pa_val me - pa_val mb\<rparr>] @ drop (k + n) (ra_list a)
      \<and> ra_total_size a' = sum_list (map mr_size (ra_list a'))"
proof -
  let ?r = "\<lparr>mr_base = mb, mr_size = pa_val me - pa_val mb\<rparr>"
  have kc: "k \<le> ra_count a" using k length_takeWhile_le length_ra_list [OF ok] by metis
  have n: "k + n \<le> ra_count a"
    using merge_list_length [OF mg] kc ok by simp
  have ins: "insert_idx_loop a base 0 = Inr k"
    using insert_idx_loop_list [OF ok, of 0 base] k by simp
  have mrg: "merge_loop a base (PhysAddr (pa_val base + sz)) k = Inr (mb, me, k + n)"
    using merge_loop_list [OF ok kc] mg by simp
  show ?thesis
  proof (cases "n = 0 \<and> ra_count a = MAX_REGIONS")
    case True
    then show ?thesis using sz ins mrg by (simp add: add_region_def make_room_def)
  next
    case False
    with ok n have "n = 0 \<Longrightarrow> ra_count a < MAX_REGIONS" by (simp add: ra_ok_def)
    from make_room_set_list [OF ok n this, of ?r] obtain a1 a2
      where "make_room a k (k + n) = Inr a1" "set_region a1 k ?r = Inr a2" "ra_ok a2"
        "ra_list a2 = take k (ra_list a) @ [?r] @ drop (k + n) (ra_list a)" by blast
    with False sz ins mrg update_total_list [of a2] show ?thesis
      by (auto simp: add_region_def)
  qed
qed

section \<open>Regions as sets of byte addresses\<close>

abbreviation rlo :: "mem_region \<Rightarrow> nat" where "rlo r \<equiv> unat (pa_val (mr_base r))"
abbreviation rhi :: "mem_region \<Rightarrow> nat" where "rhi r \<equiv> rlo r + unat (mr_size r)"

definition bytes :: "mem_region \<Rightarrow> nat set" where
  "bytes r = {rlo r ..< rhi r}"

definition span :: "phys_addr \<Rightarrow> usize \<Rightarrow> nat set" where
  "span b z = {unat (pa_val b) ..< unat (pa_val b) + unat z}"

definition covers :: "region_array \<Rightarrow> nat set" where
  "covers a = (\<Union>r \<in> set (ra_list a). bytes r)"

definition region_wf :: "mem_region \<Rightarrow> bool" where
  "region_wf r \<longleftrightarrow> 0 < unat (mr_size r) \<and> rhi r < 18446744073709551616"

definition regions_wf :: "mem_region list \<Rightarrow> bool" where
  "regions_wf rs \<longleftrightarrow> (\<forall>r \<in> set rs. region_wf r) \<and> sorted_wrt (\<lambda>r s. rhi r < rlo s) rs"

definition ra_inv :: "region_array \<Rightarrow> bool" where
  "ra_inv a \<longleftrightarrow> ra_ok a \<and> regions_wf (ra_list a) \<and> ra_total_size a = sum_list (map mr_size (ra_list a))"

definition no_wrap :: "phys_addr \<Rightarrow> usize \<Rightarrow> bool" where
  "no_wrap b z \<longleftrightarrow> unat (pa_val b) + unat z < 18446744073709551616"

lemmas pa_order = less_phys_addr_def less_eq_phys_addr_def word_less_nat_alt word_le_nat_alt

lemma unat_region_end: "region_wf r \<Longrightarrow> unat (pa_val (region_end r)) = rhi r"
  by (simp add: region_wf_def region_end_def unat_word_plus)

lemma regions_wf_Nil [simp]: "regions_wf []"
  by (simp add: regions_wf_def)

lemma regions_wf_append:
  "regions_wf (xs @ ys) \<longleftrightarrow> regions_wf xs \<and> regions_wf ys \<and> (\<forall>r \<in> set xs. \<forall>s \<in> set ys. rhi r < rlo s)"
  by (auto simp: regions_wf_def sorted_wrt_append)

lemma regions_wf_Cons:
  "regions_wf (r # rs) \<longleftrightarrow> region_wf r \<and> regions_wf rs \<and> (\<forall>s \<in> set rs. rhi r < rlo s)"
  by (auto simp: regions_wf_def)

lemma cut_spec:
  assumes wf: "region_wf r" and be: "unat (pa_val b) < unat (pa_val e)"
  shows "regions_wf (cut b e r)
    \<and> (\<forall>s \<in> set (cut b e r). rlo r \<le> rlo s \<and> rhi s \<le> rhi r)
    \<and> (\<Union>s \<in> set (cut b e r). bytes s) = bytes r - {unat (pa_val b) ..< unat (pa_val e)}"
proof -
  have hit: "b < region_end r \<and> mr_base r < e \<longleftrightarrow> unat (pa_val b) < rhi r \<and> rlo r < unat (pa_val e)"
    and lo: "mr_base r < b \<longleftrightarrow> rlo r < unat (pa_val b)"
    and hi: "e < region_end r \<longleftrightarrow> unat (pa_val e) < rhi r"
    by (simp_all add: pa_order unat_region_end [OF wf])
  have szl: "unat (pa_val b - pa_val (mr_base r)) = unat (pa_val b) - rlo r" if "rlo r < unat (pa_val b)"
    using that by (simp add: unat_word_minus)
  have szr: "unat (pa_val (region_end r) - pa_val e) = rhi r - unat (pa_val e)" if "unat (pa_val e) < rhi r"
    using that by (simp add: unat_word_minus unat_region_end [OF wf])
  have w: "0 < unat (mr_size r)" "rhi r < 18446744073709551616" using wf by (simp_all add: region_wf_def)
  show ?thesis
    unfolding cut_def hit lo hi
    using be w szl szr by (auto simp: regions_wf_Cons region_wf_def bytes_def)
qed

lemma cut_all_spec:
  assumes "regions_wf rs" and be: "unat (pa_val b) < unat (pa_val e)"
  shows "regions_wf (concat (map (cut b e) rs))
    \<and> (\<Union>s \<in> set (concat (map (cut b e) rs)). bytes s)
        = (\<Union>r \<in> set rs. bytes r) - {unat (pa_val b) ..< unat (pa_val e)}"
  using assms(1)
proof (induction rs)
  case Nil
  then show ?case by simp
next
  case (Cons r rs)
  then have r: "region_wf r" and rs: "regions_wf rs" and gap: "\<forall>s \<in> set rs. rhi r < rlo s"
    by (simp_all add: regions_wf_Cons)
  note c = cut_spec [OF r be]
  have "rhi x < rlo y" if "x \<in> set (cut b e r)" "y \<in> set (concat (map (cut b e) rs))" for x y
  proof -
    from that(2) obtain s where s: "s \<in> set rs" "y \<in> set (cut b e s)" by auto
    with rs have "region_wf s" by (simp add: regions_wf_def)
    from cut_spec [OF this be] s(2) have "rlo s \<le> rlo y" by blast
    moreover have "rhi x \<le> rhi r" using c that(1) by blast
    ultimately show ?thesis using gap s(1) by (meson le_less_trans less_le_trans)
  qed
  moreover note Cons.IH [OF rs] c
  ultimately show ?case by (auto simp: regions_wf_append)
qed

lemma merge_list_spec:
  assumes "merge_list mb me rs = (x, y, n)" and "regions_wf rs"
    and "unat (pa_val mb) < unat (pa_val me)" and "\<forall>r \<in> set rs. unat (pa_val mb) \<le> rhi r"
  shows "{unat (pa_val x) ..< unat (pa_val y)}
        = {unat (pa_val mb) ..< unat (pa_val me)} \<union> (\<Union>r \<in> set (take n rs). bytes r)
    \<and> unat (pa_val x) < unat (pa_val y)
    \<and> (\<forall>r \<in> set (drop n rs). unat (pa_val y) < rlo r)
    \<and> (\<forall>p. p < unat (pa_val mb) \<longrightarrow> (\<forall>r \<in> set rs. p < rlo r) \<longrightarrow> p < unat (pa_val x))"
  using assms
proof (induction mb me rs arbitrary: x y n rule: merge_list.induct)
  case (1 mb me)
  then show ?case by simp
next
  case (2 mb me r rs)
  let ?mb = "PhysAddr (min (pa_val mb) (pa_val (mr_base r)))"
  let ?me = "PhysAddr (max (pa_val me) (pa_val (region_end r)))"
  from "2.prems"(2) have r: "region_wf r" "regions_wf rs" and gap: "\<forall>s \<in> set rs. rhi r < rlo s"
    by (simp_all add: regions_wf_Cons)
  show ?case
  proof (cases "mr_base r \<le> me")
    case False
    with "2.prems" gap show ?thesis by (auto simp: pa_order)
  next
    case True
    then have le: "rlo r \<le> unat (pa_val me)" by (simp add: pa_order)
    from True "2.prems"(1) obtain m where m: "merge_list ?mb ?me rs = (x, y, m)" "n = Suc m"
      by (auto split: prod.splits)
    have mb': "unat (pa_val ?mb) = min (unat (pa_val mb)) (rlo r)"
      and me': "unat (pa_val ?me) = max (unat (pa_val me)) (rhi r)"
      using unat_region_end [OF r(1)] by (simp_all add: min_def max_def word_le_nat_alt)
    have lt: "unat (pa_val ?mb) < unat (pa_val ?me)"
      using "2.prems"(3) unfolding mb' me' by linarith
    have above: "\<forall>s \<in> set rs. unat (pa_val ?mb) \<le> rhi s"
      using gap unfolding mb' by fastforce
    note IH = "2.IH" [OF True m(1) r(2) lt above, unfolded mb' me']
    have "{min (unat (pa_val mb)) (rlo r) ..< max (unat (pa_val me)) (rhi r)}
        = {unat (pa_val mb) ..< unat (pa_val me)} \<union> bytes r"
      using le "2.prems"(3,4) by (auto simp: bytes_def)
    with IH m(2) show ?thesis by auto
  qed
qed

lemma takeWhile_end_spec:
  assumes "regions_wf rs" and "rs = ps @ qs" and "ps = takeWhile (\<lambda>r. region_end r < base) rs"
  shows "(\<forall>r \<in> set ps. rhi r < unat (pa_val base)) \<and> (\<forall>r \<in> set qs. unat (pa_val base) \<le> rhi r)"
proof
  have wf: "region_wf r" if "r \<in> set rs" for r using assms(1) that by (simp add: regions_wf_def)
  show "\<forall>r \<in> set ps. rhi r < unat (pa_val base)"
    using set_takeWhileD wf unat_region_end assms(3) by (fastforce simp: pa_order)
  show "\<forall>r \<in> set qs. unat (pa_val base) \<le> rhi r"
  proof (cases qs)
    case (Cons q qs')
    have "qs = dropWhile (\<lambda>r. region_end r < base) rs"
      using assms(2,3) by (metis same_append_eq takeWhile_dropWhile_id)
    with Cons have "\<not> region_end q < base" by (metis dropWhile_eq_Cons_conv)
    moreover have "region_wf q" using wf assms(2) Cons by simp
    ultimately have "unat (pa_val base) \<le> rhi q" by (simp add: pa_order unat_region_end not_less)
    moreover have "\<forall>s \<in> set qs'. rhi q < rlo s"
      using assms(1,2) Cons by (simp add: regions_wf_append regions_wf_Cons)
    ultimately show ?thesis using Cons by fastforce
  qed simp
qed

text \<open>The region that an \<open>add_region\<close> has to insert when nothing can be merged.\<close>

definition mergeable :: "region_array \<Rightarrow> phys_addr \<Rightarrow> usize \<Rightarrow> bool" where
  "mergeable a base z \<longleftrightarrow>
     (\<exists>r \<in> set (ra_list a). unat (pa_val base) \<le> rhi r \<and> rlo r \<le> unat (pa_val base) + unat z)"

lemma add_region_cases:
  assumes inv: "ra_inv a" and nw: "no_wrap base z" and z: "z \<noteq> 0"
  shows "if ra_count a = MAX_REGIONS \<and> \<not> mergeable a base z
    then add_region a base z = Inl Assert_failed
    else \<exists>a'. add_region a base z = Inr a' \<and> ra_inv a' \<and> covers a' = covers a \<union> span base z"
proof -
  let ?L = "ra_list a" and ?stop = "PhysAddr (pa_val base + z)"
  define ps where "ps = takeWhile (\<lambda>r. region_end r < base) ?L"
  define qs where "qs = dropWhile (\<lambda>r. region_end r < base) ?L"
  define k where "k = length ps"
  have L: "?L = ps @ qs" by (simp add: ps_def qs_def)
  have tk: "take k ?L = ps" and dk: "drop k ?L = qs" by (simp_all add: L k_def)
  obtain mb me n where mg: "merge_list base ?stop qs = (mb, me, n)" by (metis prod_cases3)
  have ok: "ra_ok a" and wf: "regions_wf (ps @ qs)" using inv L by (simp_all add: ra_inv_def)
  have e: "unat (pa_val ?stop) = unat (pa_val base) + unat z" using nw by (simp add: no_wrap_def unat_word_plus)
  have z0: "0 < unat z" using z by (simp add: unat_gt_0)
  have ends: "\<forall>r \<in> set ps. rhi r < unat (pa_val base)" "\<forall>r \<in> set qs. unat (pa_val base) \<le> rhi r"
    using takeWhile_end_spec [OF wf [folded L] L ps_def] by blast+
  from wf have wqs: "regions_wf qs" and wps: "regions_wf ps"
    and gap: "\<forall>r \<in> set ps. \<forall>s \<in> set qs. rhi r < rlo s" by (simp_all add: regions_wf_append)
  have lt: "unat (pa_val base) < unat (pa_val ?stop)" using e z0 by simp
  note ms = merge_list_spec [OF mg wqs lt ends(2)]
  have n0: "n = 0 \<longleftrightarrow> \<not> mergeable a base z"
  proof (cases qs)
    case Nil
    with mg ends show ?thesis by (auto simp: mergeable_def L)
  next
    case (Cons q qs')
    have "mr_base q \<le> ?stop \<longleftrightarrow> rlo q \<le> unat (pa_val base) + unat z" by (simp add: pa_order e [simplified])
    moreover have "n = 0 \<longleftrightarrow> \<not> mr_base q \<le> ?stop" using mg Cons by (auto split: if_splits prod.splits)
    moreover have "\<forall>s \<in> set qs'. rlo q < rlo s" using wqs Cons by (auto simp: regions_wf_Cons)
    ultimately show ?thesis using ends Cons by (fastforce simp: mergeable_def L)
  qed
  let ?r = "\<lparr>mr_base = mb, mr_size = pa_val me - pa_val mb\<rparr>"
  have szr: "unat (pa_val me - pa_val mb) = unat (pa_val me) - unat (pa_val mb)"
    using ms by (simp add: unat_word_minus)
  have r: "region_wf ?r" "rhi ?r = unat (pa_val me)" "bytes ?r = {unat (pa_val mb) ..< unat (pa_val me)}"
    using ms by (simp_all add: region_wf_def bytes_def szr)
  have wf': "regions_wf (ps @ [?r] @ drop n qs)"
  proof -
    have "regions_wf (drop n qs)" using wqs by (metis append_take_drop_id regions_wf_append)
    moreover have "rhi p < unat (pa_val mb)" if "p \<in> set ps" for p
      using ms ends(1) gap that by blast
    moreover have "\<forall>s \<in> set (drop n qs). rhi p < rlo s" if "p \<in> set ps" for p
      using gap that by (meson in_set_dropD)
    ultimately show ?thesis using wps r ms
      by (simp add: regions_wf_append regions_wf_Cons) 
  qed
  have "(\<Union>s \<in> set qs. bytes s) = (\<Union>s \<in> set (take n qs). bytes s) \<union> (\<Union>s \<in> set (drop n qs). bytes s)"
    by (metis UN_Un append_take_drop_id set_append)
  then have cov: "(\<Union>s \<in> set (ps @ [?r] @ drop n qs). bytes s) = (\<Union>s \<in> set (ps @ qs). bytes s) \<union> span base z"
    using ms r e by (auto simp: span_def)
  note add = add_region_list [OF ok z k_def [unfolded ps_def] mg [folded dk]]
  show ?thesis
  proof (cases "n = 0 \<and> ra_count a = MAX_REGIONS")
    case True
    with add n0 show ?thesis by auto
  next
    case False
    with add obtain a' where a': "add_region a base z = Inr a'" "ra_ok a'"
      "ra_list a' = take k ?L @ [?r] @ drop (k + n) ?L"
      "ra_total_size a' = sum_list (map mr_size (ra_list a'))" by auto
    have "drop (k + n) ?L = drop n qs" by (simp add: L k_def)
    with a' tk have l': "ra_list a' = ps @ [?r] @ drop n qs" by simp
    have "ra_inv a'" using a' wf' unfolding ra_inv_def l' by simp
    moreover have "covers a' = covers a \<union> span base z"
      using cov unfolding covers_def l' L .
    ultimately show ?thesis using a'(1) False n0 by auto
  qed
qed

definition punches_hole :: "region_array \<Rightarrow> phys_addr \<Rightarrow> usize \<Rightarrow> bool" where
  "punches_hole a b z \<longleftrightarrow> (\<exists>r \<in> set (ra_list a). rlo r < unat (pa_val b) \<and> unat (pa_val b) + unat z < rhi r)"

lemma cut_miss:
  "region_wf r \<Longrightarrow> rhi r \<le> unat (pa_val b) \<or> unat (pa_val e) \<le> rlo r \<Longrightarrow> cut b e r = [r]"
  by (auto simp: cut_def pa_order unat_region_end)

lemma length_cut_2:
  "region_wf r \<Longrightarrow> unat (pa_val b) < unat (pa_val e) \<Longrightarrow>
   length (cut b e r) = 2 \<longleftrightarrow> rlo r < unat (pa_val b) \<and> unat (pa_val e) < rhi r"
  by (auto simp: cut_def pa_order unat_region_end)

lemma hole_unique:
  assumes wf: "regions_wf rs" and be: "unat (pa_val b) < unat (pa_val e)" and r: "r \<in> set rs"
    and hole: "length (cut b e r) = 2"
  shows "length (filter (\<lambda>r. length (cut b e r) = 2) rs) = 1
    \<and> length (concat (map (cut b e) rs)) = length rs + 1"
proof -
  from r obtain xs ys where rs: "rs = xs @ r # ys" by (auto dest: split_list)
  have wr: "region_wf r" and gaps: "\<forall>s \<in> set xs. rhi s < rlo r" "\<forall>s \<in> set ys. rhi r < rlo s"
    and wfs: "\<forall>s \<in> set xs \<union> set ys. region_wf s"
    using wf by (auto simp: rs regions_wf_def sorted_wrt_append)
  from hole wr be have h: "rlo r < unat (pa_val b)" "unat (pa_val e) < rhi r" by (simp_all add: length_cut_2)
  have xs: "cut b e s = [s]" if "s \<in> set xs" for s
    by (rule cut_miss) (use that wfs gaps h in \<open>auto dest!: bspec\<close>)
  have ys: "cut b e s = [s]" if "s \<in> set ys" for s
    by (rule cut_miss) (use that wfs gaps h in \<open>auto dest!: bspec\<close>)
  have "concat (map (cut b e) xs) = xs" "concat (map (cut b e) ys) = ys"
    using xs ys by (simp_all add: map_idI concat_map_singleton cong: map_cong)
  with xs ys hole show ?thesis by (simp add: rs filter_empty_conv)
qed

lemma remove_region_cases:
  assumes inv: "ra_inv a" and nw: "no_wrap b z" and z: "z \<noteq> 0"
  shows "if ra_count a = MAX_REGIONS \<and> punches_hole a b z
    then \<exists>f. remove_region a b z = Inl f
    else \<exists>a'. remove_region a b z = Inr a' \<and> ra_inv a' \<and> covers a' = covers a - span b z"
proof -
  let ?L = "ra_list a" and ?e = "PhysAddr (pa_val b + z)"
  have ok: "ra_ok a" and wf: "regions_wf ?L" using inv by (simp_all add: ra_inv_def)
  have e: "unat (pa_val ?e) = unat (pa_val b) + unat z" using nw by (simp add: no_wrap_def unat_word_plus)
  have be: "unat (pa_val b) < unat (pa_val ?e)" unfolding e using z by (simp add: unat_gt_0)
  have two: "length (cut b ?e r) = 2 \<longleftrightarrow> rlo r < unat (pa_val b) \<and> unat (pa_val b) + unat z < rhi r"
    if "r \<in> set ?L" for r
    using length_cut_2 [OF _ be, of r] wf that unfolding e by (simp add: regions_wf_def)
  have fin: "ra_inv a' \<and> covers a' = covers a - span b z"
    if loop: "remove_loop b ?e a 0 = Inr a1" and upd: "update_total a1 = Inr a'" for a1 a'
  proof -
    from remove_loop_list [OF ok _ loop] have a1: "ra_ok a1" "ra_list a1 = concat (map (cut b ?e) ?L)" by simp_all
    from update_total_list [OF a1(1)] upd
    have "ra_ok a'" "ra_list a' = concat (map (cut b ?e) ?L)" "ra_total_size a' = sum_list (map mr_size (ra_list a'))"
      using a1(2) by auto
    then show ?thesis using cut_all_spec [OF wf be]
      unfolding ra_inv_def covers_def e span_def by simp
  qed
  show ?thesis
  proof (cases "ra_count a = MAX_REGIONS \<and> punches_hole a b z")
    case True
    then obtain r where "r \<in> set ?L" "length (cut b ?e r) = 2" using two by (auto simp: punches_hole_def)
    then have long: "length (concat (map (cut b ?e) ?L)) = MAX_REGIONS + 1"
      using hole_unique [OF wf be] True ok by simp
    have "remove_loop b ?e a 0 \<noteq> Inr a1" for a1
    proof
      assume "remove_loop b ?e a 0 = Inr a1"
      from remove_loop_list [OF ok _ this]
      have "ra_ok a1" "length (ra_list a1) = MAX_REGIONS + 1" using long by simp_all
      then show False by (simp add: ra_ok_def)
    qed
    then have "\<exists>f. remove_loop b ?e a 0 = Inl f" by (metis sum.exhaust)
    with True z show ?thesis by (auto simp: remove_region_def)
  next
    case False
    have "ra_count a + length (filter (\<lambda>r. length (cut b ?e r) = 2) (drop 0 ?L)) \<le> MAX_REGIONS"
    proof (cases "punches_hole a b z")
      case True
      then obtain r where "r \<in> set ?L" "length (cut b ?e r) = 2" using two by (auto simp: punches_hole_def)
      with hole_unique [OF wf be] have "length (filter (\<lambda>r. length (cut b ?e r) = 2) ?L) = 1" by blast
      with False True ok show ?thesis by (simp add: ra_ok_def)
    next
      case False
      with two have "filter (\<lambda>r. length (cut b ?e r) = 2) ?L = []"
        by (auto simp: filter_empty_conv punches_hole_def)
      with ok show ?thesis by (simp add: ra_ok_def)
    qed
    from remove_loop_succeeds [OF ok _ this] obtain a1 where a1: "remove_loop b ?e a 0 = Inr a1" by auto
    with remove_loop_list [OF ok] have "ra_ok a1" by blast
    from update_total_list [OF this] obtain a' where "update_total a1 = Inr a'" by blast
    with a1 fin False z show ?thesis by (auto simp: remove_region_def)
  qed
qed

text \<open>The only fault of the region arrays is the assertion that the array is not full.\<close>

lemma remove_step_fault:
  assumes ok: "ra_ok a" and i: "i < ra_count a" and f: "remove_step b e a i = Inl f"
  shows "f = Assert_failed"
proof (cases "length (cut b e (ra_list a ! i)) = 2 \<longrightarrow> ra_count a < MAX_REGIONS")
  case True
  then show ?thesis using remove_step_list [OF ok i, of b e] f by auto
next
  case False
  then show ?thesis using f
    by (auto simp: remove_step_def index_ra [OF ok i] cut_def Let_def require_def not_le split: if_splits)
qed

lemma remove_loop_fault:
  assumes "ra_ok a" and "i \<le> ra_count a" and "remove_loop b e a i = Inl f"
  shows "f = Assert_failed"
  using assms
proof (induction b e a i rule: remove_loop.induct)
  case (1 b e a i)
  have i: "i < ra_count a" using "1.prems"(3) by (simp add: remove_loop.simps [of b e a i] split: if_splits)
  let ?r = "ra_list a ! i"
  show ?case
  proof (cases "remove_step b e a i")
    case (Inl g)
    then show ?thesis using remove_step_fault [OF "1.prems"(1) i Inl] "1.prems"(3) i
      by (simp add: remove_loop.simps [of b e a i])
  next
    case (Inr s)
    obtain a1 i1 where s: "s = (a1, i1)" by (cases s)
    have "ra_count a < MAX_REGIONS" if "length (cut b e ?r) = 2"
      using Inr that by (auto simp: remove_step_def index_ra [OF "1.prems"(1) i] cut_def Let_def
          require_def not_le split: if_splits)
    with remove_step_list [OF "1.prems"(1) i, of b e] Inr s
    have a1: "i1 = i + length (cut b e ?r)" "ra_ok a1"
      "ra_list a1 = take i (ra_list a) @ cut b e ?r @ drop (Suc i) (ra_list a)" by auto
    have "i1 \<le> ra_count a1" using a1 i "1.prems"(1) length_ra_list [OF a1(2)] by simp
    moreover have "remove_loop b e a1 i1 = Inl f" using "1.prems"(3) i Inr s by (simp add: remove_loop.simps [of b e a i])
    ultimately show ?thesis using "1.IH" [OF i Inr [unfolded s] refl a1(2)] by blast
  qed
qed

lemma region_faults:
  assumes "ra_inv a"
  shows "remove_region a b z = Inl f \<Longrightarrow> f = Assert_failed"
    and "no_wrap b z \<Longrightarrow> add_region a b z = Inl f \<Longrightarrow> f = Assert_failed"
proof -
  have ok: "ra_ok a" using assms by (simp add: ra_inv_def)
  show "f = Assert_failed" if r: "remove_region a b z = Inl f"
  proof (cases "remove_loop b (PhysAddr (pa_val b + z)) a 0")
    case (Inl g)
    then show ?thesis using remove_loop_fault [OF ok _ Inl] r by (auto simp: remove_region_def split: if_splits)
  next
    case (Inr a1)
    then have "ra_ok a1" using remove_loop_list [OF ok _ Inr] by simp
    then show ?thesis using update_total_list [of a1] r Inr by (auto simp: remove_region_def split: if_splits)
  qed
  show "f = Assert_failed" if "no_wrap b z" "add_region a b z = Inl f"
    using add_region_cases [OF assms that(1)] that by (cases "z = 0") (auto simp: add_region_def split: if_splits)
qed

lemma ra_inv_new: "ra_inv region_array_new" "covers region_array_new = {}"
  by (simp_all add: ra_inv_def ra_ok_def region_array_new_def ra_list_def covers_def)

section \<open>The contract Memblock relies on\<close>

locale interval_store =
  fixes add :: "'s \<Rightarrow> phys_addr \<Rightarrow> usize \<Rightarrow> 's res"
    and remove :: "'s \<Rightarrow> phys_addr \<Rightarrow> usize \<Rightarrow> 's res"
    and cover :: "'s \<Rightarrow> nat set"
    and invar :: "'s \<Rightarrow> bool"
  assumes add_cover: "invar s \<Longrightarrow> no_wrap b z \<Longrightarrow> add s b z = Inr s' \<Longrightarrow>
      invar s' \<and> cover s' = cover s \<union> span b z"
    and remove_cover: "invar s \<Longrightarrow> no_wrap b z \<Longrightarrow> remove s b z = Inr s' \<Longrightarrow>
      invar s' \<and> cover s' = cover s - span b z"
begin

lemma transfer:
  assumes "invar s" "invar t" "no_wrap b z" "remove s b z = Inr s'" "add t b z = Inr t'"
  shows "invar s' \<and> invar t' \<and> cover s' = cover s - span b z \<and> cover t' = cover t \<union> span b z"
  using assms add_cover remove_cover by blast

lemma transfer_disjoint:
  assumes "invar s" "invar t" "no_wrap b z" "remove s b z = Inr s'" "add t b z = Inr t'"
    and "cover s \<inter> (cover t \<union> X) = {}"
  shows "cover s' \<inter> (cover t' \<union> X) = {} \<and> cover s' \<subseteq> cover s"
  using transfer [OF assms(1-5)] assms(6) by blast

end

lemma span_0 [simp]: "span b 0 = {}"
  by (simp add: span_def)

interpretation region_store: interval_store add_region remove_region covers ra_inv
proof unfold_locales
  fix s b z s'
  assume a: "ra_inv s" "no_wrap b z"
  show "ra_inv s' \<and> covers s' = covers s \<union> span b z" if "add_region s b z = Inr s'"
    using add_region_cases [OF a] a that by (cases "z = 0") (auto simp: add_region_def split: if_splits)
  show "ra_inv s' \<and> covers s' = covers s - span b z" if "remove_region s b z = Inr s'"
    using remove_region_cases [OF a] a that by (cases "z = 0") (auto simp: remove_region_def split: if_splits)
qed

section \<open>Early allocation\<close>

definition mb_inv :: "memblock \<Rightarrow> bool" where
  "mb_inv m \<longleftrightarrow> ra_inv (mb_available m) \<and> ra_inv (mb_reserved m) \<and> ra_inv (mb_allocated m)"

text \<open>
  What a caller of \<open>early_alloc\<close> has to respect: a non-empty size, a power-of-two alignment,
  and a size not above the end address of any available region, because
  \<open>reg.end().0 - size\<close> is computed without a check.
\<close>

definition alloc_request_ok :: "memblock \<Rightarrow> usize \<Rightarrow> nat \<Rightarrow> bool" where
  "alloc_request_ok m z k \<longleftrightarrow> z \<noteq> 0 \<and> k < 64 \<and> (\<forall>r \<in> set (ra_list (mb_available m)). unat z \<le> rhi r)"

lemma unat_alloc_base:
  assumes "region_wf r" and "unat z \<le> rhi r"
  shows "unat (alloc_base_of r z (2 ^ k)) = (rhi r - unat z) div 2 ^ k * 2 ^ k"
proof -
  have "unat (pa_val (region_end r) - z) = rhi r - unat z"
    using assms by (simp add: unat_word_minus unat_region_end)
  then show ?thesis
    by (simp only: alloc_base_of_def mask_eq_exp_minus_1 [symmetric] unat_and_not_mask)
qed

lemma alloc_base_fits:
  assumes "region_wf r" and "unat z \<le> rhi r" and "mr_base r \<le> PhysAddr (alloc_base_of r z (2 ^ k))"
  shows "no_wrap (PhysAddr (alloc_base_of r z (2 ^ k))) z
    \<and> span (PhysAddr (alloc_base_of r z (2 ^ k))) z \<subseteq> bytes r
    \<and> 2 ^ k dvd unat (alloc_base_of r z (2 ^ k))"
proof -
  note b = unat_alloc_base [OF assms(1,2), of k]
  have "unat (alloc_base_of r z (2 ^ k)) \<le> rhi r - unat z" unfolding b by simp
  with assms(2) have "unat (alloc_base_of r z (2 ^ k)) + unat z \<le> rhi r" by linarith
  moreover have "2 ^ k dvd unat (alloc_base_of r z (2 ^ k))" unfolding b by simp
  ultimately show ?thesis using assms(1,3)
    by (auto simp: no_wrap_def span_def bytes_def region_wf_def pa_order)
qed

lemma alloc_base_misses:
  assumes "region_wf r" and "unat z \<le> rhi r" and "alloc_base_of r z (2 ^ k) < pa_val (mr_base r)"
    and "2 ^ k dvd p" and "rlo r \<le> p"
  shows "rhi r < p + unat z"
proof (rule ccontr)
  assume "\<not> rhi r < p + unat z"
  then have "p \<le> rhi r - unat z" by linarith
  then have "p div 2 ^ k \<le> (rhi r - unat z) div 2 ^ k" by (rule div_le_mono)
  then have "p \<le> unat (alloc_base_of r z (2 ^ k))"
    unfolding unat_alloc_base [OF assms(1,2)] using assms(4) by (metis dvd_div_mult_self mult_le_mono1)
  with assms(3,5) show False by (simp add: word_less_nat_alt)
qed

lemma early_alloc_loop_spec:
  assumes inv: "mb_inv m" and req: "alloc_request_ok m z k" and i: "i \<le> ra_count (mb_available m)"
    and ret: "early_alloc_loop m z (2 ^ k) i = Inr (res, m')"
  shows "case res of
      None \<Rightarrow> m' = m \<and> (\<forall>j < i. \<forall>p. 2 ^ k dvd p \<longrightarrow> rlo (ra_list (mb_available m) ! j) \<le> p
                  \<longrightarrow> rhi (ra_list (mb_available m) ! j) < p + unat z)
    | Some p \<Rightarrow> 2 ^ k dvd unat (pa_val p) \<and> span p z \<subseteq> covers (mb_available m) \<and> no_wrap p z
        \<and> mb_reserved m' = mb_reserved m
        \<and> remove_region (mb_available m) p z = Inr (mb_available m')
        \<and> add_region (mb_allocated m) p z = Inr (mb_allocated m')"
  using i ret
proof (induction i)
  case 0
  then show ?case by auto
next
  case (Suc i)
  let ?r = "ra_list (mb_available m) ! i"
  have ok: "ra_ok (mb_available m)" using inv by (simp add: mb_inv_def ra_inv_def)
  have idx: "index (ra_regions (mb_available m)) i = Inr ?r" using ok Suc.prems by (intro index_ra) simp_all
  have mem: "?r \<in> set (ra_list (mb_available m))" using ok Suc.prems by simp
  then have wf: "region_wf ?r" and le: "unat z \<le> rhi ?r"
    using inv req by (simp_all add: mb_inv_def ra_inv_def regions_wf_def alloc_request_ok_def)
  show ?case
  proof (cases "pa_val (mr_base ?r) \<le> alloc_base_of ?r z (2 ^ k)")
    case True
    let ?p = "PhysAddr (alloc_base_of ?r z (2 ^ k))"
    have "span ?p z \<subseteq> covers (mb_available m)" "no_wrap ?p z" "2 ^ k dvd unat (pa_val ?p)"
      using alloc_base_fits [OF wf le, of k] True mem by (auto simp: covers_def less_eq_phys_addr_def)
    moreover from Suc.prems True obtain av al where "res = Some ?p"
      "remove_region (mb_available m) ?p z = Inr av" "add_region (mb_allocated m) ?p z = Inr al"
      "m' = m\<lparr>mb_available := av, mb_allocated := al\<rparr>" by (auto simp: idx Let_def)
    ultimately show ?thesis by simp
  next
    case False
    then have "early_alloc_loop m z (2 ^ k) i = Inr (res, m')" using Suc.prems by (simp add: idx)
    with Suc have IH: "case res of
      None \<Rightarrow> m' = m \<and> (\<forall>j < i. \<forall>p. 2 ^ k dvd p \<longrightarrow> rlo (ra_list (mb_available m) ! j) \<le> p
                  \<longrightarrow> rhi (ra_list (mb_available m) ! j) < p + unat z)
    | Some p \<Rightarrow> 2 ^ k dvd unat (pa_val p) \<and> span p z \<subseteq> covers (mb_available m) \<and> no_wrap p z
        \<and> mb_reserved m' = mb_reserved m
        \<and> remove_region (mb_available m) p z = Inr (mb_available m')
        \<and> add_region (mb_allocated m) p z = Inr (mb_allocated m')" by simp
    have "rhi ?r < p + unat z" if "2 ^ k dvd p" "rlo ?r \<le> p" for p
      using alloc_base_misses [OF wf le _ that] False by (simp add: not_le)
    with IH show ?thesis by (auto simp: less_Suc_eq split: option.splits)
  qed
qed

lemma early_alloc_loop_succeeds:
  assumes inv: "mb_inv m" and req: "alloc_request_ok m z k" and i: "i \<le> ra_count (mb_available m)"
    and room: "ra_count (mb_available m) < MAX_REGIONS" "ra_count (mb_allocated m) < MAX_REGIONS"
  shows "\<exists>res m'. early_alloc_loop m z (2 ^ k) i = Inr (res, m')"
  using i
proof (induction i)
  case 0
  then show ?case by simp
next
  case (Suc i)
  let ?r = "ra_list (mb_available m) ! i" and ?p = "PhysAddr (alloc_base_of (ra_list (mb_available m) ! i) z (2 ^ k))"
  have ok: "ra_ok (mb_available m)" using inv by (simp add: mb_inv_def ra_inv_def)
  have idx: "index (ra_regions (mb_available m)) i = Inr ?r" using ok Suc.prems by (intro index_ra) simp_all
  have mem: "?r \<in> set (ra_list (mb_available m))" using ok Suc.prems by simp
  then have wf: "region_wf ?r" and le: "unat z \<le> rhi ?r"
    using inv req by (simp_all add: mb_inv_def ra_inv_def regions_wf_def alloc_request_ok_def)
  have z: "z \<noteq> 0" using req by (simp add: alloc_request_ok_def)
  show ?case
  proof (cases "pa_val (mr_base ?r) \<le> alloc_base_of ?r z (2 ^ k)")
    case True
    then have nw: "no_wrap ?p z" using alloc_base_fits [OF wf le, of k] by (simp add: less_eq_phys_addr_def)
    obtain av where "remove_region (mb_available m) ?p z = Inr av"
      using remove_region_cases [OF _ nw z, of "mb_available m"] inv room by (auto simp: mb_inv_def split: if_splits)
    moreover obtain al where "add_region (mb_allocated m) ?p z = Inr al"
      using add_region_cases [OF _ nw z, of "mb_allocated m"] inv room by (auto simp: mb_inv_def split: if_splits)
    ultimately show ?thesis using True by (simp add: idx Let_def)
  next
    case False
    with Suc show ?thesis by (simp add: idx)
  qed
qed

lemma early_alloc_fault:
  assumes inv: "mb_inv m" and req: "alloc_request_ok m z k" and f: "early_alloc m z (2 ^ k) = Inl f"
  shows "f = Assert_failed"
proof -
  have "early_alloc_loop m z (2 ^ k) i = Inl f \<Longrightarrow> i \<le> ra_count (mb_available m) \<Longrightarrow> f = Assert_failed" for i
  proof (induction i)
    case (Suc i)
    let ?r = "ra_list (mb_available m) ! i"
    have ok: "ra_ok (mb_available m)" using inv by (simp add: mb_inv_def ra_inv_def)
    have idx: "index (ra_regions (mb_available m)) i = Inr ?r" using ok Suc.prems(2) by (intro index_ra) simp_all
    have mem: "?r \<in> set (ra_list (mb_available m))" using ok Suc.prems(2) by simp
    then have wf: "region_wf ?r" and le: "unat z \<le> rhi ?r"
      using inv req by (simp_all add: mb_inv_def ra_inv_def regions_wf_def alloc_request_ok_def)
    show ?case
    proof (cases "pa_val (mr_base ?r) \<le> alloc_base_of ?r z (2 ^ k)")
      case True
      then have nw: "no_wrap (PhysAddr (alloc_base_of ?r z (2 ^ k))) z"
        using alloc_base_fits [OF wf le, of k] by (simp add: less_eq_phys_addr_def)
      have av: "ra_inv (mb_available m)" and al: "ra_inv (mb_allocated m)" using inv by (simp_all add: mb_inv_def)
      show ?thesis using Suc.prems(1) True region_faults(1) [OF av] region_faults(2) [OF al nw]
        by (auto simp: idx Let_def rbind_def split: sum.splits)
    next
      case False
      then show ?thesis using Suc by (simp add: idx)
    qed
  qed simp
  then show ?thesis using f by (simp add: early_alloc_def)
qed

lemma reserve_memory_fault:
  assumes "mb_inv m" and "no_wrap b z" and "reserve_memory m b z = Inl f"
  shows "f = Assert_failed"
proof -
  have inv: "ra_inv (mb_available m)" "ra_inv (mb_reserved m)" using assms(1) by (simp_all add: mb_inv_def)
  show ?thesis using assms(3) region_faults(1) [OF inv(1)] region_faults(2) [OF inv(2) assms(2)]
    by (auto simp: reserve_memory_def rbind_def split: sum.splits)
qed

section \<open>Reachable states of the boot allocator\<close>

inductive memblock_reach :: "phys_addr \<Rightarrow> usize \<Rightarrow> memblock \<Rightarrow> bool" for ram_base ram_size where
  init: "no_wrap ram_base ram_size \<Longrightarrow> init_add_memory memblock_new ram_base ram_size = Inr m \<Longrightarrow>
    memblock_reach ram_base ram_size m"
| reserve: "memblock_reach ram_base ram_size m \<Longrightarrow> no_wrap b z \<Longrightarrow> reserve_memory m b z = Inr m' \<Longrightarrow>
    memblock_reach ram_base ram_size m'"
| alloc: "memblock_reach ram_base ram_size m \<Longrightarrow> alloc_request_ok m z k \<Longrightarrow>
    early_alloc m z (2 ^ k) = Inr (r, m') \<Longrightarrow> memblock_reach ram_base ram_size m'"

definition mb_safe :: "phys_addr \<Rightarrow> usize \<Rightarrow> memblock \<Rightarrow> bool" where
  "mb_safe b z m \<longleftrightarrow> mb_inv m
     \<and> covers (mb_available m) \<inter> (covers (mb_reserved m) \<union> covers (mb_allocated m)) = {}
     \<and> covers (mb_available m) \<subseteq> span b z \<and> covers (mb_allocated m) \<subseteq> span b z
     \<and> span b z \<subseteq> covers (mb_available m) \<union> covers (mb_reserved m) \<union> covers (mb_allocated m)"

lemma mb_safe_init:
  "no_wrap b z \<Longrightarrow> init_add_memory memblock_new b z = Inr m \<Longrightarrow> mb_safe b z m"
  using region_store.add_cover [OF ra_inv_new(1), of b z] ra_inv_new
  by (auto simp: init_add_memory_def memblock_new_def mb_safe_def mb_inv_def)

lemma mb_safe_reserve:
  assumes "mb_safe b z m" and "no_wrap b' z'" and "reserve_memory m b' z' = Inr m'"
  shows "mb_safe b z m'"
proof -
  from assms(3) obtain av rs where "remove_region (mb_available m) b' z' = Inr av"
    "add_region (mb_reserved m) b' z' = Inr rs" "m' = m\<lparr>mb_available := av, mb_reserved := rs\<rparr>"
    by (auto simp: reserve_memory_def)
  with region_store.transfer [OF _ _ assms(2) this(1,2)] assms(1) show ?thesis
    by (auto simp: mb_safe_def mb_inv_def)
qed

lemma mb_safe_alloc:
  assumes "mb_safe b z m" and "alloc_request_ok m s k" and "early_alloc m s (2 ^ k) = Inr (r, m')"
  shows "mb_safe b z m'"
proof -
  have inv: "mb_inv m" using assms(1) by (simp add: mb_safe_def)
  note spec = early_alloc_loop_spec [OF inv assms(2) order_refl assms(3) [unfolded early_alloc_def]]
  show ?thesis
  proof (cases r)
    case None
    with spec assms(1) show ?thesis by simp
  next
    case (Some p)
    with spec have sp: "span p s \<subseteq> covers (mb_available m)" "no_wrap p s" "mb_reserved m' = mb_reserved m"
      "remove_region (mb_available m) p s = Inr (mb_available m')"
      "add_region (mb_allocated m) p s = Inr (mb_allocated m')" by simp_all
    have "ra_inv (mb_available m)" "ra_inv (mb_allocated m)" using inv by (simp_all add: mb_inv_def)
    from region_store.transfer [OF this sp(2,4,5)] sp(1,3) assms(1) show ?thesis
      by (auto simp: mb_safe_def mb_inv_def)
  qed
qed

lemma reach_mb_safe: "memblock_reach b z m \<Longrightarrow> mb_safe b z m"
  by (induction rule: memblock_reach.induct) (blast intro: mb_safe_init mb_safe_reserve mb_safe_alloc)+

lemma card_regions:
  assumes "regions_wf rs"
  shows "card (\<Union>r \<in> set rs. bytes r) = (\<Sum>r \<leftarrow> rs. unat (mr_size r))
    \<and> (\<Union>r \<in> set rs. bytes r) \<subseteq> {..<18446744073709551615}"
  using assms
proof (induction rs)
  case Nil
  then show ?case by simp
next
  case (Cons r rs)
  then have wf: "region_wf r" "regions_wf rs" and gap: "\<forall>s \<in> set rs. rhi r < rlo s" by (simp_all add: regions_wf_Cons)
  have "bytes r \<inter> (\<Union>s \<in> set rs. bytes s) = {}" using gap by (fastforce simp: bytes_def)
  moreover have "finite (\<Union>s \<in> set rs. bytes s)" "finite (bytes r)" by (simp_all add: bytes_def)
  ultimately have "card (bytes r \<union> (\<Union>s \<in> set rs. bytes s)) = unat (mr_size r) + card (\<Union>s \<in> set rs. bytes s)"
    by (subst card_Un_disjoint) (simp_all add: bytes_def)
  with Cons.IH [OF wf(2)] wf(1) show ?case by (auto simp: bytes_def region_wf_def)
qed

lemma unat_sum_list:
  "(\<Sum>x \<leftarrow> xs. unat (f x)) < 18446744073709551616 \<Longrightarrow> unat (\<Sum>x \<leftarrow> xs. f x :: usize) = (\<Sum>x \<leftarrow> xs. unat (f x))"
  by (induction xs) (simp_all add: unat_word_plus)

lemma ra_count_new [simp]: "ra_count region_array_new = 0"
  by (simp add: region_array_new_def)

lemma add_region_new:
  assumes "no_wrap b z" and "z \<noteq> 0"
  shows "\<exists>a. add_region region_array_new b z = Inr a \<and> ra_inv a \<and> covers a = span b z \<and> ra_count a = 1"
proof -
  have nil: "ra_list region_array_new = []" by (simp add: ra_list_def)
  have "\<exists>a. add_region region_array_new b z = Inr a \<and> ra_ok a \<and> length (ra_list a) = 1"
    using add_region_list [OF _ assms(2) refl, of region_array_new b b "PhysAddr (pa_val b + z)" 0] ra_inv_new(1)
    by (auto simp: nil ra_inv_def MAX_REGIONS_def)
  with add_region_cases [OF ra_inv_new(1) assms] show ?thesis
    by (auto simp: MAX_REGIONS_def ra_inv_new)
qed

section \<open>Properties\<close>

text \<open>C18. Adding a region to a well-formed region array (sorted, no empty region, gaps between
  neighbours, no region past the end of the address space) yields a well-formed array that covers
  exactly the old bytes and the new ones, merging every region that overlaps or touches the new
  one. It panics exactly when all 128 slots are used and no existing region can be merged with.\<close>

theorem add_region_union:
  assumes "ra_inv a" and "no_wrap b z"
  shows "if z \<noteq> 0 \<and> ra_count a = MAX_REGIONS \<and> \<not> mergeable a b z
    then add_region a b z = Inl Assert_failed
    else \<exists>a'. add_region a b z = Inr a' \<and> ra_inv a' \<and> covers a' = covers a \<union> span b z"
proof (cases "z = 0")
  case True
  with assms(1) show ?thesis by (simp add: add_region_def)
next
  case False
  with add_region_cases [OF assms] show ?thesis by simp
qed

theorem add_region_union_witness:
  "\<exists>a. add_region region_array_new (PhysAddr 0x80000000) 0x8000000 = Inr a
     \<and> covers a = span (PhysAddr 0x80000000) 0x8000000"
  using add_region_union [of region_array_new "PhysAddr 0x80000000" "0x8000000"]
  by (simp add: ra_inv_new no_wrap_def MAX_REGIONS_def) blast

text \<open>C19. Removing a range from a well-formed region array yields a well-formed array that covers
  exactly the old bytes outside the range, whichever regions are deleted, trimmed or split. It
  panics exactly when the range splits a region in two while all 128 slots are used.\<close>

theorem remove_region_diff:
  assumes "ra_inv a" and "no_wrap b z"
  shows "if z \<noteq> 0 \<and> ra_count a = MAX_REGIONS \<and> punches_hole a b z
    then \<exists>f. remove_region a b z = Inl f
    else \<exists>a'. remove_region a b z = Inr a' \<and> ra_inv a' \<and> covers a' = covers a - span b z"
proof (cases "z = 0")
  case True
  with assms(1) show ?thesis by (simp add: remove_region_def)
next
  case False
  with remove_region_cases [OF assms] show ?thesis by simp
qed

theorem remove_region_diff_witness:
  "\<exists>a a'. add_region region_array_new (PhysAddr 0x80000000) 0x8000000 = Inr a
     \<and> remove_region a (PhysAddr 0x80200000) 0x100000 = Inr a'
     \<and> covers a' = span (PhysAddr 0x80000000) 0x8000000 - span (PhysAddr 0x80200000) 0x100000"
proof -
  obtain a where a: "add_region region_array_new (PhysAddr 0x80000000) 0x8000000 = Inr a" "ra_inv a"
    "covers a = span (PhysAddr 0x80000000) 0x8000000" "ra_count a = 1"
    using add_region_new [of "PhysAddr 0x80000000" "0x8000000"] by (auto simp: no_wrap_def)
  show ?thesis
    using remove_region_diff [OF a(2), of "PhysAddr 0x80200000" "0x100000"] a
    by (simp add: no_wrap_def MAX_REGIONS_def) blast
qed

text \<open>The recorded total size of a well-formed region array is the exact number of bytes it
  covers; the 64-bit sum never wraps.\<close>

theorem total_size_exact:
  assumes "ra_inv a"
  shows "unat (ra_total_size a) = card (covers a)"
proof -
  have wf: "regions_wf (ra_list a)" and t: "ra_total_size a = sum_list (map mr_size (ra_list a))"
    using assms by (simp_all add: ra_inv_def)
  note c = card_regions [OF wf]
  have "card (covers a) \<le> card {..<18446744073709551615::nat}"
    using c by (intro card_mono) (simp_all add: covers_def)
  then have "(\<Sum>r \<leftarrow> ra_list a. unat (mr_size r)) < 18446744073709551616"
    using c by (simp add: covers_def)
  then show ?thesis using c t by (simp add: unat_sum_list covers_def)
qed

theorem total_size_exact_witness:
  "unat (ra_total_size region_array_new) = card (covers region_array_new)"
  by (rule total_size_exact) (rule ra_inv_new)

text \<open>C17. Early allocation is correct. With a sane request and free slots in the arrays it does not
  panic. A returned address is aligned, the block lies inside available memory and is moved from
  the available to the allocated set, and nothing else changes; \<open>None\<close> is returned only when no
  available region contains an aligned block of the requested size, and then nothing changes.\<close>

theorem early_alloc_correct:
  assumes "mb_inv m" and "alloc_request_ok m z k"
    and "ra_count (mb_available m) < MAX_REGIONS" and "ra_count (mb_allocated m) < MAX_REGIONS"
  shows "case early_alloc m z (2 ^ k) of
      Inl _ \<Rightarrow> False
    | Inr (None, m') \<Rightarrow> m' = m \<and>
        (\<forall>r \<in> set (ra_list (mb_available m)). \<not> (\<exists>p. 2 ^ k dvd p \<and> {p ..< p + unat z} \<subseteq> bytes r))
    | Inr (Some p, m') \<Rightarrow> 2 ^ k dvd unat (pa_val p) \<and> span p z \<subseteq> covers (mb_available m)
        \<and> mb_inv m' \<and> covers (mb_available m') = covers (mb_available m) - span p z
        \<and> covers (mb_allocated m') = covers (mb_allocated m) \<union> span p z
        \<and> mb_reserved m' = mb_reserved m"
proof -
  obtain res m' where ret: "early_alloc_loop m z (2 ^ k) (ra_count (mb_available m)) = Inr (res, m')"
    using early_alloc_loop_succeeds [OF assms(1,2) order_refl assms(3,4)] by blast
  note spec = early_alloc_loop_spec [OF assms(1,2) order_refl ret]
  have inv: "ra_inv (mb_available m)" "ra_inv (mb_allocated m)" "ra_inv (mb_reserved m)"
    using assms(1) by (simp_all add: mb_inv_def)
  have z: "0 < unat z" using assms(2) by (simp add: alloc_request_ok_def unat_gt_0)
  show ?thesis
  proof (cases res)
    case None
    with spec have m': "m' = m" and none: "\<And>j p. j < ra_count (mb_available m) \<Longrightarrow> 2 ^ k dvd p \<Longrightarrow>
        rlo (ra_list (mb_available m) ! j) \<le> p \<Longrightarrow> rhi (ra_list (mb_available m) ! j) < p + unat z"
      by simp_all
    have "\<not> {p ..< p + unat z} \<subseteq> bytes r" if "r \<in> set (ra_list (mb_available m))" "2 ^ k dvd p" for r p
    proof
      assume sub: "{p ..< p + unat z} \<subseteq> bytes r"
      with z have r: "rlo r \<le> p" "p + unat z \<le> rhi r" by (simp_all add: bytes_def atLeastLessThan_subset_iff)
      have "length (ra_list (mb_available m)) = ra_count (mb_available m)"
        using inv(1) by (simp add: ra_inv_def)
      with that(1) obtain j where j: "j < ra_count (mb_available m)" "ra_list (mb_available m) ! j = r"
        unfolding in_set_conv_nth by auto
      have "rhi r < p + unat z" by (rule none [OF j(1) that(2), unfolded j(2), OF r(1)])
      with r(2) show False by simp
    qed
    then have nofit: "\<forall>r \<in> set (ra_list (mb_available m)). \<not> (\<exists>p. 2 ^ k dvd p \<and> {p ..< p + unat z} \<subseteq> bytes r)"
      by blast
    have "early_alloc m z (2 ^ k) = Inr (None, m)" using ret None m' by (simp add: early_alloc_def)
    with nofit show ?thesis by simp
  next
    case (Some p)
    with spec have nw: "no_wrap p z" "remove_region (mb_available m) p z = Inr (mb_available m')"
      "add_region (mb_allocated m) p z = Inr (mb_allocated m')" "mb_reserved m' = mb_reserved m" by simp_all
    have "early_alloc m z (2 ^ k) = Inr (Some p, m')" using ret Some by (simp add: early_alloc_def)
    with region_store.transfer [OF inv(1,2) nw(1-3)] Some spec nw(4) inv(3) show ?thesis
      by (simp add: mb_inv_def)
  qed
qed

lemma boot_memblock:
  "\<exists>m. init_add_memory memblock_new (PhysAddr 0x80000000) 0x8000000 = Inr m \<and> mb_inv m
     \<and> covers (mb_available m) = span (PhysAddr 0x80000000) 0x8000000
     \<and> ra_count (mb_available m) = 1 \<and> mb_reserved m = region_array_new \<and> mb_allocated m = region_array_new
     \<and> alloc_request_ok m 4096 12"
proof -
  obtain a where a: "add_region region_array_new (PhysAddr 0x80000000) 0x8000000 = Inr a" "ra_inv a"
    "covers a = span (PhysAddr 0x80000000) 0x8000000" "ra_count a = 1"
    using add_region_new [of "PhysAddr 0x80000000" "0x8000000"] by (auto simp: no_wrap_def)
  have "4096 \<le> rhi r" if "r \<in> set (ra_list a)" for r
  proof -
    have "bytes r \<subseteq> span (PhysAddr 0x80000000) 0x8000000" "bytes r \<noteq> {}"
      using that a(2,3) by (auto simp: covers_def ra_inv_def regions_wf_def region_wf_def bytes_def)
    then have "0x80000000 \<le> rlo r" by (auto simp: bytes_def span_def atLeastLessThan_subset_iff)
    then show ?thesis by simp
  qed
  with a show ?thesis
    by (simp add: init_add_memory_def memblock_new_def mb_inv_def ra_inv_new alloc_request_ok_def)
qed

theorem early_alloc_correct_witness:
  "\<exists>m p m'. init_add_memory memblock_new (PhysAddr 0x80000000) 0x8000000 = Inr m
     \<and> early_alloc m 4096 (2 ^ 12) = Inr (Some p, m') \<and> 2 ^ 12 dvd unat (pa_val p)
     \<and> covers (mb_available m') = span (PhysAddr 0x80000000) 0x8000000 - span p 4096"
proof -
  obtain m where m: "init_add_memory memblock_new (PhysAddr 0x80000000) 0x8000000 = Inr m" "mb_inv m"
    "covers (mb_available m) = span (PhysAddr 0x80000000) 0x8000000" "ra_count (mb_available m) = 1"
    "mb_allocated m = region_array_new" "alloc_request_ok m 4096 12"
    using boot_memblock by blast
  have "length (ra_list (mb_available m)) = 1" using m(2,4) by (simp add: mb_inv_def ra_inv_def)
  then obtain r where r: "ra_list (mb_available m) = [r]" by (cases "ra_list (mb_available m)") auto
  with m(3) have "bytes r = span (PhysAddr 0x80000000) 0x8000000" by (simp add: covers_def)
  then have fit: "{0x80000000 ..< 0x80000000 + unat (4096 :: usize)} \<subseteq> bytes r" by (auto simp: span_def)
  have dv: "(2::nat) ^ 12 dvd 0x80000000" by simp
  have room: "ra_count (mb_available m) < MAX_REGIONS" "ra_count (mb_allocated m) < MAX_REGIONS"
    using m(4,5) by (simp_all add: MAX_REGIONS_def)
  note t = early_alloc_correct [OF m(2,6) room]
  show ?thesis
  proof (cases "early_alloc m 4096 (2 ^ 12)")
    case (Inl f)
    with t show ?thesis by simp
  next
    case (Inr x)
    obtain q m' where x: "x = (q, m')" by (cases x)
    show ?thesis
    proof (cases q)
      case None
      with t Inr x r have "\<not> (\<exists>p. 2 ^ 12 dvd p \<and> {p ..< p + unat (4096 :: usize)} \<subseteq> bytes r)" by simp
      with fit dv show ?thesis by blast
    next
      case (Some p)
      with t Inr x have "2 ^ 12 dvd unat (pa_val p)" "early_alloc m 4096 (2 ^ 12) = Inr (Some p, m')"
        "covers (mb_available m') = covers (mb_available m) - span p 4096" by simp_all
      with m(1,3) show ?thesis by auto
    qed
  qed
qed

text \<open>C7. In every state the boot sequence can reach from declaring RAM by reserving ranges and
  allocating early, available memory is inside RAM and disjoint from everything reserved or
  allocated, allocated memory is inside RAM, no byte of RAM is lost, and the three arrays are
  well-formed. Consequently a further allocation never overlaps an earlier one or a reservation.\<close>

theorem memblock_reach_safe:
  assumes "memblock_reach b z m"
  shows "mb_safe b z m \<and>
    (\<forall>s k p m'. alloc_request_ok m s k \<longrightarrow> early_alloc m s (2 ^ k) = Inr (Some p, m') \<longrightarrow>
       span p s \<subseteq> span b z \<and> span p s \<inter> (covers (mb_reserved m) \<union> covers (mb_allocated m)) = {}
       \<and> span p s \<subseteq> covers (mb_allocated m') \<and> mb_safe b z m')"
proof (intro conjI allI impI)
  show safe: "mb_safe b z m" using assms by (rule reach_mb_safe)
  fix s k p m'
  assume req: "alloc_request_ok m s k" and ret: "early_alloc m s (2 ^ k) = Inr (Some p, m')"
  have inv: "mb_inv m" using safe by (simp add: mb_safe_def)
  from early_alloc_loop_spec [OF inv req order_refl ret [unfolded early_alloc_def]]
  have sp: "span p s \<subseteq> covers (mb_available m)" "no_wrap p s"
    "add_region (mb_allocated m) p s = Inr (mb_allocated m')" by simp_all
  from region_store.add_cover [OF _ sp(2,3)] inv
  have "span p s \<subseteq> covers (mb_allocated m')" by (simp add: mb_inv_def)
  with sp(1) safe mb_safe_alloc [OF safe req ret]
  show "span p s \<subseteq> span b z" and "span p s \<inter> (covers (mb_reserved m) \<union> covers (mb_allocated m)) = {}"
    and "span p s \<subseteq> covers (mb_allocated m')" and "mb_safe b z m'"
    by (auto simp: mb_safe_def)
qed

theorem memblock_reach_safe_witness:
  "\<exists>m. memblock_reach (PhysAddr 0x80000000) 0x8000000 m \<and> mb_safe (PhysAddr 0x80000000) 0x8000000 m"
proof -
  obtain m where "init_add_memory memblock_new (PhysAddr 0x80000000) 0x8000000 = Inr m"
    using boot_memblock by blast
  then have r: "memblock_reach (PhysAddr 0x80000000) 0x8000000 m"
    by (intro memblock_reach.init) (simp_all add: no_wrap_def)
  with memblock_reach_safe [OF r] show ?thesis by blast
qed

section \<open>Unchecked subtraction\<close>



end
