(* ===== verification/Buddy.thy ===== *)
theory Buddy
  imports Address "HOL-Library.Disjoint_Sets" "HOL-Library.Multiset"
begin

text \<open>
  The buddy frame allocator of \<open>src/mm/buddy.rs\<close>. Sixteen free lists, one per order, are linked
  through the first 8-byte cell of each free block; \<open>Option<NonNull<ListNode>>\<close> is stored as the
  pointer or 0. The operations below run on the head array and the memory; the lemmas relate
  them to an abstract state (sixteen lists of block addresses) and from there to the set of free
  page numbers. The contract for clients is the locale \<open>page_allocator\<close>.
\<close>

definition MAX_ORDER :: nat where "MAX_ORDER = 16"

definition decode_ptr :: "usize \<Rightarrow> usize option" where
  "decode_ptr w = (if w = 0 then None else Some w)"

definition encode_ptr :: "usize option \<Rightarrow> usize" where
  "encode_ptr p = (case p of None \<Rightarrow> 0 | Some w \<Rightarrow> w)"

record buddy =
  free_lists :: "usize option list"

type_synonym buddy_state = "buddy \<times> memory"

definition buddy_new :: buddy where
  "buddy_new = \<lparr>free_lists = replicate MAX_ORDER None\<rparr>"

definition pages_to_order :: "usize \<Rightarrow> nat" where
  "pages_to_order pages = trailing_zeros (next_power_of_two pages)"

definition add_free_block :: "buddy_state \<Rightarrow> usize \<Rightarrow> nat \<Rightarrow> buddy_state res" where
  "add_free_block s phys_addr order = (case s of (b, m) \<Rightarrow>
     if order \<ge> MAX_ORDER
     then Inl (Panicked ''Requested size is too large for buddy system allocator'')
     else rbind (index (free_lists b) order) (\<lambda>old_head.
       let m' = store m (phys_to_virt phys_addr) (encode_ptr old_head) in
       require (phys_addr \<noteq> 0) Undefined_behaviour
         (Inr (b\<lparr>free_lists := (free_lists b)[order := Some phys_addr]\<rparr>, m'))))"

text \<open>
  The loop that looks for a block behind the head of a list follows pointers in memory, so it
  may run forever on a cyclic list; that outcome is the value \<open>None\<close>.
\<close>

partial_function (option) unlink_loop :: "memory \<Rightarrow> usize \<Rightarrow> usize \<Rightarrow> (bool \<times> memory) option" where
  "unlink_loop m current target =
     (case decode_ptr (load m (phys_to_virt current)) of
        None \<Rightarrow> Some (False, m)
      | Some next_node \<Rightarrow>
          if next_node = target
          then (let after = load m (phys_to_virt next_node);
                    m1 = store m (phys_to_virt next_node) 0
                in Some (True, store m1 (phys_to_virt current) after))
          else unlink_loop m next_node target)"

definition try_remove_from_list :: "buddy_state \<Rightarrow> usize \<Rightarrow> nat \<Rightarrow> (bool \<times> buddy_state) res" where
  "try_remove_from_list s phys_addr order = (case s of (b, m) \<Rightarrow>
     rbind (index (free_lists b) order) (\<lambda>head. case head of
         None \<Rightarrow> Inr (False, s)
       | Some list_head \<Rightarrow>
           if list_head = phys_addr
           then (let after = decode_ptr (load m (phys_to_virt list_head));
                     m' = store m (phys_to_virt list_head) 0
                 in Inr (True, (b\<lparr>free_lists := (free_lists b)[order := after]\<rparr>, m')))
           else (case unlink_loop m list_head phys_addr of
                   None \<Rightarrow> Inl Diverges
                 | Some (found, m') \<Rightarrow> Inr (found, (b, m')))))"

fun split_loop :: "buddy_state \<Rightarrow> usize \<Rightarrow> nat \<Rightarrow> nat \<Rightarrow> buddy_state res" where
  "split_loop s block_addr required_order 0 = Inr s"
| "split_loop s block_addr required_order (Suc current) =
     (if Suc current > required_order
      then (let current_block_size = shl 1 (Suc current + PAGE_SIZE_BITS);
                buddy_block_size = current_block_size div 2;
                buddy_addr = block_addr + buddy_block_size
            in rbind (add_free_block s buddy_addr current)
                 (\<lambda>s'. split_loop s' block_addr required_order current))
      else Inr s)"

function alloc_loop :: "buddy_state \<Rightarrow> nat \<Rightarrow> nat \<Rightarrow> (phys_page_num option \<times> buddy_state) res" where
  "alloc_loop s required_order order =
     (if order < MAX_ORDER
      then (case s of (b, m) \<Rightarrow>
        rbind (index (free_lists b) order) (\<lambda>head. case head of
            Some block_pa \<Rightarrow>
              (let after = decode_ptr (load m (phys_to_virt block_pa));
                   m' = store m (phys_to_virt block_pa) 0;
                   b' = b\<lparr>free_lists := (free_lists b)[order := after]\<rparr>
               in rbind (split_loop (b', m') block_pa required_order order) (\<lambda>s'.
                  rbind (ppn_from_pa (PhysAddr block_pa)) (\<lambda>ppn. Inr (Some ppn, s'))))
          | None \<Rightarrow> alloc_loop s required_order (order + 1)))
      else Inr (None, s))"
  by pat_completeness auto
termination
  by (relation "measure (\<lambda>(s, r, order). MAX_ORDER - order)") auto

definition buddy_alloc :: "buddy_state \<Rightarrow> usize \<Rightarrow> (phys_page_num option \<times> buddy_state) res" where
  "buddy_alloc s pages =
     (let required_order = pages_to_order pages in
      if required_order \<ge> MAX_ORDER then Inr (None, s)
      else alloc_loop s required_order required_order)"

function coalesce_loop :: "buddy_state \<Rightarrow> usize \<Rightarrow> usize \<Rightarrow> nat \<Rightarrow> (usize \<times> nat \<times> buddy_state) res" where
  "coalesce_loop s block_addr block_size current_order =
     (if current_order < MAX_ORDER - 1
      then (let buddy_addr = block_addr XOR block_size in
        case try_remove_from_list s buddy_addr current_order of
          Inl f \<Rightarrow> Inl f
        | Inr (True, s') \<Rightarrow> coalesce_loop s' (min block_addr buddy_addr) (block_size * 2) (current_order + 1)
        | Inr (False, s') \<Rightarrow> Inr (block_addr, current_order, s'))
      else Inr (block_addr, current_order, s))"
  by pat_completeness auto
termination
  by (relation "measure (\<lambda>(s, a, z, order). MAX_ORDER - order)") auto

definition buddy_dealloc :: "buddy_state \<Rightarrow> phys_page_num \<Rightarrow> usize \<Rightarrow> buddy_state res" where
  "buddy_dealloc s ppn pages =
     (let order = pages_to_order pages;
          block_size = shl 1 (order + PAGE_SIZE_BITS);
          block_addr = pa_val (pa_from_ppn ppn)
      in rbind (coalesce_loop s block_addr block_size order) (\<lambda>(addr, current_order, s').
           add_free_block s' addr current_order))"

definition region_order :: "usize \<Rightarrow> usize \<Rightarrow> nat" where
  "region_order current_ppn end_ppn =
     (let remaining_pages = end_ppn - current_ppn;
          max_order_by_remaining = ilog2 remaining_pages;
          max_order_by_alignment =
            (if current_ppn = 0 then MAX_ORDER - 1 else min (trailing_zeros current_ppn) (MAX_ORDER - 1))
      in min (min max_order_by_remaining max_order_by_alignment) (MAX_ORDER - 1))"

text \<open>
  The loop of \<open>add_free_region\<close> advances by a block of at least one page, but the addition may
  wrap in the release profile, so termination is not immediate; \<open>None\<close> stands for a loop that
  does not end.
\<close>

partial_function (option) add_region_loop ::
  "buddy_state \<Rightarrow> usize \<Rightarrow> usize \<Rightarrow> (buddy_state res) option" where
  "add_region_loop s current_ppn end_ppn =
     (if current_ppn < end_ppn
      then (let order = region_order current_ppn end_ppn;
                block_pages = shl 1 order;
                block_addr = pa_val (pa_from_ppn (PhysPageNum current_ppn))
            in case add_free_block s block_addr order of
                 Inl f \<Rightarrow> Some (Inl f)
               | Inr s' \<Rightarrow> add_region_loop s' (current_ppn + block_pages) end_ppn)
      else Some (Inr s))"

definition add_free_region :: "buddy_state \<Rightarrow> usize \<Rightarrow> usize \<Rightarrow> buddy_state res" where
  "add_free_region s align_start_ppn align_end_ppn =
     (if align_start_ppn \<ge> align_end_ppn then Inr s
      else case add_region_loop s align_start_ppn align_end_ppn of
             None \<Rightarrow> Inl Diverges
           | Some r \<Rightarrow> r)"

declare alloc_loop.simps [simp del] coalesce_loop.simps [simp del]
declare add_region_loop.simps [code] unlink_loop.simps [code]


section \<open>Lists in memory\<close>

text \<open>\<open>hlist m p xs\<close>: the list starting at the optional pointer \<open>p\<close> consists of the nodes \<open>xs\<close>.\<close>

fun hlist :: "memory \<Rightarrow> usize option \<Rightarrow> usize list \<Rightarrow> bool" where
  "hlist m p [] \<longleftrightarrow> p = None"
| "hlist m p (x # xs) \<longleftrightarrow> p = Some x \<and> x \<noteq> 0 \<and> hlist m (decode_ptr (m x)) xs"

lemma decode_encode_ptr: "p \<noteq> Some 0 \<Longrightarrow> decode_ptr (encode_ptr p) = p"
  by (auto simp: decode_ptr_def encode_ptr_def split: option.splits)

lemma decode_ptr_Some [simp]: "decode_ptr w = Some x \<longleftrightarrow> w = x \<and> x \<noteq> 0"
  by (auto simp: decode_ptr_def)

lemma decode_ptr_None [simp]: "decode_ptr w = None \<longleftrightarrow> w = 0"
  by (auto simp: decode_ptr_def)

lemma decode_ptr_0 [simp]: "decode_ptr 0 = None"
  by simp

lemma decode_ptr_nonzero [simp]: "x \<noteq> 0 \<Longrightarrow> decode_ptr x = Some x"
  by simp

lemma hlist_neq_0: "hlist m p xs \<Longrightarrow> p \<noteq> Some 0"
  by (cases xs) auto

lemma hlist_frame: "hlist m p xs \<Longrightarrow> (\<And>x. x \<in> set xs \<Longrightarrow> m' x = m x) \<Longrightarrow> hlist m' p xs"
  by (induction xs arbitrary: p) auto

lemma hlist_update [simp]: "x \<notin> set xs \<Longrightarrow> hlist (m(x := v)) p xs \<longleftrightarrow> hlist m p xs"
  by (induction xs arbitrary: p) auto

lemma hlist_None: "hlist m None xs \<longleftrightarrow> xs = []"
  by (cases xs) auto

lemma hlist_Some: "hlist m (Some x) xs \<longleftrightarrow> (\<exists>ys. xs = x # ys \<and> x \<noteq> 0 \<and> hlist m (decode_ptr (m x)) ys)"
  by (cases xs) auto

text \<open>
  The search loop terminates on every list that is properly linked, and unlinks exactly the
  wanted node.
\<close>

lemma unlink_loop_hlist:
  assumes "hlist m (Some c) (c # xs)" and "distinct (c # xs)" and "t \<noteq> c"
  shows "\<exists>m'. unlink_loop m c t = Some (t \<in> set xs, m') \<and> hlist m' (Some c) (c # remove1 t xs)
    \<and> (\<forall>x. x \<notin> set (c # xs) \<longrightarrow> m' x = m x)"
  using assms
proof (induction xs arbitrary: c)
  case Nil
  then show ?case by (subst unlink_loop.simps) simp
next
  case (Cons y ys)
  have dec: "decode_ptr (m c) = Some y" and y: "y \<noteq> 0" and tl: "hlist m (Some y) (y # ys)"
    using Cons.prems(1) by simp_all
  show ?case
  proof (cases "y = t")
    case True
    have "hlist (m(t := 0, c := m t)) (Some c) (c # ys)"
      using Cons.prems True by auto
    then show ?thesis
      using True dec Cons.prems by (subst unlink_loop.simps) (simp add: Let_def)
  next
    case False
    have "unlink_loop m c t = unlink_loop m y t"
      using dec False by (subst unlink_loop.simps) simp
    moreover obtain m' where m': "unlink_loop m y t = Some (t \<in> set ys, m')"
      "hlist m' (Some y) (y # remove1 t ys)" "\<forall>x. x \<notin> set (y # ys) \<longrightarrow> m' x = m x"
      using Cons.IH [OF tl] Cons.prems(2) False by auto
    moreover have "m' c = m c" using m'(3) Cons.prems(2) by auto
    ultimately show ?thesis using False dec Cons.prems y by auto
  qed
qed

section \<open>Abstract free lists\<close>

text \<open>
  A block of order \<open>k\<close> at address \<open>a\<close> is well-formed when it is aligned to its size, does not
  start at address 0 and does not wrap; \<open>pages a k\<close> are its page numbers. The abstract state is
  a list of sixteen lists of addresses.
\<close>

type_synonym blocks = "usize list list"

definition pages :: "usize \<Rightarrow> nat \<Rightarrow> nat set" where
  "pages a k = {unat a div 4096 ..< unat a div 4096 + 2 ^ k}"

definition block_wf :: "usize \<Rightarrow> nat \<Rightarrow> bool" where
  "block_wf a k \<longleftrightarrow> a \<noteq> 0 \<and> k < MAX_ORDER \<and> 2 ^ (k + 12) dvd unat a \<and> unat a + 2 ^ (k + 12) \<le> 2 ^ 64"

definition block_set :: "blocks \<Rightarrow> (usize \<times> nat) set" where
  "block_set fl = {(a, k). k < length fl \<and> a \<in> set (fl ! k)}"

definition free_pages :: "blocks \<Rightarrow> nat set" where
  "free_pages fl = (\<Union>(a, k) \<in> block_set fl. pages a k)"

definition blocks_wf :: "blocks \<Rightarrow> bool" where
  "blocks_wf fl \<longleftrightarrow> length fl = MAX_ORDER \<and> (\<forall>k < MAX_ORDER. distinct (fl ! k))
     \<and> (\<forall>(a, k) \<in> block_set fl. block_wf a k)
     \<and> disjoint_family_on (\<lambda>(a, k). pages a k) (block_set fl)"

definition linked :: "buddy_state \<Rightarrow> blocks \<Rightarrow> bool" where
  "linked s fl \<longleftrightarrow> length (free_lists (fst s)) = MAX_ORDER \<and> length fl = MAX_ORDER
     \<and> (\<forall>k < MAX_ORDER. hlist (snd s) (free_lists (fst s) ! k) (fl ! k))"

definition push_block :: "blocks \<Rightarrow> usize \<Rightarrow> nat \<Rightarrow> blocks" where
  "push_block fl a k = fl[k := a # fl ! k]"

definition drop_block :: "blocks \<Rightarrow> usize \<Rightarrow> nat \<Rightarrow> blocks" where
  "drop_block fl a k = fl[k := remove1 a (fl ! k)]"

lemma length_push_drop [simp]:
  "length (push_block fl a k) = length fl" "length (drop_block fl a k) = length fl"
  by (simp_all add: push_block_def drop_block_def)

lemma block_set_push: "k < length fl \<Longrightarrow> block_set (push_block fl a k) = insert (a, k) (block_set fl)"
  by (auto simp: block_set_def push_block_def nth_list_update split: if_splits)

lemma block_set_drop:
  "k < length fl \<Longrightarrow> distinct (fl ! k) \<Longrightarrow> block_set (drop_block fl a k) = block_set fl - {(a, k)}"
  by (auto simp: block_set_def drop_block_def nth_list_update split: if_splits)

lemma page_in_pages [simp]: "unat a div 4096 \<in> pages a k"
  by (simp add: pages_def)

lemma blocks_wf_block: "blocks_wf fl \<Longrightarrow> (a, k) \<in> block_set fl \<Longrightarrow> block_wf a k"
  by (auto simp: blocks_wf_def)

lemma blocks_wf_disjoint:
  "blocks_wf fl \<Longrightarrow> (a, k) \<in> block_set fl \<Longrightarrow> (b, j) \<in> block_set fl \<Longrightarrow> (a, k) \<noteq> (b, j) \<Longrightarrow> pages a k \<inter> pages b j = {}"
  unfolding blocks_wf_def disjoint_family_on_def by fastforce

lemma blocks_wf_addr_order: "blocks_wf fl \<Longrightarrow> (a, k) \<in> block_set fl \<Longrightarrow> (a, j) \<in> block_set fl \<Longrightarrow> k = j"
  using blocks_wf_disjoint [of fl a k a j] page_in_pages by blast

lemma free_pages_push: "k < length fl \<Longrightarrow> free_pages (push_block fl a k) = free_pages fl \<union> pages a k"
  by (auto simp: free_pages_def block_set_push)

lemma blocks_wf_push:
  assumes "blocks_wf fl" and "block_wf a k" and "pages a k \<inter> free_pages fl = {}"
  shows "blocks_wf (push_block fl a k)"
proof -
  have k: "k < length fl" using assms by (simp add: blocks_wf_def block_wf_def)
  have new: "a \<notin> set (fl ! k)"
    using assms(3) k page_in_pages by (fastforce simp: free_pages_def block_set_def)
  have "disjoint_family_on (\<lambda>(a, k). pages a k) (insert (a, k) (block_set fl))"
    using assms(1,3) by (auto simp: blocks_wf_def disjoint_family_on_def free_pages_def)
  moreover have "\<forall>j < MAX_ORDER. distinct (push_block fl a k ! j)"
    using assms(1) new k by (auto simp: push_block_def nth_list_update blocks_wf_def)
  ultimately show ?thesis
    using assms(1,2) k by (auto simp: blocks_wf_def block_set_push)
qed

lemma drop_block_facts:
  assumes "blocks_wf fl" and "(a, k) \<in> block_set fl"
  shows "blocks_wf (drop_block fl a k)"
    and "free_pages (drop_block fl a k) = free_pages fl - pages a k"
    and "pages a k \<subseteq> free_pages fl"
proof -
  have k: "k < length fl" "distinct (fl ! k)" using assms by (auto simp: blocks_wf_def block_set_def)
  note bs = block_set_drop [OF k, of a]
  have "\<forall>j < MAX_ORDER. distinct (drop_block fl a k ! j)"
    using assms(1) k by (auto simp: drop_block_def nth_list_update blocks_wf_def)
  then show "blocks_wf (drop_block fl a k)"
    using assms(1) by (auto simp: blocks_wf_def bs disjoint_family_on_def)
  show "free_pages (drop_block fl a k) = free_pages fl - pages a k"
    using blocks_wf_disjoint [OF assms] by (fastforce simp: free_pages_def bs)
  show "pages a k \<subseteq> free_pages fl" using assms(2) by (auto simp: free_pages_def)
qed

section \<open>The list operations on the heap\<close>

definition buddy_inv :: "buddy_state \<Rightarrow> blocks \<Rightarrow> bool" where
  "buddy_inv s fl \<longleftrightarrow> linked s fl \<and> blocks_wf fl"

text \<open>Memory outside the pages \<open>F\<close> is unchanged.\<close>

definition untouched :: "nat set \<Rightarrow> memory \<Rightarrow> memory \<Rightarrow> bool" where
  "untouched F m m' \<longleftrightarrow> (\<forall>x. unat x div 4096 \<notin> F \<longrightarrow> m' x = m x)"

lemma untouched_refl [simp]: "untouched F m m"
  by (simp add: untouched_def)

lemma untouched_trans: "untouched F m m1 \<Longrightarrow> untouched G m1 m2 \<Longrightarrow> F \<subseteq> H \<Longrightarrow> G \<subseteq> H \<Longrightarrow> untouched H m m2"
  unfolding untouched_def by (metis subsetD)

lemma untouched_upd: "unat x div 4096 \<in> F \<Longrightarrow> untouched F m (m(x := v))"
  by (auto simp: untouched_def)

lemma linked_update:
  assumes "linked (b, m) fl" and "k < MAX_ORDER" and "hlist m' p xs"
    and "\<And>j x. j < MAX_ORDER \<Longrightarrow> j \<noteq> k \<Longrightarrow> x \<in> set (fl ! j) \<Longrightarrow> m' x = m x"
  shows "linked (b\<lparr>free_lists := (free_lists b)[k := p]\<rparr>, m') (fl[k := xs])"
  using assms by (auto simp: linked_def nth_list_update intro: hlist_frame)

lemma block_set_mem: "linked s fl \<Longrightarrow> k < MAX_ORDER \<Longrightarrow> (a, k) \<in> block_set fl \<longleftrightarrow> a \<in> set (fl ! k)"
  by (simp add: block_set_def linked_def)

lemma buddy_inv_other:
  assumes "buddy_inv s fl" and "j < MAX_ORDER" and "k < MAX_ORDER" and "j \<noteq> k" and "x \<in> set (fl ! j)"
  shows "x \<notin> set (fl ! k)"
  using assms blocks_wf_addr_order [of fl x j k] by (auto simp: buddy_inv_def block_set_mem)

lemma add_free_block_ok:
  assumes "buddy_inv s fl" and "block_wf a k" and "pages a k \<inter> free_pages fl = {}"
  shows "\<exists>s'. add_free_block s a k = Inr s' \<and> buddy_inv s' (push_block fl a k)
    \<and> untouched (pages a k) (snd s) (snd s')"
proof -
  obtain b m where s: "s = (b, m)" by (cases s)
  have l: "linked (b, m) fl" and w: "blocks_wf fl" using assms(1) s by (simp_all add: buddy_inv_def)
  have k: "k < MAX_ORDER" "k < length (free_lists b)" "a \<noteq> 0" "k < length fl"
    using assms(2) l by (simp_all add: block_wf_def linked_def)
  have new: "a \<notin> set (fl ! j)" if "j < MAX_ORDER" for j
  proof
    assume "a \<in> set (fl ! j)"
    then have "pages a j \<subseteq> free_pages fl" using l that by (intro drop_block_facts(3) [OF w]) (simp add: block_set_mem)
    with assms(3) page_in_pages show False by blast
  qed
  let ?m = "m(a := encode_ptr (free_lists b ! k))"
  have h: "hlist m (free_lists b ! k) (fl ! k)" using l k by (simp add: linked_def)
  have "hlist ?m (Some a) (a # fl ! k)"
    using new [OF k(1)] h k hlist_neq_0 [OF h] by (simp add: decode_encode_ptr)
  then have "linked (b\<lparr>free_lists := (free_lists b)[k := Some a]\<rparr>, ?m) (push_block fl a k)"
    unfolding push_block_def using new by (intro linked_update [OF l k(1)]) auto
  moreover have "add_free_block s a k = Inr (b\<lparr>free_lists := (free_lists b)[k := Some a]\<rparr>, ?m)"
    using k by (simp add: add_free_block_def s index_in_range)
  ultimately show ?thesis
    using blocks_wf_push [OF w assms(2,3)] s by (simp add: buddy_inv_def untouched_upd)
qed

lemma take_head_ok:
  assumes "buddy_inv (b, m) fl" and "k < MAX_ORDER" and "free_lists b ! k = Some a"
  shows "(a, k) \<in> block_set fl"
    and "buddy_inv (b\<lparr>free_lists := (free_lists b)[k := decode_ptr (m a)]\<rparr>, m(a := 0)) (drop_block fl a k)"
proof -
  have l: "linked (b, m) fl" and w: "blocks_wf fl" using assms(1) by (simp_all add: buddy_inv_def)
  have "hlist m (Some a) (fl ! k)" using l assms(2,3) by (auto simp: linked_def)
  then obtain ys where ys: "fl ! k = a # ys" "hlist m (decode_ptr (m a)) ys" by (auto simp: hlist_Some)
  then show mem: "(a, k) \<in> block_set fl" using l assms(2) by (simp add: block_set_mem)
  have "a \<notin> set ys" using w assms(2) ys by (auto simp: blocks_wf_def)
  then have h: "hlist (m(a := 0)) (decode_ptr (m a)) ys" using ys by simp
  have fr: "(m(a := 0)) x = m x" if "j < MAX_ORDER" "j \<noteq> k" "x \<in> set (fl ! j)" for j x
    using buddy_inv_other [OF assms(1) that(1) assms(2) that(2,3)] ys by auto
  have "linked (b\<lparr>free_lists := (free_lists b)[k := decode_ptr (m a)]\<rparr>, m(a := 0)) (fl[k := ys])"
    by (rule linked_update [OF l assms(2) h]) (rule fr)
  then show
    "buddy_inv (b\<lparr>free_lists := (free_lists b)[k := decode_ptr (m a)]\<rparr>, m(a := 0)) (drop_block fl a k)"
    using drop_block_facts(1) [OF w mem] ys by (simp add: buddy_inv_def drop_block_def)
qed

lemma drop_block_id: "(a, k) \<notin> block_set fl \<Longrightarrow> k < length fl \<Longrightarrow> drop_block fl a k = fl"
  by (simp add: block_set_def drop_block_def remove1_idem)

lemma member_page_free: "buddy_inv s fl \<Longrightarrow> k < MAX_ORDER \<Longrightarrow> x \<in> set (fl ! k) \<Longrightarrow> unat x div 4096 \<in> free_pages fl"
  by (meson block_set_mem buddy_inv_def drop_block_facts(3) page_in_pages subsetD)

lemma try_remove_ok:
  assumes "buddy_inv s fl" and "k < MAX_ORDER"
  shows "\<exists>s'. try_remove_from_list s a k = Inr ((a, k) \<in> block_set fl, s')
    \<and> buddy_inv s' (drop_block fl a k) \<and> untouched (free_pages fl) (snd s) (snd s')"
proof -
  obtain b m where s: "s = (b, m)" by (cases s)
  have l: "linked (b, m) fl" and w: "blocks_wf fl" using assms(1) s by (simp_all add: buddy_inv_def)
  have k: "k < length (free_lists b)" "k < length fl" using l assms(2) by (simp_all add: linked_def)
  have h: "hlist m (free_lists b ! k) (fl ! k)" using l assms(2) by (simp add: linked_def)
  have mem: "(a, k) \<in> block_set fl \<longleftrightarrow> a \<in> set (fl ! k)" using l assms(2) by (simp add: block_set_mem)
  show ?thesis
  proof (cases "free_lists b ! k")
    case None
    with h have "fl ! k = []" by (simp add: hlist_None)
    with mem None k assms(1) s show ?thesis
      by (simp add: try_remove_from_list_def index_in_range drop_block_id)
  next
    case (Some c)
    with h obtain ys where ys: "fl ! k = c # ys" by (auto simp: hlist_Some)
    show ?thesis
    proof (cases "c = a")
      case True
      then show ?thesis
        using take_head_ok [OF assms(1) [unfolded s] assms(2)] Some k s
          member_page_free [OF assms, of a] mem ys
        by (simp add: try_remove_from_list_def index_in_range Let_def untouched_upd)
    next
      case False
      have "distinct (c # ys)" using w assms(2) ys by (auto simp: blocks_wf_def)
      then obtain m' where m': "unlink_loop m c a = Some (a \<in> set ys, m')"
        "hlist m' (Some c) (c # remove1 a ys)" "\<forall>x. x \<notin> set (c # ys) \<longrightarrow> m' x = m x"
        using unlink_loop_hlist [of m c ys a] h Some ys False by auto
      have fr: "m' x = m x" if "j < MAX_ORDER" "j \<noteq> k" "x \<in> set (fl ! j)" for j x
        using buddy_inv_other [OF assms(1) that(1) assms(2) that(2,3)] ys m'(3) by simp
      have "linked (b\<lparr>free_lists := (free_lists b)[k := Some c]\<rparr>, m') (fl[k := c # remove1 a ys])"
        by (rule linked_update [OF l assms(2) m'(2)]) (rule fr)
      moreover have "(free_lists b)[k := Some c] = free_lists b" using Some by (metis list_update_id)
      ultimately have "linked (b, m') (drop_block fl a k)"
        using ys False by (simp add: drop_block_def)
      moreover have "blocks_wf (drop_block fl a k)"
        using drop_block_facts(1) [OF w] drop_block_id k w by (cases "(a, k) \<in> block_set fl") simp_all
      moreover have "untouched (free_pages fl) m m'"
        using m'(3) member_page_free [OF assms] ys unfolding untouched_def by metis
      ultimately show ?thesis
        using m'(1) Some s False k mem ys
        by (simp add: try_remove_from_list_def index_in_range buddy_inv_def)
    qed
  qed
qed

section \<open>Buddies\<close>

abbreviation buddy_of :: "usize \<Rightarrow> nat \<Rightarrow> usize" where
  "buddy_of a k \<equiv> a XOR 2 ^ (k + 12)"

lemma block_size_word: "k < MAX_ORDER \<Longrightarrow> shl 1 (k + PAGE_SIZE_BITS) = 2 ^ (k + 12)"
  by (simp add: shl_def push_bit_one PAGE_SIZE_BITS_def MAX_ORDER_def)

lemma unat_block_size: "k < MAX_ORDER \<Longrightarrow> unat ((2 :: usize) ^ (k + 12)) = 2 ^ (k + 12)"
  by (simp add: unat_pow2 MAX_ORDER_def)

lemma half_block:
  assumes "Suc k < MAX_ORDER"
  shows "shl 1 (Suc k + PAGE_SIZE_BITS) div 2 = 2 ^ (k + 12)"
proof -
  have "unat (shl 1 (Suc k + PAGE_SIZE_BITS) div 2) = unat ((2 :: usize) ^ (k + 12))"
    unfolding block_size_word [OF assms] unat_div using assms
    by (simp only: unat_block_size Suc_lessD) (simp add: power_add)
  then show ?thesis by (simp only: word_unat_eq_iff)
qed

lemma pages_alt: "block_wf a k \<Longrightarrow> unat a = unat a div 4096 * 4096 \<and> 2 ^ k dvd unat a div 4096"
proof -
  assume "block_wf a k"
  then obtain q where q: "unat a = 2 ^ (k + 12) * q" by (auto simp: block_wf_def)
  then have "unat a = (2 ^ k * q) * 4096" by (simp add: power_add)
  then show ?thesis by simp
qed

lemma block_wf_halves:
  assumes "block_wf a (Suc k)"
  shows "unat (a + 2 ^ (k + 12)) = unat a + 2 ^ (k + 12)"
    and "block_wf a k" and "block_wf (a + 2 ^ (k + 12)) k"
    and "pages a (Suc k) = pages a k \<union> pages (a + 2 ^ (k + 12)) k"
    and "pages a k \<inter> pages (a + 2 ^ (k + 12)) k = {}"
proof -
  let ?h = "a + 2 ^ (k + 12)"
  have k: "Suc k < MAX_ORDER" "a \<noteq> 0" and al: "2 ^ (Suc k + 12) dvd unat a"
    and le: "unat a + 2 ^ (k + 12) + 2 ^ (k + 12) \<le> 2 ^ 64" using assms by (simp_all add: block_wf_def power_add)
  note sz = unat_block_size [OF Suc_lessD [OF k(1)]]
  have "unat a + unat ((2 :: usize) ^ (k + 12)) < 18446744073709551616"
    unfolding sz using le [simplified] zero_less_power [of "2::nat" "k + 12", OF zero_less_numeral] by linarith
  from unat_word_plus [OF this] show h: "unat ?h = unat a + 2 ^ (k + 12)" by (simp only: sz)
  have al': "2 ^ (k + 12) dvd unat a" using al by (rule dvd_trans [rotated]) (simp add: le_imp_power_dvd)
  show wa: "block_wf a k" using k al' le by (simp add: block_wf_def)
  have "unat ?h \<noteq> 0" using h by simp
  then have "?h \<noteq> 0" by (metis unsigned_0)
  then show "block_wf ?h k" using k al' le h by (simp add: block_wf_def)
  have d: "unat ?h div 4096 = unat a div 4096 + 2 ^ k"
  proof -
    have "unat ?h = (unat a div 4096 + 2 ^ k) * 4096"
      using h pages_alt [OF wa] by (simp add: power_add add_mult_distrib)
    then show ?thesis by simp
  qed
  then show "pages a (Suc k) = pages a k \<union> pages ?h k" "pages a k \<inter> pages ?h k = {}"
    by (auto simp: pages_def)
qed

lemma buddy_cases:
  assumes "block_wf a k"
  shows "2 ^ (k + 13) dvd unat a \<and> buddy_of a k = a + 2 ^ (k + 12)
    \<or> 2 ^ (k + 13) dvd unat (buddy_of a k) \<and> a = buddy_of a k + 2 ^ (k + 12) \<and> unat (buddy_of a k) = unat a - 2 ^ (k + 12)"
proof -
  let ?s = "2 ^ (k + 12) :: usize"
  have k: "k + 12 < 64" using assms by (simp add: block_wf_def MAX_ORDER_def)
  have al: "2 ^ (k + 12) dvd unat a" using assms by (simp add: block_wf_def)
  have bs: "bit ?s n \<longleftrightarrow> n = k + 12" for n using k by (auto simp: bit_simps)
  have odd: "bit a (k + 12) \<longleftrightarrow> odd (unat a div 2 ^ (k + 12))"
  proof -
    have "bit a (k + 12) \<longleftrightarrow> bit (unat a) (k + 12)" by (simp add: bit_unsigned_iff)
    then show ?thesis by (simp only: bit_iff_odd [of "unat a"])
  qed
  show ?thesis
  proof (cases "bit a (k + 12)")
    case False
    then have "even (unat a div 2 ^ (k + 12))" using odd by simp
    then have "2 ^ (k + 13) dvd unat a"
      using al by (auto elim!: dvdE evenE simp: power_add)
    moreover have "a XOR ?s = a OR ?s" using False by (intro bit_word_eqI) (auto simp: bit_simps bs)
    moreover have "a + ?s = a OR ?s" using False bs by (intro disjunctive_add) auto
    ultimately show ?thesis by simp
  next
    case True
    have "buddy_of a k + ?s = buddy_of a k OR ?s"
      using True bs by (intro disjunctive_add) (auto simp: bit_simps)
    also have "\<dots> = a" using True by (intro bit_word_eqI) (auto simp: bit_simps bs)
    finally have eq: "a = buddy_of a k + ?s" by simp
    obtain q where q: "unat a = 2 ^ (k + 12) * q" and "odd q"
      using True odd al by (auto elim!: dvdE)
    then obtain r where "q = 2 * r + 1" by (auto elim: oddE)
    with q have ua: "unat a = 2 ^ (k + 13) * r + 2 ^ (k + 12)" by (simp add: algebra_simps power_add)
    have "buddy_of a k = a - ?s" using eq by (metis add_diff_cancel_right')
    then have "unat (buddy_of a k) = unat a - 2 ^ (k + 12)"
      using ua k by (simp add: unat_word_minus unat_pow2)
    with ua eq show ?thesis by simp
  qed
qed

lemma buddy_merge:
  assumes "block_wf a k" and "block_wf (buddy_of a k) k" and "Suc k < MAX_ORDER"
  defines "l \<equiv> min a (buddy_of a k)"
  shows "block_wf l (Suc k)" and "pages l (Suc k) = pages a k \<union> pages (buddy_of a k) k"
    and "l = a \<or> l = buddy_of a k"
proof -
  let ?s = "2 ^ (k + 12) :: usize" and ?b = "buddy_of a k"
  have sz: "unat ?s = 2 ^ (k + 12)" using assms(1) by (intro unat_block_size) (simp add: block_wf_def)
  have join: "block_wf x (Suc k)" "min x y = x"
    if "2 ^ (k + 13) dvd unat x" "y = x + ?s" "block_wf x k" "block_wf y k" for x y
  proof -
    have "unat x + 2 ^ (k + 12) \<noteq> 2 ^ 64"
    proof
      assume "unat x + 2 ^ (k + 12) = 2 ^ 64"
      moreover have "unat y = (unat x + 2 ^ (k + 12)) mod 2 ^ 64" using that(2) sz by (simp add: unat_word_ariths)
      ultimately have "unat y = 0" by simp
      with that(4) show False by (simp add: block_wf_def unat_eq_0)
    qed
    then have "unat x + unat ?s < 18446744073709551616" using that(3) sz by (simp add: block_wf_def)
    from unat_word_plus [OF this] have y: "unat y = unat x + 2 ^ (k + 12)" using that(2) sz by simp
    show "block_wf x (Suc k)" using that y assms(3) by (simp add: block_wf_def power_add mult.commute)
    show "min x y = x" using y by (simp add: min_def word_le_nat_alt)
  qed
  from buddy_cases [OF assms(1)] have "block_wf l (Suc k)
    \<and> pages l (Suc k) = pages a k \<union> pages ?b k \<and> (l = a \<or> l = ?b)"
  proof (elim disjE conjE)
    assume *: "2 ^ (k + 13) dvd unat a" "?b = a + ?s"
    note j = join [OF * assms(1,2)]
    show ?thesis using j block_wf_halves(4) [OF j(1)] * by (simp add: l_def)
  next
    assume *: "2 ^ (k + 13) dvd unat ?b" "a = ?b + ?s"
    note j = join [OF * assms(2,1)]
    have "l = ?b" using j(2) by (simp only: l_def min.commute)
    moreover have "pages ?b (Suc k) = pages a k \<union> pages ?b k"
      using block_wf_halves(4) [OF j(1)] *(2) by (metis Un_commute)
    ultimately show ?thesis using j(1) by simp
  qed
  then show "block_wf l (Suc k)" "pages l (Suc k) = pages a k \<union> pages ?b k" "l = a \<or> l = ?b" by blast+
qed

section \<open>Allocation\<close>

text \<open>The blocks that splitting a block of order \<open>c\<close> down to order \<open>r\<close> gives back.\<close>

definition split_blocks :: "usize \<Rightarrow> nat \<Rightarrow> nat \<Rightarrow> (usize \<times> nat) set" where
  "split_blocks a r c = {(a + 2 ^ (j + 12), j) |j. r \<le> j \<and> j < c}"

lemma split_blocks_Suc: "r \<le> c \<Longrightarrow> split_blocks a r (Suc c) = insert (a + 2 ^ (c + 12), c) (split_blocks a r c)"
  by (auto simp: split_blocks_def less_Suc_eq)

lemma split_blocks_refl [simp]: "split_blocks a r r = {}"
  by (auto simp: split_blocks_def)

lemma pages_mono: "r \<le> c \<Longrightarrow> pages a r \<subseteq> pages a c"
proof -
  assume "r \<le> c"
  then have "(2::nat) ^ r \<le> 2 ^ c" by (rule power_increasing) simp
  then show ?thesis unfolding pages_def by (intro ivl_subset [THEN iffD2]) linarith
qed

lemma split_loop_ok:
  assumes "buddy_inv s fl" and "block_wf a c" and "pages a c \<inter> free_pages fl = {}" and "r \<le> c"
  shows "\<exists>s' fl'. split_loop s a r c = Inr s' \<and> buddy_inv s' fl'
    \<and> block_set fl' = block_set fl \<union> split_blocks a r c
    \<and> free_pages fl' = free_pages fl \<union> (pages a c - pages a r)
    \<and> untouched (pages a c) (snd s) (snd s')"
  using assms
proof (induction c arbitrary: s fl)
  case 0
  then have "r = 0" by simp
  with 0 show ?case by auto
next
  case (Suc c)
  show ?case
  proof (cases "r = Suc c")
    case True
    with Suc.prems show ?thesis by auto
  next
    case False
    let ?h = "a + 2 ^ (c + 12)"
    note half = block_wf_halves [OF Suc.prems(2)]
    have r: "r \<le> c" and c: "Suc c < MAX_ORDER" using False Suc.prems by (simp_all add: block_wf_def)
    have "pages ?h c \<inter> free_pages fl = {}" using half Suc.prems(3) by auto
    from add_free_block_ok [OF Suc.prems(1) half(3) this] obtain s1 where
      s1: "add_free_block s ?h c = Inr s1" "buddy_inv s1 (push_block fl ?h c)"
        "untouched (pages ?h c) (snd s) (snd s1)" by blast
    have len: "c < length fl" using Suc.prems(1) c by (simp add: buddy_inv_def linked_def)
    have "pages a c \<inter> free_pages (push_block fl ?h c) = {}"
      using half Suc.prems(3) len by (auto simp: free_pages_push)
    from Suc.IH [OF s1(2) half(2) this r] obtain s2 fl2 where
      s2: "split_loop s1 a r c = Inr s2" "buddy_inv s2 fl2"
        "block_set fl2 = block_set (push_block fl ?h c) \<union> split_blocks a r c"
        "free_pages fl2 = free_pages (push_block fl ?h c) \<union> (pages a c - pages a r)"
        "untouched (pages a c) (snd s1) (snd s2)" by blast
    have "split_loop s a r (Suc c) = Inr s2"
      using r s1(1) s2(1) half_block [OF c] by (simp add: Let_def del: power_Suc)
    moreover have "block_set fl2 = block_set fl \<union> split_blocks a r (Suc c)"
      using s2(3) r len by (auto simp: block_set_push split_blocks_Suc)
    moreover have "free_pages fl2 = free_pages fl \<union> (pages a (Suc c) - pages a r)"
      using s2(4) half(4,5) pages_mono [OF r, of a] len by (auto simp: free_pages_push)
    moreover have "untouched (pages a (Suc c)) (snd s) (snd s2)"
      using half(4) by (intro untouched_trans [OF s1(3) s2(5)]) auto
    ultimately show ?thesis using s2(2) by blast
  qed
qed

lemma aligned_ppn: "block_wf a k \<Longrightarrow> ppn_from_pa (PhysAddr a) = Inr (pa_floor (PhysAddr a))"
  using pages_alt [of a k] by (auto simp: ppn_from_pa_def)

text \<open>What a successful search of the free lists yields.\<close>

definition alloc_result :: "buddy_state \<Rightarrow> blocks \<Rightarrow> nat \<Rightarrow> nat \<Rightarrow> usize \<Rightarrow> nat \<Rightarrow> buddy_state \<Rightarrow> blocks \<Rightarrow> bool" where
  "alloc_result s fl r lo a c s' fl' \<longleftrightarrow> lo \<le> c \<and> c < MAX_ORDER \<and> (a, c) \<in> block_set fl
     \<and> (\<forall>j. lo \<le> j \<and> j < c \<longrightarrow> fl ! j = []) \<and> buddy_inv s' fl'
     \<and> block_set fl' = block_set fl - {(a, c)} \<union> split_blocks a r c
     \<and> free_pages fl' = free_pages fl - pages a r
     \<and> untouched (free_pages fl) (snd s) (snd s')"

lemma take_and_split:
  assumes "buddy_inv (b, m) fl" and "r \<le> c" and "c < MAX_ORDER" and "free_lists b ! c = Some a"
  shows "\<exists>s' fl'. split_loop (b\<lparr>free_lists := (free_lists b)[c := decode_ptr (m a)]\<rparr>, m(a := 0)) a r c = Inr s'
    \<and> alloc_result (b, m) fl r c a c s' fl'"
proof -
  note th = take_head_ok [OF assms(1,3,4)]
  have w: "blocks_wf fl" and len: "c < length fl" using assms(1,3) by (simp_all add: buddy_inv_def linked_def)
  note d = drop_block_facts [OF w th(1)]
  have bw: "block_wf a c" using blocks_wf_block [OF w th(1)] .
  have "pages a c \<inter> free_pages (drop_block fl a c) = {}" using d(2) by auto
  from split_loop_ok [OF th(2) bw this assms(2)] obtain s' fl' where
    sp: "split_loop (b\<lparr>free_lists := (free_lists b)[c := decode_ptr (m a)]\<rparr>, m(a := 0)) a r c = Inr s'"
      "buddy_inv s' fl'" "block_set fl' = block_set (drop_block fl a c) \<union> split_blocks a r c"
      "free_pages fl' = free_pages (drop_block fl a c) \<union> (pages a c - pages a r)"
      "untouched (pages a c) (m(a := 0)) (snd s')" by auto
  have dist: "distinct (fl ! c)" using w assms(3) by (simp add: blocks_wf_def)
  have "free_pages fl' = free_pages fl - pages a r"
    using sp(4) d(2,3) pages_mono [OF assms(2), of a] by auto
  moreover have "untouched (free_pages fl) m (snd s')"
    using d(3) by (intro untouched_trans [OF untouched_upd sp(5)]) auto
  ultimately have "alloc_result (b, m) fl r c a c s' fl'"
    using sp(2,3) th(1) assms(3) block_set_drop [OF len dist] by (auto simp: alloc_result_def)
  with sp(1) show ?thesis by blast
qed

lemma alloc_loop_ok:
  assumes "buddy_inv s fl" and "r \<le> lo"
  shows "alloc_loop s r lo = Inr (None, s) \<and> (\<forall>j. lo \<le> j \<and> j < MAX_ORDER \<longrightarrow> fl ! j = [])
    \<or> (\<exists>a c s' fl'. alloc_loop s r lo = Inr (Some (pa_floor (PhysAddr a)), s') \<and> alloc_result s fl r lo a c s' fl')"
  using assms(2)
proof (induction "MAX_ORDER - lo" arbitrary: lo)
  case 0
  then show ?case by (subst (1 2) alloc_loop.simps) auto
next
  case (Suc n)
  obtain b m where s: "s = (b, m)" by (cases s)
  have lo: "lo < MAX_ORDER" using Suc.hyps(2) by simp
  have len: "lo < length (free_lists b)" and h: "hlist m (free_lists b ! lo) (fl ! lo)"
    using assms(1) lo s by (simp_all add: buddy_inv_def linked_def)
  show ?case
  proof (cases "free_lists b ! lo")
    case None
    then have nil: "fl ! lo = []" using h by (simp add: hlist_None)
    have step: "alloc_loop s r lo = alloc_loop s r (lo + 1)"
      using None lo len s by (subst alloc_loop.simps) (simp add: index_in_range)
    have ext: "(\<forall>j. lo + 1 \<le> j \<and> j < k \<longrightarrow> fl ! j = []) \<longleftrightarrow> (\<forall>j. lo \<le> j \<and> j < k \<longrightarrow> fl ! j = [])" for k
      using nil by (metis Suc_eq_plus1 Suc_leI Suc_leD le_neq_implies_less)
    have "alloc_result s fl r lo a c s' fl'" if "alloc_result s fl r (lo + 1) a c s' fl'" for a c s' fl'
      using that ext [of c] by (simp add: alloc_result_def)
    moreover have "n = MAX_ORDER - (lo + 1)" "r \<le> lo + 1" using Suc.hyps(2) Suc.prems by simp_all
    ultimately show ?thesis using Suc.hyps(1) [of "lo + 1"] unfolding step ext by blast
  next
    case (Some a)
    from take_and_split [OF assms(1) [unfolded s] Suc.prems lo this] obtain s' fl' where
      *: "split_loop (b\<lparr>free_lists := (free_lists b)[lo := decode_ptr (m a)]\<rparr>, m(a := 0)) a r lo = Inr s'"
        "alloc_result s fl r lo a lo s' fl'" unfolding s by blast
    have "block_wf a lo"
      using *(2) assms(1) blocks_wf_block by (auto simp: alloc_result_def buddy_inv_def)
    then have "alloc_loop s r lo = Inr (Some (pa_floor (PhysAddr a)), s')"
      using Some lo len s *(1) by (subst alloc_loop.simps) (simp add: index_in_range Let_def aligned_ppn)
    with *(2) show ?thesis by blast
  qed
qed

section \<open>Deallocation\<close>

lemma coalesce_loop_ok:
  assumes "buddy_inv s fl" and "block_wf a k" and "pages a k \<inter> free_pages fl = {}"
  shows "\<exists>a' k' s' fl'. coalesce_loop s a (2 ^ (k + 12)) k = Inr (a', k', s') \<and> buddy_inv s' fl'
    \<and> block_wf a' k' \<and> pages a' k' \<inter> free_pages fl' = {}
    \<and> free_pages fl' \<union> pages a' k' = free_pages fl \<union> pages a k
    \<and> block_set fl' \<subseteq> block_set fl
    \<and> (Suc k' < MAX_ORDER \<longrightarrow> (buddy_of a' k', k') \<notin> block_set fl')
    \<and> untouched (free_pages fl) (snd s) (snd s')"
  using assms
proof (induction "MAX_ORDER - k" arbitrary: s fl a k rule: less_induct)
  case less
  let ?b = "buddy_of a k"
  show ?case
  proof (cases "Suc k < MAX_ORDER")
    case False
    then have "coalesce_loop s a (2 ^ (k + 12)) k = Inr (a, k, s)"
      by (subst coalesce_loop.simps) auto
    with less.prems False show ?thesis by (intro exI [of _ a] exI [of _ k] exI [of _ s] exI [of _ fl]) auto
  next
    case k: True
    then have k': "k < MAX_ORDER" and k1: "k < MAX_ORDER - Suc 0" by simp_all
    from try_remove_ok [OF less.prems(1) k', of ?b] obtain s1 where
      s1: "try_remove_from_list s ?b k = Inr ((?b, k) \<in> block_set fl, s1)"
        "buddy_inv s1 (drop_block fl ?b k)" "untouched (free_pages fl) (snd s) (snd s1)" by blast
    have w: "blocks_wf fl" and len: "k < length fl" using less.prems(1) k' by (simp_all add: buddy_inv_def linked_def)
    show ?thesis
    proof (cases "(?b, k) \<in> block_set fl")
      case False
      have "coalesce_loop s a (2 ^ (k + 12)) k = Inr (a, k, s1)"
        using k1 s1(1) False by (subst coalesce_loop.simps) (simp add: Let_def)
      moreover have "drop_block fl ?b k = fl" using False len by (rule drop_block_id)
      ultimately show ?thesis using less.prems s1 False
        by (intro exI [of _ a] exI [of _ k] exI [of _ s1] exI [of _ fl]) auto
    next
      case True
      let ?l = "min a ?b"
      note d = drop_block_facts [OF w True]
      note mg = buddy_merge [OF less.prems(2) blocks_wf_block [OF w True] k]
      have "coalesce_loop s a (2 ^ (k + 12)) k = coalesce_loop s1 ?l (2 ^ (Suc k + 12)) (Suc k)"
        using k1 s1(1) True by (subst coalesce_loop.simps) (simp add: Let_def power_add mult.commute)
      moreover have "pages ?l (Suc k) \<inter> free_pages (drop_block fl ?b k) = {}"
        using less.prems(3) d(2) mg(2) by auto
      moreover have "MAX_ORDER - Suc k < MAX_ORDER - k" using k by simp
      ultimately obtain a' k' s' fl' where r: "coalesce_loop s a (2 ^ (k + 12)) k = Inr (a', k', s')" "buddy_inv s' fl'"
        "block_wf a' k'" "pages a' k' \<inter> free_pages fl' = {}"
        "free_pages fl' \<union> pages a' k' = free_pages (drop_block fl ?b k) \<union> pages ?l (Suc k)"
        "block_set fl' \<subseteq> block_set (drop_block fl ?b k)"
        "Suc k' < MAX_ORDER \<longrightarrow> (buddy_of a' k', k') \<notin> block_set fl'"
        "untouched (free_pages (drop_block fl ?b k)) (snd s1) (snd s')"
        using less.hyps [OF _ s1(2) mg(1)] by metis
      have "free_pages fl' \<union> pages a' k' = free_pages fl \<union> pages a k" using r(5) d(2,3) mg(2) by auto
      moreover have "block_set fl' \<subseteq> block_set fl"
        using r(6) w len k block_set_drop [of k fl ?b] by (auto simp: blocks_wf_def)
      moreover have "untouched (free_pages fl) (snd s) (snd s')"
        using d(2) by (intro untouched_trans [OF s1(3) r(8)]) auto
      ultimately show ?thesis using r(1-4,7) by blast
    qed
  qed
qed

text \<open>No two buddies of the same order are both free: every pair has been merged.\<close>

definition coalesced :: "(usize \<times> nat) set \<Rightarrow> bool" where
  "coalesced B \<longleftrightarrow> (\<forall>(a, k) \<in> B. Suc k < MAX_ORDER \<longrightarrow> (buddy_of a k, k) \<notin> B)"

lemma buddy_of_buddy [simp]: "buddy_of (buddy_of a k) k = a"
  by (simp add: xor.assoc)

lemma buddy_of_neq: "k < MAX_ORDER \<Longrightarrow> buddy_of a k \<noteq> a"
proof
  assume "k < MAX_ORDER" "buddy_of a k = a"
  then have "(2 :: usize) ^ (k + 12) = 0" by (metis xor.left_neutral xor_self_eq xor.assoc)
  with unat_block_size [OF \<open>k < MAX_ORDER\<close>] show False by simp
qed

lemma coalesced_subset: "coalesced B \<Longrightarrow> A \<subseteq> B \<Longrightarrow> coalesced A"
  by (auto simp: coalesced_def)

lemma coalesced_insert:
  "coalesced B \<Longrightarrow> (Suc k < MAX_ORDER \<longrightarrow> (buddy_of a k, k) \<notin> B) \<Longrightarrow> coalesced (insert (a, k) B)"
  by (auto simp: coalesced_def dest: buddy_of_neq [OF Suc_lessD])

lemma dealloc_ok:
  assumes "buddy_inv s fl" and "k = pages_to_order pg" and "block_wf (pa_val (pa_from_ppn p)) k"
    and "pages (pa_val (pa_from_ppn p)) k \<inter> free_pages fl = {}"
  shows "\<exists>s' fl'. buddy_dealloc s p pg = Inr s' \<and> buddy_inv s' fl'
    \<and> free_pages fl' = free_pages fl \<union> pages (pa_val (pa_from_ppn p)) k
    \<and> (coalesced (block_set fl) \<longrightarrow> coalesced (block_set fl'))
    \<and> untouched (free_pages fl') (snd s) (snd s')"
proof -
  from coalesce_loop_ok [OF assms(1,3,4)] obtain a' k' s1 fl1 where
    c: "coalesce_loop s (pa_val (pa_from_ppn p)) (2 ^ (k + 12)) k = Inr (a', k', s1)"
      "buddy_inv s1 fl1" "block_wf a' k'" "pages a' k' \<inter> free_pages fl1 = {}"
      "free_pages fl1 \<union> pages a' k' = free_pages fl \<union> pages (pa_val (pa_from_ppn p)) k"
      "block_set fl1 \<subseteq> block_set fl" "Suc k' < MAX_ORDER \<longrightarrow> (buddy_of a' k', k') \<notin> block_set fl1"
      "untouched (free_pages fl) (snd s) (snd s1)" by blast
  from add_free_block_ok [OF c(2-4)] obtain s2 where
    s2: "add_free_block s1 a' k' = Inr s2" "buddy_inv s2 (push_block fl1 a' k')"
      "untouched (pages a' k') (snd s1) (snd s2)" by blast
  have k: "k < MAX_ORDER" using assms(3) by (simp add: block_wf_def)
  have len: "k' < length fl1" using c(2,3) by (simp add: buddy_inv_def linked_def block_wf_def)
  have "buddy_dealloc s p pg = Inr s2"
    using c(1) s2(1) block_size_word [OF k] by (simp add: buddy_dealloc_def assms(2) [symmetric])
  moreover have "free_pages (push_block fl1 a' k') = free_pages fl \<union> pages (pa_val (pa_from_ppn p)) k"
    using c(5) len by (simp add: free_pages_push)
  moreover have "coalesced (block_set (push_block fl1 a' k'))" if "coalesced (block_set fl)"
    using coalesced_insert [OF coalesced_subset [OF that c(6)] c(7)] len by (simp add: block_set_push)
  moreover have "untouched (free_pages (push_block fl1 a' k')) (snd s) (snd s2)"
    using c(5) len by (intro untouched_trans [OF c(8) s2(3)]) (auto simp: free_pages_push)
  ultimately show ?thesis using s2(2) by blast
qed

lemma buddy_of_half:
  assumes "block_wf a (Suc k)"
  shows "buddy_of (a + 2 ^ (k + 12)) k = a"
proof -
  have al: "2 ^ (k + 13) dvd unat a" using assms by (simp add: block_wf_def power_add mult.commute)
  have "2 ^ (k + 12) \<le> unat a"
  proof -
    have "2 ^ (k + 12) dvd unat a" "0 < unat a"
      using block_wf_halves(2) [OF assms] by (auto simp: block_wf_def unat_gt_0)
    then show ?thesis by (rule dvd_imp_le)
  qed
  then have "\<not> (2 ^ (k + 13) dvd unat a - 2 ^ (k + 12))"
    using al by (metis dvd_diffD1 le_add2 less_le_not_le nat_add_left_cancel_le numeral_le_iff one_less_numeral_iff
      power_dvd_imp_le semiring_norm(76) eval_nat_numeral(3) add_Suc_right lessI)
  then have "buddy_of a k = a + 2 ^ (k + 12)"
    using buddy_cases [OF block_wf_halves(2) [OF assms]] by metis
  then show ?thesis by (metis buddy_of_buddy)
qed

lemma block_wf_smaller: "block_wf a c \<Longrightarrow> j \<le> c \<Longrightarrow> block_wf a j"
proof (induction c)
  case (Suc c)
  then show ?case using block_wf_halves(2) by (cases "j = Suc c") simp_all
qed simp

lemma alloc_result_coalesced:
  assumes "buddy_inv s fl" and "alloc_result s fl r lo a c s' fl'" and "coalesced (block_set fl)"
  shows "coalesced (block_set fl')"
proof -
  let ?B = "block_set fl" and ?N = "split_blocks a r c"
  have w: "blocks_wf fl" and m: "(a, c) \<in> ?B" and eq: "block_set fl' = ?B - {(a, c)} \<union> ?N"
    using assms(1,2) by (simp_all add: buddy_inv_def alloc_result_def)
  have new: "(buddy_of x k, k) \<notin> block_set fl'" if "(x, k) \<in> ?N" for x k
  proof -
    have x: "x = a + 2 ^ (k + 12)" and k: "k < c" using that by (auto simp: split_blocks_def)
    have wk: "block_wf a (Suc k)" using blocks_wf_block [OF w m] k by (auto intro: block_wf_smaller)
    have b: "buddy_of x k = a" using buddy_of_half [OF wk] x by simp
    have "(a, k) \<notin> ?B" using blocks_wf_addr_order [OF w m] k by blast
    moreover have "(a, k) \<notin> ?N"
    proof
      assume "(a, k) \<in> ?N"
      then have "a = a + 2 ^ (k + 12)" by (auto simp: split_blocks_def)
      with block_wf_halves(1) [OF wk] show False by simp
    qed
    ultimately show ?thesis using b eq by simp
  qed
  show ?thesis unfolding coalesced_def
  proof clarify
    fix x k
    assume x: "(x, k) \<in> block_set fl'" "Suc k < MAX_ORDER" "(buddy_of x k, k) \<in> block_set fl'"
    then have "(x, k) \<notin> ?N" "(buddy_of x k, k) \<notin> ?N" using new buddy_of_buddy by metis+
    with x eq have "(x, k) \<in> ?B" "(buddy_of x k, k) \<in> ?B" by auto
    with assms(3) x(2) show False by (auto simp: coalesced_def)
  qed
qed

section \<open>Coalesced free lists are canonical\<close>

lemma aligned_nested:
  fixes p q x :: nat
  assumes "2 ^ k dvd p" and "2 ^ j dvd q" and "k \<le> j"
    and "p \<le> x" "x < p + 2 ^ k" and "q \<le> x" "x < q + 2 ^ j"
  shows "{p ..< p + 2 ^ k} \<subseteq> {q ..< q + 2 ^ j}"
proof -
  have d: "(2::nat) ^ k dvd 2 ^ j" using assms(3) by (rule le_imp_power_dvd)
  obtain u where u: "p = 2 ^ k * u" using assms(1) by blast
  obtain v where v: "q = 2 ^ k * v" using assms(2) d dvd_trans by blast
  obtain w where w: "(2::nat) ^ j = 2 ^ k * w" using d by blast
  have "q < p + 2 ^ k" "p < q + 2 ^ j" using assms(4-7) by linarith+
  then have "2 ^ k * v < 2 ^ k * (u + 1)" "2 ^ k * u < 2 ^ k * (v + w)"
    unfolding u v w by (simp_all only: distrib_left mult_1_right)
  then have "v < u + 1" "u < v + w" by (simp_all only: nat_mult_less_cancel_disj)
  then have vu: "v \<le> u" and uw: "u + 1 \<le> v + w" by linarith+
  have "q \<le> p" unfolding u v using vu by (rule mult_le_mono2)
  moreover have "p + 2 ^ k \<le> q + 2 ^ j"
    using mult_le_mono2 [OF uw, of "2 ^ k"] unfolding u v w by (simp only: distrib_left mult_1_right)
  ultimately show ?thesis by (intro ivl_subset [THEN iffD2] disjI2 conjI)
qed

text \<open>
  In a coalesced state every aligned run of free pages of a block's size lies inside one
  free block: what is free as memory can be handed out as a block.
\<close>

lemma coalesced_complete:
  assumes "blocks_wf fl" and "coalesced (block_set fl)" and "k < MAX_ORDER" and "2 ^ k dvd p"
    and "{p ..< p + 2 ^ k} \<subseteq> free_pages fl"
  shows "\<exists>(a, j) \<in> block_set fl. k \<le> j \<and> {p ..< p + 2 ^ k} \<subseteq> pages a j"
  using assms(3-)
proof (induction k arbitrary: p)
  case 0
  then have "p \<in> free_pages fl" by simp
  then show ?case by (auto simp: free_pages_def)
next
  case (Suc k)
  let ?q = "p + 2 ^ k"
  have al: "2 ^ k dvd p" "2 ^ k dvd ?q"
    using dvd_trans [OF le_imp_power_dvd [of k "Suc k" "2::nat"] Suc.prems(2)] by simp_all
  have sub: "{p ..< p + 2 ^ k} \<subseteq> free_pages fl" "{?q ..< ?q + 2 ^ k} \<subseteq> free_pages fl"
    by (rule order_trans [OF _ Suc.prems(3)]; simp)+
  have k: "k < MAX_ORDER" using Suc.prems(1) by simp
  have whole: "{p ..< p + 2 ^ Suc k} \<subseteq> pages a j"
    if "(a, j) \<in> block_set fl" "Suc k \<le> j" "x \<in> pages a j" "x \<in> {p ..< p + 2 ^ Suc k}" for a j x
  proof -
    have "2 ^ j dvd unat a div 4096" using pages_alt blocks_wf_block [OF assms(1) that(1)] by blast
    then show ?thesis unfolding pages_def
      using aligned_nested [OF Suc.prems(2) _ that(2), of "unat a div 4096" x] that(3,4) by (simp add: pages_def)
  qed
  from Suc.IH [OF k al(1) sub(1)] obtain a j where a: "(a, j) \<in> block_set fl" "k \<le> j" "{p ..< p + 2 ^ k} \<subseteq> pages a j"
    by blast
  from Suc.IH [OF k al(2) sub(2)] obtain b i where b: "(b, i) \<in> block_set fl" "k \<le> i" "{?q ..< ?q + 2 ^ k} \<subseteq> pages b i"
    by blast
  have pin: "p \<in> pages a j" "?q \<in> pages b i" by (rule subsetD [OF a(3)], simp) (rule subsetD [OF b(3)], simp)
  show ?case
  proof (cases "j = k \<and> i = k")
    case False
    with a(2) b(2) have "Suc k \<le> j \<or> Suc k \<le> i" by linarith
    then show ?thesis using whole [OF a(1) _ pin(1)] whole [OF b(1) _ pin(2)] a(1) b(1) by auto
  next
    case True
    then have wa: "block_wf a k" and wb: "block_wf b k" using a(1) b(1) blocks_wf_block [OF assms(1)] by auto
    have start: "unat x div 4096 = y" if "{y ..< y + 2 ^ k} \<subseteq> pages x k" for x y
      using that by (simp add: pages_def)
    have pa: "unat a div 4096 = p" and pb: "unat b div 4096 = ?q" using a(3) b(3) True start by auto
    then have ua: "unat a = p * 4096" and ub: "unat b = p * 4096 + 2 ^ (k + 12)"
      using pages_alt [OF wa] pages_alt [OF wb] by (simp_all add: power_add algebra_simps)
    have "a + 2 ^ (k + 12) = b"
    proof -
      have "unat a + unat ((2 :: usize) ^ (k + 12)) = unat b" using ua ub unat_block_size [OF k] by simp
      then have "unat (a + 2 ^ (k + 12)) = unat b" using unat_usize_less [of b] by (simp add: unat_word_plus)
      then show ?thesis by (simp only: word_unat_eq_iff)
    qed
    moreover have "block_wf a (Suc k)"
    proof -
      have "2 ^ (Suc k + 12) dvd unat a"
        using mult_dvd_mono [OF Suc.prems(2), of 4096 4096] ua by (simp add: power_add)
      moreover have "unat a + 2 ^ (Suc k + 12) \<le> 2 ^ 64" using wb ua ub by (simp add: block_wf_def power_add)
      ultimately show ?thesis using wa Suc.prems(1) by (simp add: block_wf_def)
    qed
    ultimately have "buddy_of b k = a" using buddy_of_half by blast
    with assms(2) a(1) b(1) True Suc.prems(1) show ?thesis by (auto simp: coalesced_def)
  qed
qed

lemma coalesced_subset_unique:
  assumes "blocks_wf f" "coalesced (block_set f)" "blocks_wf g" "coalesced (block_set g)"
    and "free_pages f = free_pages g"
  shows "block_set f \<subseteq> block_set g"
proof clarify
  fix a k
  assume a: "(a, k) \<in> block_set f"
  have fits: "k < MAX_ORDER \<and> 2 ^ k dvd unat a div 4096" if "block_wf a k" for a k
    using that pages_alt by (auto simp: block_wf_def)
  have wa: "block_wf a k" using blocks_wf_block [OF assms(1) a] .
  have "pages a k \<subseteq> free_pages g" using drop_block_facts(3) [OF assms(1) a] assms(5) by simp
  then obtain b j where b: "(b, j) \<in> block_set g" "k \<le> j" "pages a k \<subseteq> pages b j"
    using coalesced_complete [OF assms(3,4)] fits [OF wa] unfolding pages_def by blast
  have wb: "block_wf b j" using blocks_wf_block [OF assms(3) b(1)] .
  have "pages b j \<subseteq> free_pages f" using drop_block_facts(3) [OF assms(3) b(1)] assms(5) by simp
  then obtain c i where c: "(c, i) \<in> block_set f" "j \<le> i" "pages b j \<subseteq> pages c i"
    using coalesced_complete [OF assms(1,2)] fits [OF wb] unfolding pages_def by blast
  have "pages a k \<inter> pages c i \<noteq> {}" using b(3) c(3) page_in_pages by blast
  then have "(a, k) = (c, i)" using blocks_wf_disjoint [OF assms(1) a c(1)] by blast
  then have "k = j" using b c by auto
  then have "unat a div 4096 = unat b div 4096" using b(3) unfolding pages_def by simp
  then have "unat a = unat b" using pages_alt [OF wa] pages_alt [OF wb] by metis
  then show "(a, k) \<in> block_set g" using b(1) \<open>k = j\<close> by (simp add: word_unat_eq_iff [symmetric])
qed

lemma half_page:
  assumes "block_wf a (Suc k)"
  shows "unat (a + 2 ^ (k + 12)) div 4096 = unat a div 4096 + 2 ^ k"
proof -
  note h = block_wf_halves [OF assms]
  have "unat (a + 2 ^ (k + 12)) = (unat a div 4096 + 2 ^ k) * 4096"
    using h(1) pages_alt [OF h(2)] by (simp add: power_add add_mult_distrib)
  then show ?thesis by simp
qed

section \<open>Adding a region\<close>

lemma region_order_facts:
  assumes "unat cur < unat stop" and "0 < unat cur"
  defines "k \<equiv> region_order cur stop"
  shows "k < MAX_ORDER" and "unat cur + 2 ^ k \<le> unat stop" and "2 ^ k dvd unat cur"
    and "Suc k < MAX_ORDER \<Longrightarrow> 2 ^ Suc k dvd unat cur \<Longrightarrow> unat stop < unat cur + 2 ^ Suc k"
proof -
  let ?r = "unat (stop - cur)"
  have r: "?r = unat stop - unat cur" "0 < ?r" using assms(1) by (simp_all add: unat_word_minus)
  note lg = nat_log2_bounds [OF r(2)]
  have k: "k = min (nat_log2 ?r) (min (nat_ctz (unat cur)) (MAX_ORDER - 1))"
    using assms(2) by (auto simp: k_def region_order_def Let_def ilog2_def trailing_zeros_def)
  show "k < MAX_ORDER" using k by (simp add: MAX_ORDER_def)
  have "(2::nat) ^ k \<le> 2 ^ nat_log2 ?r" using k by (intro power_increasing) simp_all
  then show "unat cur + 2 ^ k \<le> unat stop" using lg r assms(1) by linarith
  show "2 ^ k dvd unat cur" using k by (simp add: pow2_dvd_iff_le_ctz [OF assms(2)])
  show "unat stop < unat cur + 2 ^ Suc k" if "Suc k < MAX_ORDER" "2 ^ Suc k dvd unat cur"
  proof -
    have "Suc k \<le> nat_ctz (unat cur)" using that(2) pow2_dvd_iff_le_ctz [OF assms(2)] by blast
    then have "k = nat_log2 ?r" using k that(1) by linarith
    then have "?r < 2 ^ Suc k" using lg by simp
    then show ?thesis using r assms(1) by linarith
  qed
qed

lemma page_block:
  assumes "0 < unat p" and "k < MAX_ORDER" and "2 ^ k dvd unat p" and "unat p + 2 ^ k \<le> 2 ^ 52"
  defines "a \<equiv> pa_val (pa_from_ppn (PhysPageNum p))"
  shows "unat a = unat p * 4096" and "block_wf a k" and "pages a k = {unat p ..< unat p + 2 ^ k}"
proof -
  have "unat p < 2 ^ 52" using assms(4) zero_less_power [of "2::nat" k, OF zero_less_numeral] by linarith
  then show u: "unat a = unat p * 4096" by (simp add: a_def)
  then have "unat a \<noteq> 0" using assms(1) by simp
  then have "a \<noteq> 0" by (metis unsigned_0)
  moreover have "2 ^ (k + 12) dvd unat a" using u mult_dvd_mono [OF assms(3), of 4096 4096] by (simp add: power_add)
  moreover have "unat a + 2 ^ (k + 12) \<le> 2 ^ 64" using u assms(4) by (simp add: power_add)
  ultimately show "block_wf a k" using assms(2) by (simp add: block_wf_def)
  show "pages a k = {unat p ..< unat p + 2 ^ k}" using u by (simp add: pages_def)
qed

text \<open>
  The part of the state of the loop that matters for merging: a free block that ends where the
  rest of the region starts and could be the lower buddy of a block placed there is larger than
  what is left.
\<close>

definition lower_ok :: "blocks \<Rightarrow> nat \<Rightarrow> nat \<Rightarrow> bool" where
  "lower_ok fl cur stop \<longleftrightarrow> (\<forall>(a, j) \<in> block_set fl. unat a div 4096 + 2 ^ j = cur \<longrightarrow>
     2 ^ Suc j dvd unat a div 4096 \<longrightarrow> Suc j < MAX_ORDER \<longrightarrow> stop < cur + 2 ^ j)"

lemma region_block_no_buddy:
  assumes "blocks_wf fl" and "lower_ok fl cur stop" and "{cur .. stop} \<inter> free_pages fl = {}"
    and "block_wf a k" and "unat a div 4096 = cur" and "cur + 2 ^ k \<le> stop" and "Suc k < MAX_ORDER"
  shows "(buddy_of a k, k) \<notin> block_set fl"
proof
  let ?b = "buddy_of a k"
  assume b: "(?b, k) \<in> block_set fl"
  have wb: "block_wf ?b k" using blocks_wf_block [OF assms(1) b] .
  note mg = buddy_merge [OF assms(4) wb assms(7)]
  have free: "unat ?b div 4096 \<in> free_pages fl" using drop_block_facts(3) [OF assms(1) b] page_in_pages by blast
  from mg(3) show False
  proof
    assume l: "min a ?b = a"
    then have "block_wf a (Suc k)" using mg(1) by simp
    then have "unat ?b div 4096 = cur + 2 ^ k" using half_page buddy_of_half buddy_of_buddy assms(5) by metis
    moreover have "cur + 2 ^ k \<in> {cur .. stop}" using assms(6) by simp
    ultimately show False using free assms(3) by (metis disjoint_iff)
  next
    assume l: "min a ?b = ?b"
    then have w: "block_wf ?b (Suc k)" using mg(1) by simp
    then have al: "2 ^ Suc k dvd unat ?b div 4096" using pages_alt by blast
    have "cur = unat ?b div 4096 + 2 ^ k" using w half_page buddy_of_half buddy_of_buddy assms(5) by metis
    then have "stop < cur + 2 ^ k" using assms(2,7) al b by (auto simp: lower_ok_def)
    with assms(6) show False by simp
  qed
qed

lemma region_step_coalesced:
  assumes "blocks_wf fl" and "coalesced (block_set fl)" and "lower_ok fl cur stop" and "stop \<notin> free_pages fl"
    and "{cur ..< stop} \<inter> free_pages fl = {}" and "block_wf a k" and "unat a div 4096 = cur" and "cur + 2 ^ k \<le> stop"
    and greedy: "Suc k < MAX_ORDER \<Longrightarrow> 2 ^ Suc k dvd cur \<Longrightarrow> stop < cur + 2 ^ Suc k"
  shows "coalesced (block_set (push_block fl a k)) \<and> stop \<notin> free_pages (push_block fl a k)
    \<and> lower_ok (push_block fl a k) (cur + 2 ^ k) stop"
proof (intro conjI)
  have len: "k < length fl" using assms(1,6) by (simp add: blocks_wf_def block_wf_def)
  have "{cur .. stop} \<inter> free_pages fl = {}"
    using assms(4,5) by (auto simp: disjoint_iff order_le_less)
  then have "(buddy_of a k, k) \<notin> block_set fl" if "Suc k < MAX_ORDER"
    using region_block_no_buddy [OF assms(1,3) _ assms(6-8) that] by simp
  then show "coalesced (block_set (push_block fl a k))"
    using coalesced_insert [OF assms(2)] len by (simp add: block_set_push)
  show "stop \<notin> free_pages (push_block fl a k)"
    using assms(4,7,8) len by (simp add: free_pages_push pages_def)
  have old: False if "(x, j) \<in> block_set fl" "unat x div 4096 + 2 ^ j = cur + 2 ^ k" for x j
  proof -
    have pos: "0 < (2::nat) ^ j" "0 < (2::nat) ^ k" by simp_all
    have "cur + 2 ^ k - 1 \<in> pages x j"
      unfolding pages_def atLeastLessThan_iff using that(2) pos by linarith
    moreover have "cur + 2 ^ k - 1 \<in> {cur ..< stop}"
      unfolding atLeastLessThan_iff using assms(8) pos by linarith
    ultimately show False
      using drop_block_facts(3) [OF assms(1) that(1)] assms(5) by blast
  qed
  show "lower_ok (push_block fl a k) (cur + 2 ^ k) stop"
    unfolding lower_ok_def block_set_push [OF len]
  proof (clarify, elim insertE)
    fix x j
    assume "(x, j) = (a, k)" "2 ^ Suc j dvd unat x div 4096" "Suc j < MAX_ORDER"
    then show "stop < cur + 2 ^ k + 2 ^ j" using greedy assms(7) by simp
  qed (use old in blast)
qed

lemma add_region_loop_ok:
  assumes "buddy_inv s fl" and "0 < unat cur" and "unat stop \<le> 2 ^ 52" and "unat cur \<le> unat stop"
    and "{unat cur ..< unat stop} \<inter> free_pages fl = {}"
  shows "\<exists>s' fl'. add_region_loop s cur stop = Some (Inr s') \<and> buddy_inv s' fl'
    \<and> free_pages fl' = free_pages fl \<union> {unat cur ..< unat stop}
    \<and> (coalesced (block_set fl) \<and> unat stop \<notin> free_pages fl \<and> lower_ok fl (unat cur) (unat stop)
        \<longrightarrow> coalesced (block_set fl'))
    \<and> untouched {unat cur ..< unat stop} (snd s) (snd s')"
  using assms
proof (induction "unat stop - unat cur" arbitrary: s fl cur rule: less_induct)
  case less
  show ?case
  proof (cases "cur < stop")
    case False
    then have "unat cur = unat stop" using less.prems(4) by (simp add: word_less_nat_alt)
    with False less.prems(1) show ?thesis by (subst add_region_loop.simps) auto
  next
    case True
    define k where "k = region_order cur stop"
    define a where "a = pa_val (pa_from_ppn (PhysPageNum cur))"
    have lt: "unat cur < unat stop" using True by (simp add: word_less_nat_alt)
    note ro = region_order_facts [OF lt less.prems(2), folded k_def]
    have le: "unat cur + 2 ^ k \<le> 2 ^ 52" using ro(2) less.prems(3) by linarith
    note pb = page_block [OF less.prems(2) ro(1,3) le, folded a_def]
    have pa: "unat a div 4096 = unat cur" using pb(1) by simp
    have "pages a k \<inter> free_pages fl = {}"
      using less.prems(5) ro(2) unfolding pb(3) by (auto simp: disjoint_iff)
    from add_free_block_ok [OF less.prems(1) pb(2) this] obtain s1 where
      s1: "add_free_block s a k = Inr s1" "buddy_inv s1 (push_block fl a k)"
        "untouched (pages a k) (snd s) (snd s1)" by blast
    let ?n = "cur + shl 1 k" and ?fl = "push_block fl a k"
    have w: "blocks_wf fl" and len: "k < length fl"
      using less.prems(1) ro(1) by (simp_all add: buddy_inv_def linked_def)
    have n: "unat ?n = unat cur + 2 ^ k"
    proof -
      have k64: "k < 64" using ro(1) by (simp add: MAX_ORDER_def)
      then have "shl 1 k = 2 ^ k" by (simp add: shl_def push_bit_one)
      then show ?thesis using le k64 by (simp add: unat_word_plus unat_pow2)
    qed
    have fp: "free_pages ?fl = free_pages fl \<union> {unat cur ..< unat cur + 2 ^ k}"
      using len pb(3) by (simp add: free_pages_push)
    have co: "coalesced (block_set ?fl) \<and> unat stop \<notin> free_pages ?fl \<and> lower_ok ?fl (unat ?n) (unat stop)"
      if c: "coalesced (block_set fl)" and st: "unat stop \<notin> free_pages fl" and lo: "lower_ok fl (unat cur) (unat stop)"
      using region_step_coalesced [OF w c lo st less.prems(5) pb(2) pa ro(2)] ro(4) n by simp
    have rest: "{unat ?n ..< unat stop} \<inter> free_pages ?fl = {}"
      using less.prems(5) fp n by (auto simp: disjoint_iff)
    have "unat stop - unat ?n < unat stop - unat cur" "0 < unat ?n" "unat ?n \<le> unat stop"
      using n ro(2) lt less.prems(2) by (simp_all add: diff_less_mono2)
    from less.hyps [OF this(1) s1(2) this(2) less.prems(3) this(3) rest] obtain s2 fl2 where
      s2: "add_region_loop s1 ?n stop = Some (Inr s2)" "buddy_inv s2 fl2"
        "free_pages fl2 = free_pages ?fl \<union> {unat ?n ..< unat stop}"
        "coalesced (block_set ?fl) \<and> unat stop \<notin> free_pages ?fl \<and> lower_ok ?fl (unat ?n) (unat stop)
          \<longrightarrow> coalesced (block_set fl2)"
        "untouched {unat ?n ..< unat stop} (snd s1) (snd s2)"
      by blast
    have "add_region_loop s cur stop = Some (Inr s2)"
      using True s1(1) s2(1) by (subst add_region_loop.simps) (simp add: Let_def k_def a_def)
    moreover have "free_pages fl2 = free_pages fl \<union> {unat cur ..< unat stop}"
      using s2(3) fp n ro(2) by (auto simp: not_less)
    moreover have "untouched {unat cur ..< unat stop} (snd s) (snd s2)"
      using n ro(2) pb(3) by (intro untouched_trans [OF s1(3) s2(5)]) auto
    ultimately show ?thesis using s2(2,4) co by blast
  qed
qed

section \<open>The allocator contract\<close>

text \<open>
  What clients rely on: a relation between the state and the set of free pages, the run of
  pages that a request of \<open>n\<close> pages at page \<open>p\<close> owns, and the effect of the two operations.
\<close>

locale page_allocator =
  fixes alloc :: "'s \<Rightarrow> usize \<Rightarrow> (phys_page_num option \<times> 's) res"
    and dealloc :: "'s \<Rightarrow> phys_page_num \<Rightarrow> usize \<Rightarrow> 's res"
    and free :: "'s \<Rightarrow> nat set \<Rightarrow> bool"
    and run :: "phys_page_num \<Rightarrow> usize \<Rightarrow> nat set"
    and owned :: "phys_page_num \<Rightarrow> usize \<Rightarrow> bool"
  assumes alloc_total: "free s F \<Longrightarrow> n \<noteq> 0 \<Longrightarrow> \<exists>r s'. alloc s n = Inr (r, s')"
    and alloc_none: "free s F \<Longrightarrow> n \<noteq> 0 \<Longrightarrow> alloc s n = Inr (None, s') \<Longrightarrow> s' = s"
    and alloc_some: "free s F \<Longrightarrow> n \<noteq> 0 \<Longrightarrow> alloc s n = Inr (Some p, s') \<Longrightarrow>
      owned p n \<and> run p n \<subseteq> F \<and> free s' (F - run p n)"
    and dealloc_some: "free s F \<Longrightarrow> owned p n \<Longrightarrow> run p n \<inter> F = {} \<Longrightarrow>
      \<exists>s'. dealloc s p n = Inr s' \<and> free s' (F \<union> run p n)"
begin

definition partition :: "nat set \<Rightarrow> nat set \<Rightarrow> (phys_page_num \<times> usize) list \<Rightarrow> bool" where
  "partition F0 F live \<longleftrightarrow> F0 = F \<union> (\<Union>(p, n) \<in> set live. run p n)
     \<and> (\<forall>(p, n) \<in> set live. owned p n \<and> run p n \<inter> F = {})
     \<and> sorted_wrt (\<lambda>(p, n) (q, k). run p n \<inter> run q k = {}) live"

lemma partition_Cons:
  "partition F0 F ((p, n) # live) \<longleftrightarrow> owned p n \<and> run p n \<inter> F = {} \<and> run p n \<subseteq> F0
     \<and> partition F0 (F \<union> run p n) live"
  by (auto simp: partition_def Int_Un_distrib disjoint_iff)

lemma partition_remove:
  "partition F0 F live \<Longrightarrow> (p, n) \<in> set live \<Longrightarrow>
     owned p n \<and> run p n \<inter> F = {} \<and> partition F0 (F \<union> run p n) (remove1 (p, n) live)"
proof (induction live arbitrary: F)
  case (Cons x live)
  obtain q k where x: "x = (q, k)" by (cases x)
  note pc = Cons.prems(1) [unfolded x partition_Cons]
  show ?case
  proof (cases "x = (p, n)")
    case True
    with pc x show ?thesis by simp
  next
    case False
    with Cons.prems(2) have "(p, n) \<in> set live" by simp
    with Cons.IH [of "F \<union> run q k"] pc
    have "owned p n" "run p n \<inter> (F \<union> run q k) = {}" "partition F0 (F \<union> run q k \<union> run p n) (remove1 (p, n) live)" by blast+
    with pc False x show ?thesis by (auto simp: partition_Cons Un_ac)
  qed
qed simp

lemma alloc_step:
  assumes "free s F" and "partition F0 F live" and "n \<noteq> 0" and "alloc s n = Inr (Some p, s')"
  shows "free s' (F - run p n) \<and> partition F0 (F - run p n) ((p, n) # live)"
proof -
  note a = alloc_some [OF assms(1,3,4)]
  moreover have "F - run p n \<union> run p n = F" using a by blast
  moreover have "run p n \<subseteq> F0" using a assms(2) by (auto simp: partition_def)
  ultimately show ?thesis using assms(2) by (simp add: partition_Cons Diff_Int_distrib)
qed

lemma dealloc_step:
  assumes "free s F" and "partition F0 F live" and "(p, n) \<in> set live"
  shows "\<exists>s'. dealloc s p n = Inr s' \<and> free s' (F \<union> run p n) \<and> partition F0 (F \<union> run p n) (remove1 (p, n) live)"
  using partition_remove [OF assms(2,3)] dealloc_some [OF assms(1)] by blast

lemma alloc_dealloc:
  assumes "free s F" and "n \<noteq> 0" and "alloc s n = Inr (Some p, s')"
  shows "\<exists>s''. dealloc s' p n = Inr s'' \<and> free s'' F"
proof -
  note a = alloc_some [OF assms]
  then have "F - run p n \<union> run p n = F" by blast
  with a dealloc_some [of s' "F - run p n" p n] show ?thesis by auto
qed

end

definition buddy_run :: "phys_page_num \<Rightarrow> usize \<Rightarrow> nat set" where
  "buddy_run p n = {unat (ppn_val p) ..< unat (ppn_val p) + 2 ^ pages_to_order n}"

definition buddy_owned :: "phys_page_num \<Rightarrow> usize \<Rightarrow> bool" where
  "buddy_owned p n \<longleftrightarrow> 0 < unat (ppn_val p) \<and> pages_to_order n < MAX_ORDER
     \<and> 2 ^ pages_to_order n dvd unat (ppn_val p) \<and> unat (ppn_val p) + 2 ^ pages_to_order n \<le> 2 ^ 52"

definition has_free :: "buddy_state \<Rightarrow> nat set \<Rightarrow> bool" where
  "has_free s F \<longleftrightarrow> (\<exists>fl. buddy_inv s fl \<and> coalesced (block_set fl) \<and> free_pages fl = F)"

lemma owned_block:
  assumes "buddy_owned p n"
  shows "block_wf (pa_val (pa_from_ppn p)) (pages_to_order n)"
    and "pages (pa_val (pa_from_ppn p)) (pages_to_order n) = buddy_run p n"
  using assms page_block [of "ppn_val p" "pages_to_order n"] by (simp_all add: buddy_owned_def buddy_run_def)

lemma block_owned:
  assumes "block_wf a c" and "pages_to_order n \<le> c"
  shows "buddy_owned (pa_floor (PhysAddr a)) n"
    and "pages a (pages_to_order n) = buddy_run (pa_floor (PhysAddr a)) n"
proof -
  let ?k = "pages_to_order n"
  have w: "block_wf a ?k" using block_wf_smaller [OF assms] .
  note al = pages_alt [OF w]
  have "unat a \<noteq> 0" using w by (simp add: block_wf_def unat_eq_0)
  then have "0 < unat a div 4096" using al by (metis gr0I mult_0)
  moreover have "unat a div 4096 * 4096 + 2 ^ ?k * 4096 \<le> 2 ^ 64"
    using w al by (simp add: block_wf_def power_add)
  ultimately show "buddy_owned (pa_floor (PhysAddr a)) n"
    using w al by (simp add: buddy_owned_def block_wf_def)
  show "pages a ?k = buddy_run (pa_floor (PhysAddr a)) n" by (simp add: buddy_run_def pages_def)
qed

text \<open>The two outcomes of an allocation, in terms of the abstract lists.\<close>

lemma buddy_alloc_cases:
  assumes "buddy_inv s fl"
  obtains (no_block) "buddy_alloc s n = Inr (None, s)"
      "\<forall>j. pages_to_order n \<le> j \<and> j < MAX_ORDER \<longrightarrow> fl ! j = []"
  | (block) p s' fl' where "buddy_alloc s n = Inr (Some p, s')" "buddy_owned p n"
      "buddy_run p n \<subseteq> free_pages fl" "buddy_inv s' fl'" "free_pages fl' = free_pages fl - buddy_run p n"
      "coalesced (block_set fl) \<longrightarrow> coalesced (block_set fl')" "untouched (free_pages fl) (snd s) (snd s')"
proof (cases "pages_to_order n < MAX_ORDER")
  case False
  then have "buddy_alloc s n = Inr (None, s)" by (simp add: buddy_alloc_def)
  then show thesis by (rule no_block) (use False in auto)
next
  case True
  then have al: "buddy_alloc s n = alloc_loop s (pages_to_order n) (pages_to_order n)"
    by (simp add: buddy_alloc_def Let_def)
  from alloc_loop_ok [OF assms order_refl, of "pages_to_order n"] show thesis
  proof (elim disjE conjE exE)
    assume "alloc_loop s (pages_to_order n) (pages_to_order n) = Inr (None, s)"
      "\<forall>j. pages_to_order n \<le> j \<and> j < MAX_ORDER \<longrightarrow> fl ! j = []"
    with al show thesis by (intro no_block) simp_all
  next
    fix a c s' fl'
    assume r: "alloc_loop s (pages_to_order n) (pages_to_order n) = Inr (Some (pa_floor (PhysAddr a)), s')"
      and res: "alloc_result s fl (pages_to_order n) (pages_to_order n) a c s' fl'"
    have mem: "(a, c) \<in> block_set fl" and le: "pages_to_order n \<le> c" using res by (simp_all add: alloc_result_def)
    have w: "blocks_wf fl" using assms by (simp add: buddy_inv_def)
    note bo = block_owned [OF blocks_wf_block [OF w mem] le]
    have "buddy_run (pa_floor (PhysAddr a)) n \<subseteq> free_pages fl"
      using drop_block_facts(3) [OF w mem] pages_mono [OF le, of a] bo(2) by blast
    with r bo al res alloc_result_coalesced [OF assms res] show thesis
      by (intro block [of "pa_floor (PhysAddr a)" s' fl']) (simp_all add: alloc_result_def)
  qed
qed

interpretation frames: page_allocator buddy_alloc buddy_dealloc has_free buddy_run buddy_owned
proof
  fix s F n
  assume "has_free s F"
  then obtain fl where fl: "buddy_inv s fl" "coalesced (block_set fl)" "free_pages fl = F" by (auto simp: has_free_def)
  show "\<exists>r s'. buddy_alloc s n = Inr (r, s')"
    using fl(1) by (cases rule: buddy_alloc_cases [of s fl n]) blast+
  show "s' = s" if "buddy_alloc s n = Inr (None, s')" for s'
    using fl(1) that by (cases rule: buddy_alloc_cases [of s fl n]) auto
  show "buddy_owned p n \<and> buddy_run p n \<subseteq> F \<and> has_free s' (F - buddy_run p n)"
    if "buddy_alloc s n = Inr (Some p, s')" for p s'
    using fl(1)
  proof (cases rule: buddy_alloc_cases [of s fl n])
    case no_block
    with that show ?thesis by simp
  next
    case (block q s1 fl1)
    with that fl show ?thesis unfolding has_free_def by auto
  qed
  show "\<exists>s'. buddy_dealloc s p n = Inr s' \<and> has_free s' (F \<union> buddy_run p n)"
    if "buddy_owned p n" "buddy_run p n \<inter> F = {}" for p
    using dealloc_ok [OF fl(1) refl owned_block(1) [OF that(1)]] owned_block(2) [OF that(1)] that(2) fl(2,3)
    unfolding has_free_def by fastforce
qed

section \<open>Initial state, frames and histories\<close>

lemma buddy_inv_new: "buddy_inv (buddy_new, m) (replicate MAX_ORDER [])"
  by (auto simp: buddy_inv_def linked_def blocks_wf_def buddy_new_def block_set_def disjoint_family_on_def)

lemma free_pages_new [simp]: "free_pages (replicate k []) = {}" "block_set (replicate k []) = {}"
  by (auto simp: free_pages_def block_set_def)

lemma has_free_new: "has_free (buddy_new, m) {}"
  unfolding has_free_def using buddy_inv_new by (intro exI [of _ "replicate MAX_ORDER []"]) (simp add: coalesced_def)

lemma lower_ok_start: "start - 1 \<notin> free_pages fl \<Longrightarrow> lower_ok fl start stop"
  unfolding lower_ok_def
proof clarify
  fix a j
  assume start: "unat a div 4096 + 2 ^ j - 1 \<notin> free_pages fl" and a: "(a, j) \<in> block_set fl"
  have "unat a div 4096 + 2 ^ j - 1 \<in> pages a j"
    unfolding pages_def atLeastLessThan_iff using zero_less_power [of "2::nat" j, OF zero_less_numeral] by linarith
  with a start show "stop < unat a div 4096 + 2 ^ j + 2 ^ j" by (auto simp: free_pages_def)
qed

lemma add_free_region_ok:
  assumes "buddy_inv s fl" and "0 < unat start" and "unat stop \<le> 2 ^ 52"
    and "{unat start ..< unat stop} \<inter> free_pages fl = {}"
  shows "\<exists>s' fl'. add_free_region s start stop = Inr s' \<and> buddy_inv s' fl'
    \<and> free_pages fl' = free_pages fl \<union> {unat start ..< unat stop}
    \<and> (coalesced (block_set fl) \<and> unat start - 1 \<notin> free_pages fl \<and> unat stop \<notin> free_pages fl
        \<longrightarrow> coalesced (block_set fl'))
    \<and> untouched {unat start ..< unat stop} (snd s) (snd s')"
proof (cases "start < stop")
  case False
  then show ?thesis using assms(1)
    by (intro exI [of _ s] exI [of _ fl]) (simp add: add_free_region_def word_less_nat_alt word_le_nat_alt not_less)
next
  case True
  then have le: "unat start \<le> unat stop" by (simp add: word_less_nat_alt)
  from add_region_loop_ok [OF assms(1-3) le assms(4)] lower_ok_start [of "unat start" fl] True show ?thesis
    by (auto simp: add_free_region_def not_le [symmetric])
qed

lemma has_free_frame:
  assumes "has_free (b, m) F" and "\<And>x. unat x div 4096 \<in> F \<Longrightarrow> m' x = m x"
  shows "has_free (b, m') F"
proof -
  obtain fl where fl: "buddy_inv (b, m) fl" "coalesced (block_set fl)" "free_pages fl = F"
    using assms(1) by (auto simp: has_free_def)
  have "hlist m' (free_lists b ! k) (fl ! k)" if k: "k < MAX_ORDER" for k
  proof (rule hlist_frame)
    show "hlist m (free_lists b ! k) (fl ! k)" using fl(1) k by (simp add: buddy_inv_def linked_def)
    show "m' x = m x" if "x \<in> set (fl ! k)" for x
      using assms(2) member_page_free [OF fl(1) k that] fl(3) by blast
  qed
  then have "buddy_inv (b, m') fl" using fl(1) by (simp add: buddy_inv_def linked_def)
  with fl show ?thesis unfolding has_free_def by blast
qed

text \<open>
  Histories of the allocator: requests, releases of live allocations, and arbitrary writes of
  clients to pages they own. \<open>live\<close> records the allocations that have not been released.
\<close>

inductive buddy_reach :: "nat set \<Rightarrow> buddy_state \<Rightarrow> (phys_page_num \<times> usize) list \<Rightarrow> bool" for F0 where
  init: "has_free s F0 \<Longrightarrow> buddy_reach F0 s []"
| alloc: "buddy_reach F0 s live \<Longrightarrow> n \<noteq> 0 \<Longrightarrow> buddy_alloc s n = Inr (Some p, s') \<Longrightarrow>
    buddy_reach F0 s' ((p, n) # live)"
| alloc_fail: "buddy_reach F0 s live \<Longrightarrow> n \<noteq> 0 \<Longrightarrow> buddy_alloc s n = Inr (None, s') \<Longrightarrow> buddy_reach F0 s' live"
| dealloc: "buddy_reach F0 s live \<Longrightarrow> (p, n) \<in> set live \<Longrightarrow> buddy_dealloc s p n = Inr s' \<Longrightarrow>
    buddy_reach F0 s' (remove1 (p, n) live)"
| client_write: "buddy_reach F0 (b, m) live \<Longrightarrow> (p, n) \<in> set live \<Longrightarrow> unat x div 4096 \<in> buddy_run p n \<Longrightarrow>
    buddy_reach F0 (b, m(x := v)) live"

lemma buddy_reach_partition:
  "buddy_reach F0 s live \<Longrightarrow> \<exists>F. has_free s F \<and> frames.partition F0 F live"
proof (induction rule: buddy_reach.induct)
  case (init s)
  then show ?case by (auto simp: frames.partition_def)
next
  case (alloc s live n p s')
  then show ?case using frames.alloc_step by blast
next
  case (alloc_fail s live n s')
  then show ?case using frames.alloc_none by blast
next
  case (dealloc s live p n s')
  then obtain F where F: "has_free s F" "frames.partition F0 F live" by blast
  from frames.dealloc_step [OF this dealloc.hyps(2)] dealloc.hyps(3) show ?case by auto
next
  case (client_write b m live p n x v)
  then obtain F where F: "has_free (b, m) F" "frames.partition F0 F live" by blast
  have "unat x div 4096 \<notin> F" using frames.partition_remove [OF F(2) client_write.hyps(2)] client_write.hyps(3) by blast
  then have "has_free (b, m(x := v)) F" by (intro has_free_frame [OF F(1)]) auto
  with F(2) show ?case by blast
qed

lemma pages_to_order_large: "2 ^ 63 < unat n \<Longrightarrow> pages_to_order n = 64"
proof -
  assume n: "2 ^ 63 < unat n"
  then have m: "unat (n - 1) = unat n - 1" by (simp add: unat_word_minus)
  have "nat_log2 (unat n - 1) = 63"
    using n by (intro nat_log2_unique) (simp_all add: less_imp_diff_less)
  then have "next_power_of_two n = push_bit 64 1"
    using n m by (simp add: next_power_of_two_def word_le_nat_alt ilog2_def)
  also have "\<dots> = 0" by (simp add: push_bit_eq_mult word_unat_eq_iff)
  finally show ?thesis by (simp add: pages_to_order_def trailing_zeros_def)
qed

text \<open>The order of a request is the least one whose block holds it.\<close>

lemma pages_to_order_least:
  assumes "n \<noteq> 0" and "pages_to_order n < MAX_ORDER"
  shows "unat n \<le> 2 ^ pages_to_order n" and "unat n \<le> 2 ^ j \<Longrightarrow> pages_to_order n \<le> j"
proof -
  have n: "0 < unat n" "unat n \<le> 2 ^ 63"
    using assms pages_to_order_large [of n] by (auto simp: unat_gt_0 MAX_ORDER_def not_less [symmetric])
  from unat_next_power_of_two [OF this] obtain k where
    k: "k \<le> 63" "next_power_of_two n = 2 ^ k" "unat n \<le> 2 ^ k" "\<forall>j. unat n \<le> 2 ^ j \<longrightarrow> k \<le> j" by blast
  have u: "unat ((2 :: usize) ^ k) = 2 ^ k" using k(1) by (simp add: unat_pow2)
  then have "(2 :: usize) ^ k \<noteq> 0" by (metis unsigned_0 power_not_zero zero_neq_numeral)
  then have "pages_to_order n = k" using k(2) u by (simp add: pages_to_order_def trailing_zeros_def)
  with k show "unat n \<le> 2 ^ pages_to_order n" "unat n \<le> 2 ^ j \<Longrightarrow> pages_to_order n \<le> j" by simp_all
qed

section \<open>Properties\<close>

lemma coalesced_list_complete:
  assumes "buddy_inv s fl" and "coalesced (block_set fl)"
    and "\<forall>j. k \<le> j \<and> j < MAX_ORDER \<longrightarrow> fl ! j = []" and "k < MAX_ORDER" and "2 ^ k dvd q"
  shows "\<not> {q ..< q + 2 ^ k} \<subseteq> free_pages fl"
proof
  assume sub: "{q ..< q + 2 ^ k} \<subseteq> free_pages fl"
  have w: "blocks_wf fl" using assms(1) by (simp add: buddy_inv_def)
  from coalesced_complete [OF w assms(2,4,5) sub] obtain a j where "(a, j) \<in> block_set fl" "k \<le> j" by blast
  moreover from this have "j < MAX_ORDER" using w by (auto simp: block_set_def blocks_wf_def)
  ultimately show False using assms(3) w by (auto simp: block_set_def)
qed

text \<open>C21. Allocation of \<open>n\<close> pages never panics and never loops. When it succeeds, the returned page
  number is the start of a run of \<open>2 ^ k\<close> free pages aligned to its own size, where \<open>k\<close> is the least
  order with \<open>n \<le> 2 ^ k\<close>; exactly these pages stop being free, the free lists stay well-formed and
  fully merged, and no memory outside the free pages is written. When it fails nothing changes, and
  either the request exceeds the largest block or no aligned run of \<open>2 ^ k\<close> free pages exists.\<close>

theorem buddy_alloc_correct:
  assumes "has_free s F" and "n \<noteq> 0"
  shows "case buddy_alloc s n of
      Inl _ \<Rightarrow> False
    | Inr (None, s') \<Rightarrow> s' = s \<and>
        (\<forall>q. pages_to_order n < MAX_ORDER \<longrightarrow> 2 ^ pages_to_order n dvd q \<longrightarrow> \<not> {q ..< q + 2 ^ pages_to_order n} \<subseteq> F)
    | Inr (Some p, s') \<Rightarrow>
        2 ^ pages_to_order n dvd unat (ppn_val p) \<and> buddy_run p n \<subseteq> F
        \<and> unat n \<le> 2 ^ pages_to_order n \<and> (\<forall>j. unat n \<le> 2 ^ j \<longrightarrow> pages_to_order n \<le> j)
        \<and> has_free s' (F - buddy_run p n) \<and> untouched F (snd s) (snd s')"
proof -
  obtain fl where fl: "buddy_inv s fl" "coalesced (block_set fl)" "free_pages fl = F"
    using assms(1) by (auto simp: has_free_def)
  from fl(1) show ?thesis
  proof (cases rule: buddy_alloc_cases [of s fl n])
    case no_block
    then show ?thesis using coalesced_list_complete [OF fl(1,2) no_block(2)] fl(3) by auto
  next
    case (block p s' fl')
    have "has_free s' (F - buddy_run p n)" using block(4-6) fl(2,3) unfolding has_free_def by blast
    moreover have "pages_to_order n < MAX_ORDER" "2 ^ pages_to_order n dvd unat (ppn_val p)"
      using block(2) by (simp_all add: buddy_owned_def)
    ultimately show ?thesis
      using block(1,3,7) fl(3) pages_to_order_least [OF assms(2)] by simp
  qed
qed

lemma boot_free:
  "\<exists>s. add_free_region (buddy_new, \<lambda>_. 0) 0x80200 0x88000 = Inr s \<and> has_free s {0x80200 ..< 0x88000}"
  using add_free_region_ok [OF buddy_inv_new, of "0x80200" "0x88000" "\<lambda>_. 0"]
  unfolding has_free_def by (auto simp: coalesced_def)

lemma pages_to_order_3_4: "pages_to_order 3 = 2" "pages_to_order 4 = 2"
  by (simp_all add: pages_to_order_def next_power_of_two_def ilog2_def nat_log2.simps trailing_zeros_def
      push_bit_eq_mult nat_ctz.simps word_le_nat_alt)

lemma three_pages:
  "\<exists>s p s'. has_free s {0x80200 ..< 0x88000} \<and> buddy_alloc s 3 = Inr (Some p, s')"
proof -
  obtain s where s: "has_free s {0x80200 ..< 0x88000}" using boot_free by blast
  then obtain fl where fl: "buddy_inv s fl" "coalesced (block_set fl)" "free_pages fl = {0x80200 ..< 0x88000}"
    by (auto simp: has_free_def)
  from fl(1) show ?thesis
  proof (cases rule: buddy_alloc_cases [of s fl 3])
    case no_block
    with coalesced_list_complete [OF fl(1,2), of 2 "0x80200"] fl(3) show ?thesis
      by (simp add: pages_to_order_3_4 MAX_ORDER_def)
  qed (use s in blast)
qed

theorem buddy_alloc_correct_witness:
  "\<exists>s p s'. has_free s {0x80200 ..< 0x88000} \<and> buddy_alloc s 3 = Inr (Some p, s')
     \<and> buddy_run p 3 \<subseteq> {0x80200 ..< 0x88000} \<and> has_free s' ({0x80200 ..< 0x88000} - buddy_run p 3)"
proof -
  obtain s where s: "has_free s {0x80200 ..< 0x88000}" using boot_free by blast
  note c = buddy_alloc_correct [OF s, of 3]
  obtain r s' where r: "buddy_alloc s 3 = Inr (r, s')" using c by (cases "buddy_alloc s 3") auto
  have "r \<noteq> None"
  proof
    assume "r = None"
    with c r have "\<forall>q :: nat. 4 dvd q \<longrightarrow> \<not> {q ..< q + 4} \<subseteq> {0x80200 ..< 0x88000}"
      by (simp add: pages_to_order_3_4 MAX_ORDER_def)
    from this [rule_format, of "0x80200"] show False by simp
  qed
  then obtain p where p: "r = Some p" by blast
  then have "buddy_run p 3 \<subseteq> {0x80200 ..< 0x88000}" "has_free s' ({0x80200 ..< 0x88000} - buddy_run p 3)"
    using c r by simp_all
  with r s p show ?thesis by blast
qed

text \<open>C22. Releasing a run of pages that is not free never panics, terminates, and makes exactly these
  pages free again; the blocks are merged with their buddies as far as possible, and no memory
  outside the pages that are free afterwards is written.\<close>

theorem buddy_dealloc_correct:
  assumes "has_free s F" and "buddy_owned p n" and "buddy_run p n \<inter> F = {}"
  shows "\<exists>s'. buddy_dealloc s p n = Inr s' \<and> has_free s' (F \<union> buddy_run p n)
    \<and> untouched (F \<union> buddy_run p n) (snd s) (snd s')"
proof -
  obtain fl where fl: "buddy_inv s fl" "coalesced (block_set fl)" "free_pages fl = F"
    using assms(1) by (auto simp: has_free_def)
  note ob = owned_block [OF assms(2)]
  from dealloc_ok [OF fl(1) refl ob(1)] ob(2) assms(3) fl(2,3) show ?thesis
    unfolding has_free_def by fastforce
qed

theorem buddy_dealloc_correct_witness:
  "\<exists>s s'. buddy_dealloc s (PhysPageNum 0x80100) 4 = Inr s' \<and> has_free s' ({0x80200 ..< 0x88000} \<union> {0x80100 ..< 0x80104})"
proof -
  obtain s where s: "has_free s {0x80200 ..< 0x88000}" using boot_free by blast
  have o: "buddy_owned (PhysPageNum 0x80100) 4" "buddy_run (PhysPageNum 0x80100) 4 = {0x80100 ..< 0x80104}"
    by (simp_all add: buddy_owned_def buddy_run_def MAX_ORDER_def pages_to_order_3_4)
  from buddy_dealloc_correct [OF s o(1)] o(2)
  have "\<exists>s'. buddy_dealloc s (PhysPageNum 0x80100) 4 = Inr s' \<and> has_free s' ({0x80200 ..< 0x88000} \<union> {0x80100 ..< 0x80104})"
    by auto
  then show ?thesis by blast
qed

text \<open>C23. Allocating and releasing again restores the free lists: every list holds the same blocks as
  before, whatever was split and merged on the way.\<close>

theorem buddy_round_trip:
  assumes "buddy_inv s fl" and "coalesced (block_set fl)" and "n \<noteq> 0" and "buddy_alloc s n = Inr (Some p, s')"
  shows "\<exists>s'' fl''. buddy_dealloc s' p n = Inr s'' \<and> buddy_inv s'' fl'' \<and> (\<forall>k < MAX_ORDER. mset (fl'' ! k) = mset (fl ! k))"
proof -
  have "has_free s (free_pages fl)" using assms(1,2) by (auto simp: has_free_def)
  from frames.alloc_dealloc [OF this assms(3,4)] obtain s'' fl'' where
    d: "buddy_dealloc s' p n = Inr s''" "buddy_inv s'' fl''" "coalesced (block_set fl'')" "free_pages fl'' = free_pages fl"
    by (auto simp: has_free_def)
  have w: "blocks_wf fl" "blocks_wf fl''" using assms(1) d(2) by (simp_all add: buddy_inv_def)
  have "block_set fl'' = block_set fl"
    using coalesced_subset_unique [OF w(1) assms(2) w(2) d(3)] coalesced_subset_unique [OF w(2) d(3) w(1) assms(2)] d(4)
    by (simp add: subset_antisym)
  then have "set (fl'' ! k) = set (fl ! k)" if "k < MAX_ORDER" for k
    using block_set_mem [of s'' fl'' k] block_set_mem [of s fl k] that assms(1) d(2)
    by (auto simp: buddy_inv_def)
  then have "\<forall>k < MAX_ORDER. mset (fl'' ! k) = mset (fl ! k)"
    using w by (simp add: blocks_wf_def set_eq_iff_mset_eq_distinct)
  with d(1,2) show ?thesis by blast
qed

theorem buddy_round_trip_witness:
  "\<exists>s fl s' p s'' fl''. buddy_inv s fl \<and> buddy_alloc s 3 = Inr (Some p, s') \<and> buddy_dealloc s' p 3 = Inr s''
     \<and> buddy_inv s'' fl'' \<and> (\<forall>k < MAX_ORDER. mset (fl'' ! k) = mset (fl ! k))"
proof -
  obtain s p s' where s: "has_free s {0x80200 ..< 0x88000}" "buddy_alloc s 3 = Inr (Some p, s')"
    using three_pages by blast
  then obtain fl where fl: "buddy_inv s fl" "coalesced (block_set fl)" by (auto simp: has_free_def)
  have "(3 :: usize) \<noteq> 0" by simp
  from buddy_round_trip [OF fl this s(2)] fl(1) s(2) show ?thesis by blast
qed

text \<open>Adding a range of pages that are not free terminates without a panic, makes exactly these
  pages free and writes nothing outside them; if the range does not touch free pages at either
  side, no two free buddies are left unmerged.\<close>

theorem add_free_region_correct:
  assumes "buddy_inv s fl" and "0 < unat start" and "unat stop \<le> 2 ^ 52"
    and "{unat start ..< unat stop} \<inter> free_pages fl = {}"
  shows "\<exists>s' fl'. add_free_region s start stop = Inr s' \<and> buddy_inv s' fl'
    \<and> free_pages fl' = free_pages fl \<union> {unat start ..< unat stop}
    \<and> (coalesced (block_set fl) \<and> unat start - 1 \<notin> free_pages fl \<and> unat stop \<notin> free_pages fl
        \<longrightarrow> coalesced (block_set fl'))
    \<and> untouched {unat start ..< unat stop} (snd s) (snd s')"
  using assms by (rule add_free_region_ok)

theorem add_free_region_correct_witness:
  "\<exists>s' fl'. add_free_region (buddy_new, \<lambda>_. 0) 0x80200 0x88000 = Inr s' \<and> buddy_inv s' fl'
     \<and> free_pages fl' = {0x80200 ..< 0x88000}"
  using add_free_region_correct [OF buddy_inv_new, of "0x80200" "0x88000" "\<lambda>_. 0"] by auto

text \<open>C4. In every history of requests, releases of live allocations and client writes to owned pages,
  the initially free pages are split into the free pages and the live allocations: live
  allocations never overlap each other or a free page, no page is lost, and the release of any
  live allocation succeeds.\<close>

theorem buddy_reach_safe:
  assumes "buddy_reach F0 s live"
  shows "\<exists>F. has_free s F \<and> F0 = F \<union> (\<Union>(p, n) \<in> set live. buddy_run p n)
    \<and> (\<forall>(p, n) \<in> set live. buddy_run p n \<inter> F = {} \<and> is_ok (buddy_dealloc s p n))
    \<and> sorted_wrt (\<lambda>(p, n) (q, k). buddy_run p n \<inter> buddy_run q k = {}) live"
proof -
  obtain F where F: "has_free s F" "frames.partition F0 F live"
    using buddy_reach_partition [OF assms] by blast
  have "is_ok (buddy_dealloc s p n)" if "(p, n) \<in> set live" for p n
    using frames.dealloc_step [OF F that] by auto
  with F show ?thesis by (auto simp: frames.partition_def intro!: exI [of _ F])
qed

theorem buddy_reach_safe_witness:
  "\<exists>s p. buddy_reach {0x80200 ..< 0x88000} s [(p, 3)] \<and> is_ok (buddy_dealloc s p 3)"
proof -
  obtain s p s' where s: "has_free s {0x80200 ..< 0x88000}" "buddy_alloc s 3 = Inr (Some p, s')"
    using three_pages by blast
  then have r: "buddy_reach {0x80200 ..< 0x88000} s' [(p, 3)]"
    by (auto intro: buddy_reach.intros)
  have "is_ok (buddy_dealloc s' p 3)" using buddy_reach_safe [OF r] by auto
  with r show ?thesis by blast
qed

lemma order_one: "pages_to_order 1 = 0"
  by (simp add: pages_to_order_def next_power_of_two_def trailing_zeros_def nat_ctz.simps)

lemma one_page:
  assumes "has_free b F" and "q \<in> F"
  shows "\<exists>p b'. buddy_alloc b 1 = Inr (Some p, b')"
proof -
  obtain fl where fl: "buddy_inv b fl" "coalesced (block_set fl)" "free_pages fl = F" using assms(1) by (auto simp: has_free_def)
  from fl(1) show ?thesis
  proof (cases rule: buddy_alloc_cases [of b fl 1])
    case no_block
    with coalesced_list_complete [OF fl(1,2), of 0 q] fl(3) assms(2) show ?thesis by (auto simp: order_one MAX_ORDER_def)
  qed blast
qed

end
