(* ===== verification/Page_Table.thy ===== *)
theory Page_Table
  imports Memblock Buddy "HOL-Library.Sublist"
begin

text \<open>
  Sv39 page tables: \<open>src/mm/pagetable.rs\<close>.

  A table is 512 entries of 8 bytes in memory. While the kernel boots, tables are reached at
  their physical addresses and new ones come from \<open>early_alloc\<close>; later they are reached through
  the linear mapping. Pointers are therefore words, dereferenced directly in the boot functions
  and with \<open>load\<close> and \<open>store\<close> in the others. The specification is the walk that the hardware
  performs, \<open>sv39_walk\<close>, and its effect on addresses, \<open>translate\<close>. The translation cache and its
  flush (\<open>sfence.vma\<close>) are not part of the model.
\<close>

section \<open>Entries\<close>

definition PTE_V :: u8 where "PTE_V = push_bit 0 1"
definition PTE_R :: u8 where "PTE_R = push_bit 1 1"
definition PTE_W :: u8 where "PTE_W = push_bit 2 1"
definition PTE_X :: u8 where "PTE_X = push_bit 3 1"
definition PTE_U :: u8 where "PTE_U = push_bit 4 1"
definition PTE_G :: u8 where "PTE_G = push_bit 5 1"
definition PTE_A :: u8 where "PTE_A = push_bit 6 1"
definition PTE_D :: u8 where "PTE_D = push_bit 7 1"

datatype page_size = FourKB | TwoMB | OneGB

definition pte_new :: "phys_page_num \<Rightarrow> u8 \<Rightarrow> usize" where
  "pte_new ppn flags = shl (ppn_val ppn) 10 OR ucast flags"

definition pte_is_valid :: "usize \<Rightarrow> bool" where
  "pte_is_valid bits \<longleftrightarrow> bits AND ucast PTE_V \<noteq> 0"

definition pte_ppn :: "usize \<Rightarrow> phys_page_num" where
  "pte_ppn bits = PhysPageNum (shr bits 10 AND (shl 1 PPN_WIDTH_SV39 - 1))"

definition pte_flags :: "usize \<Rightarrow> u8" where
  "pte_flags bits = ucast bits"

definition pte_empty :: usize where
  "pte_empty = 0"

definition flags_contain :: "u8 \<Rightarrow> u8 \<Rightarrow> bool" where
  "flags_contain f g \<longleftrightarrow> f AND g = g"

definition pte_is_leaf :: "usize \<Rightarrow> bool" where
  "pte_is_leaf bits \<longleftrightarrow> (let flags = pte_flags bits in
     flags_contain flags PTE_R \<or> flags_contain flags PTE_W \<or> flags_contain flags PTE_X)"

definition target_level :: "page_size \<Rightarrow> nat" where
  "target_level page_size = (case page_size of OneGB \<Rightarrow> 1 | TwoMB \<Rightarrow> 2 | FourKB \<Rightarrow> 3)"

definition entry_ptr :: "usize \<Rightarrow> usize \<Rightarrow> usize res" where
  "entry_ptr entries idx = require (unat idx < 512) Index_out_of_bounds (Inr (entries + idx * 8))"

section \<open>Walks\<close>

function bump_find_loop :: "memory \<Rightarrow> usize list \<Rightarrow> nat \<Rightarrow> nat \<Rightarrow> usize \<Rightarrow> usize option res" where
  "bump_find_loop m idxs target i entries =
     (if i < target
      then rbind (index idxs i) (\<lambda>idx. rbind (entry_ptr entries idx) (\<lambda>pte.
        if i = target - 1 then Inr (Some pte)
        else if \<not> pte_is_valid (load m pte) then Inr None
        else if pte_is_leaf (load m pte) then Inr None
        else (let phys_addr = pa_val (pa_from_ppn (pte_ppn (load m pte)))
              in bump_find_loop m idxs target (i + 1) (phys_to_virt phys_addr))))
      else Inr None)"
  by pat_completeness auto
termination
  by (relation "measure (\<lambda>(m, idxs, target, i, e). target - i)") auto

definition bump_find_pte :: "memory \<Rightarrow> usize \<Rightarrow> virt_page_num \<Rightarrow> page_size \<Rightarrow> usize option res" where
  "bump_find_pte m self vpn psize = bump_find_loop m (indices vpn) (target_level psize) 0 self"

text \<open>A cleared table frame from the boot allocator.\<close>

definition boot_frame :: "memblock \<Rightarrow> memory \<Rightarrow> (phys_page_num \<times> memblock \<times> memory) res" where
  "boot_frame mb m = rbind (early_alloc mb PAGE_SIZE PAGE_SIZE) (\<lambda>(r, mb').
     rbind (unwrap r) (\<lambda>allocated_addr.
       let m' = write_zero_page m (pa_val allocated_addr) in
       rbind (ppn_from_pa allocated_addr) (\<lambda>ppn. Inr (ppn, mb', m'))))"

function bump_create_loop ::
  "memblock \<Rightarrow> memory \<Rightarrow> usize list \<Rightarrow> nat \<Rightarrow> nat \<Rightarrow> usize \<Rightarrow> (usize option \<times> memblock \<times> memory) res" where
  "bump_create_loop mb m idxs target i entries =
     (if i < target
      then rbind (index idxs i) (\<lambda>idx. rbind (entry_ptr entries idx) (\<lambda>pte.
        if i = target - 1 then Inr (Some pte, mb, m)
        else if \<not> pte_is_valid (m pte)
        then rbind (boot_frame mb m) (\<lambda>(ppn, mb', m').
               let m'' = m'(pte := pte_new ppn PTE_V);
                   phys_addr = pa_val (pa_from_ppn (pte_ppn (m'' pte)))
               in bump_create_loop mb' m'' idxs target (i + 1) phys_addr)
        else if pte_is_leaf (m pte)
        then Inl (Panicked ''FATAL: Tried to map a small page inside an existing large page'')
        else (let phys_addr = pa_val (pa_from_ppn (pte_ppn (m pte)))
              in bump_create_loop mb m idxs target (i + 1) phys_addr)))
      else Inr (None, mb, m))"
  by pat_completeness auto
termination
  by (relation "measure (\<lambda>(mb, m, idxs, target, i, e). target - i)") auto

definition bump_find_create_pte ::
  "memblock \<times> memory \<Rightarrow> usize \<Rightarrow> virt_page_num \<Rightarrow> page_size \<Rightarrow> (usize option \<times> memblock \<times> memory) res" where
  "bump_find_create_pte s self vpn psize = (case s of (mb, m) \<Rightarrow>
     bump_create_loop mb m (indices vpn) (target_level psize) 0 self)"

function find_loop :: "memory \<Rightarrow> usize list \<Rightarrow> nat \<Rightarrow> usize \<Rightarrow> usize option res" where
  "find_loop m idxs i entries =
     (if i < 3
      then rbind (index idxs i) (\<lambda>idx. rbind (entry_ptr entries idx) (\<lambda>pte.
        if i = 2 then Inr (Some pte)
        else if \<not> pte_is_valid (load m pte) then Inr None
        else (let phys_addr = pa_val (pa_from_ppn (pte_ppn (load m pte)))
              in find_loop m idxs (i + 1) (phys_to_virt phys_addr))))
      else Inr None)"
  by pat_completeness auto
termination
  by (relation "measure (\<lambda>(m, idxs, i, e). 3 - i)") auto

definition find_pte :: "memory \<Rightarrow> usize \<Rightarrow> virt_page_num \<Rightarrow> usize option res" where
  "find_pte m self vpn = find_loop m (indices vpn) 0 self"

text \<open>
  \<open>find_create_pte\<close> takes frames from the buddy allocator and does not clear them; \<open>frames\<close> is
  the vector of frame trackers of the caller.
\<close>

function create_loop ::
  "buddy_state \<Rightarrow> phys_page_num list \<Rightarrow> usize list \<Rightarrow> nat \<Rightarrow> usize \<Rightarrow> (usize option \<times> buddy_state \<times> phys_page_num list) res" where
  "create_loop s frames idxs i entries =
     (if i < 3
      then rbind (index idxs i) (\<lambda>idx. rbind (entry_ptr entries idx) (\<lambda>pte.
        if i = 2 then Inr (Some pte, s, frames)
        else if \<not> pte_is_valid (load (snd s) pte)
        then rbind (buddy_alloc s 1) (\<lambda>(r, (b', m')). rbind (unwrap r) (\<lambda>ppn.
               let m'' = store m' pte (pte_new ppn PTE_V);
                   phys_addr = pa_val (pa_from_ppn (pte_ppn (load m'' pte)))
               in create_loop (b', m'') (frames @ [ppn]) idxs (i + 1) (phys_to_virt phys_addr)))
        else (let phys_addr = pa_val (pa_from_ppn (pte_ppn (load (snd s) pte)))
              in create_loop s frames idxs (i + 1) (phys_to_virt phys_addr))))
      else Inr (None, s, frames))"
  by pat_completeness auto
termination
  by (relation "measure (\<lambda>(s, f, idxs, i, e). 3 - i)") auto


declare bump_find_loop.simps [simp del] bump_create_loop.simps [simp del]
  find_loop.simps [simp del] create_loop.simps [simp del]

section \<open>Mapping and unmapping\<close>

definition bump_map ::
  "memblock \<times> memory \<Rightarrow> usize \<Rightarrow> virt_page_num \<Rightarrow> phys_page_num \<Rightarrow> u8 \<Rightarrow> page_size \<Rightarrow> (memblock \<times> memory) res" where
  "bump_map s self vpn ppn flags psize =
     rbind (bump_find_create_pte s self vpn psize) (\<lambda>(r, mb, m). rbind (unwrap r) (\<lambda>pte.
       require (\<not> pte_is_valid (m pte)) Assert_failed
         (Inr (mb, m(pte := pte_new ppn (flags OR PTE_V))))))"


definition unmap :: "memory \<Rightarrow> usize \<Rightarrow> virt_page_num \<Rightarrow> page_size \<Rightarrow> memory res" where
  "unmap m self vpn psize =
     rbind (bump_find_pte m self vpn psize) (\<lambda>r. rbind (unwrap r) (\<lambda>pte.
       require (pte_is_valid (load m pte)) Assert_failed (Inr (store m pte pte_empty))))"

definition frame_tracker_new :: "memory \<Rightarrow> phys_page_num \<Rightarrow> memory \<times> phys_page_num" where
  "frame_tracker_new m ppn = (ppn_clear m ppn, ppn)"

definition frame_tracker_drop :: "buddy_state \<Rightarrow> phys_page_num \<Rightarrow> buddy_state res" where
  "frame_tracker_drop s ppn = buddy_dealloc s ppn 1"

section \<open>Entry encoding\<close>

lemma bit_shl [bit_simps]: "n < 64 \<Longrightarrow> bit (shl w n) k \<longleftrightarrow> n \<le> k \<and> k < 64 \<and> bit w (k - n)"
  by (auto simp: shl_def bit_simps)

lemma bit_shr [bit_simps]: "n < 64 \<Longrightarrow> bit (shr w n) k \<longleftrightarrow> bit w (k + n)"
  by (simp add: shr_def bit_drop_bit_eq add.commute)

lemma ppn_mask: "shl 1 PPN_WIDTH_SV39 - 1 = (mask 44 :: usize)"
  by (simp add: shl_def PPN_WIDTH_SV39_def PA_WIDTH_SV39_def PAGE_SIZE_BITS_def mask_eq_exp_minus_1 push_bit_one)

lemma bit_pte_new:
  "bit (pte_new p f) k \<longleftrightarrow> 10 \<le> k \<and> k < 64 \<and> bit (ppn_val p) (k - 10) \<or> bit f k"
  by (auto simp: pte_new_def bit_simps dest: bit_imp_le_length)

lemma pte_ppn_new:
  assumes "unat (ppn_val p) < 2 ^ 44"
  shows "pte_ppn (pte_new p f) = p"
proof -
  have "shr (pte_new p f) 10 AND mask 44 = ppn_val p"
  proof (rule bit_word_eqI)
    fix n
    have "\<not> bit f (n + 10)" by (auto dest: bit_imp_le_length)
    moreover have "bit (ppn_val p) n \<Longrightarrow> n < 44" using bit_small [OF assms, of n] by (meson not_less)
    ultimately show "bit (shr (pte_new p f) 10 AND mask 44) n \<longleftrightarrow> bit (ppn_val p) n"
      by (auto simp: bit_simps bit_pte_new)
  qed
  then show ?thesis by (simp add: pte_ppn_def ppn_mask)
qed

lemma pte_flags_new: "pte_flags (pte_new p f) = f"
  unfolding pte_flags_def by (rule bit_word_eqI) (auto simp: bit_simps bit_pte_new)

lemma pte_is_valid_bit: "pte_is_valid e \<longleftrightarrow> bit e 0"
  by (simp add: pte_is_valid_def PTE_V_def and_one_eq mod_2_eq_odd bit_0)

lemma flags_contain_bit: "k < 8 \<Longrightarrow> flags_contain f (push_bit k 1) \<longleftrightarrow> bit f k"
proof -
  assume k: "k < 8"
  have b: "bit (push_bit k 1 :: u8) j \<longleftrightarrow> j = k" for j using k by (auto simp: bit_simps)
  show ?thesis unfolding flags_contain_def
  proof
    assume "f AND push_bit k 1 = push_bit k 1"
    then have "bit (f AND push_bit k 1) k" using b by simp
    then show "bit f k" by (simp add: bit_and_iff)
  next
    assume "bit f k"
    then show "f AND push_bit k 1 = push_bit k 1"
      by (intro bit_word_eqI) (simp only: bit_and_iff b, blast)
  qed
qed

lemma flags_contain_RWX:
  "flags_contain f PTE_R \<longleftrightarrow> bit f 1" "flags_contain f PTE_W \<longleftrightarrow> bit f 2" "flags_contain f PTE_X \<longleftrightarrow> bit f 3"
  unfolding PTE_R_def PTE_W_def PTE_X_def by (rule flags_contain_bit, simp)+

text \<open>Flags that make an entry a leaf: some of read, write and execute.\<close>

definition leaf_flags :: "u8 \<Rightarrow> bool" where
  "leaf_flags f \<longleftrightarrow> flags_contain f PTE_R \<or> flags_contain f PTE_W \<or> flags_contain f PTE_X"

lemma pte_is_leaf_new: "pte_is_leaf (pte_new p f) \<longleftrightarrow> leaf_flags f"
  by (simp add: pte_is_leaf_def pte_flags_new leaf_flags_def)

lemma pte_is_valid_new: "pte_is_valid (pte_new p f) \<longleftrightarrow> bit f 0"
  by (simp add: pte_is_valid_bit bit_pte_new)

lemma bit_PTE_V [simp]: "bit PTE_V 0" "bit (f OR PTE_V) 0"
  by (simp_all add: PTE_V_def bit_or_iff)

lemma leaf_flags_V: "leaf_flags (f OR PTE_V) \<longleftrightarrow> leaf_flags f" "\<not> leaf_flags PTE_V"
  unfolding leaf_flags_def flags_contain_RWX by (simp_all add: PTE_V_def bit_or_iff bit_1_iff)

lemma invalid_empty [simp]: "\<not> pte_is_valid 0"
  by (simp add: pte_is_valid_bit)

section \<open>Slots and tables\<close>

definition slot :: "usize \<Rightarrow> nat \<Rightarrow> usize" where
  "slot t i = t + of_nat i * 8"

abbreviation page_aligned :: "usize \<Rightarrow> bool" where
  "page_aligned t \<equiv> 4096 dvd unat t"

lemma aligned_bound:
  assumes "page_aligned t"
  shows "unat t + 4096 \<le> 18446744073709551616"
proof -
  obtain q where q: "unat t = 4096 * q" using assms by blast
  have "4096 * q < 4096 * 4503599627370496" using unat_usize_less [of t] q by simp
  then have "q + 1 \<le> 4503599627370496" by simp
  then show ?thesis using q by simp
qed

lemma unat_slot:
  assumes "page_aligned t" and "i < 512"
  shows "unat (slot t i) = unat t + 8 * i"
proof -
  have "unat (of_nat i * 8 :: usize) = i * 8" using assms(2) by (simp add: unat_word_ariths unat_of_nat)
  then show ?thesis unfolding slot_def
    using aligned_bound [OF assms(1)] assms(2) by (subst unat_word_plus) simp_all
qed

lemma slot_inj:
  assumes "page_aligned t" "page_aligned u" "i < 512" "j < 512" "slot t i = slot u j"
  shows "t = u \<and> i = j"
proof -
  have e: "unat t + 8 * i = unat u + 8 * j" using assms unat_slot by metis
  obtain p q where pq: "unat t = 4096 * p" "unat u = 4096 * q" using assms(1,2) by blast
  have "p = (4096 * p + 8 * i) div 4096" "q = (4096 * q + 8 * j) div 4096" using assms(3,4) by simp_all
  then have "p = q" using e pq by metis
  then show ?thesis using e pq by (simp add: word_unat_eq_iff)
qed

lemma slot_in_page:
  assumes "page_aligned t" and "i < 512"
  shows "unat (slot t i) \<in> {unat t ..< unat t + 4096}"
  using unat_slot [OF assms] assms(2) by simp

abbreviation pte_table :: "usize \<Rightarrow> usize" where
  "pte_table e \<equiv> pa_val (pa_from_ppn (pte_ppn e))"

lemma unat_pte_ppn: "unat (ppn_val (pte_ppn e)) < 2 ^ 44"
  unfolding pte_ppn_def ppn_mask phys_page_num.sel unat_and_mask by (rule mod_less_divisor) simp

lemma pte_table_aligned: "page_aligned (pte_table e)"
  using unat_pte_ppn [of e] by simp

text \<open>A path is a list of indices from the root; \<open>table_at\<close> is the table it leads to.\<close>

fun table_at :: "memory \<Rightarrow> usize \<Rightarrow> nat list \<Rightarrow> usize option" where
  "table_at m t [] = Some t"
| "table_at m t (i # is) = (let e = m (slot t i) in
     if pte_is_valid e \<and> \<not> pte_is_leaf e then table_at m (pte_table e) is else None)"

definition step_table :: "memory \<Rightarrow> usize \<Rightarrow> nat \<Rightarrow> usize option" where
  "step_table m t i = (let e = m (slot t i) in
     if pte_is_valid e \<and> \<not> pte_is_leaf e then Some (pte_table e) else None)"

lemma table_at_append: "table_at m t (p @ q) = Option.bind (table_at m t p) (\<lambda>u. table_at m u q)"
  by (induction p arbitrary: t) (auto simp: Let_def)

lemma table_at_snoc: "table_at m t (p @ [i]) = Option.bind (table_at m t p) (\<lambda>u. step_table m u i)"
  by (simp add: table_at_append step_table_def Let_def cong: if_cong)

definition path_ok :: "nat list \<Rightarrow> bool" where
  "path_ok p \<longleftrightarrow> length p \<le> 2 \<and> (\<forall>i \<in> set p. i < 512)"

definition entry_path :: "nat list \<Rightarrow> bool" where
  "entry_path p \<longleftrightarrow> p \<noteq> [] \<and> length p \<le> 3 \<and> (\<forall>i \<in> set p. i < 512)"

definition pte_at :: "memory \<Rightarrow> usize \<Rightarrow> nat list \<Rightarrow> usize option" where
  "pte_at m r Q = (case table_at m r (butlast Q) of
     None \<Rightarrow> None
   | Some t \<Rightarrow> (let e = m (slot t (last Q)) in if pte_is_valid e then Some e else None))"

definition leaf_at :: "memory \<Rightarrow> usize \<Rightarrow> nat list \<Rightarrow> usize option" where
  "leaf_at m r Q = (case pte_at m r Q of None \<Rightarrow> None | Some e \<Rightarrow> if pte_is_leaf e then Some e else None)"

text \<open>No table is reached by two paths.\<close>

definition tables_wf :: "memory \<Rightarrow> usize \<Rightarrow> bool" where
  "tables_wf m r \<longleftrightarrow> page_aligned r \<and>
     (\<forall>p q a. path_ok p \<longrightarrow> path_ok q \<longrightarrow> table_at m r p = Some a \<longrightarrow> table_at m r q = Some a \<longrightarrow> p = q)"

lemma table_at_aligned: "page_aligned r \<Longrightarrow> table_at m r p = Some a \<Longrightarrow> page_aligned a"
proof (induction p arbitrary: r)
  case (Cons i p)
  then show ?case using pte_table_aligned by (auto simp: Let_def split: if_splits)
qed simp

lemma path_ok_snoc [simp]: "path_ok (p @ [i]) \<longleftrightarrow> length p \<le> 1 \<and> i < 512 \<and> (\<forall>j \<in> set p. j < 512)"
  by (auto simp: path_ok_def)

lemma path_ok_prefix: "path_ok (p @ q) \<Longrightarrow> path_ok p"
  by (auto simp: path_ok_def)

text \<open>
  A change of memory that leaves all table slots but one alone keeps every table that is not
  reached through that slot.
\<close>

definition same_slots :: "memory \<Rightarrow> memory \<Rightarrow> usize \<Rightarrow> nat list \<Rightarrow> nat \<Rightarrow> bool" where
  "same_slots m m' r p i \<longleftrightarrow> (\<forall>q a j. path_ok q \<longrightarrow> table_at m r q = Some a \<longrightarrow> j < 512 \<longrightarrow> (q, j) \<noteq> (p, i) \<longrightarrow>
     m' (slot a j) = m (slot a j))"

lemma same_slotsD:
  "same_slots m m' r p i \<Longrightarrow> path_ok q \<Longrightarrow> table_at m r q = Some a \<Longrightarrow> j < 512 \<Longrightarrow> (q, j) \<noteq> (p, i) \<Longrightarrow>
     m' (slot a j) = m (slot a j)"
  by (simp add: same_slots_def)

lemma table_at_frame:
  assumes "same_slots m m' r p i" and "path_ok q" and "\<not> prefix (p @ [i]) q"
  shows "table_at m' r q = table_at m r q"
  using assms(2,3)
proof (induction q rule: rev_induct)
  case (snoc j q)
  have q: "path_ok q" "j < 512" "\<not> prefix (p @ [i]) q" "(q, j) \<noteq> (p, i)"
    using snoc.prems path_ok_prefix [of q "[j]"] by (auto dest: prefix_prefix)
  have "step_table m' a j = step_table m a j" if "table_at m r q = Some a" for a
    using same_slotsD [OF assms(1) q(1) that q(2,4)] by (simp add: step_table_def)
  then show ?case using snoc.IH [OF q(1,3)] by (auto simp: table_at_snoc split: Option.bind_splits)
qed simp

lemma pte_at_snoc:
  "pte_at m r (p @ [i]) = (case table_at m r p of None \<Rightarrow> None
     | Some t \<Rightarrow> if pte_is_valid (m (slot t i)) then Some (m (slot t i)) else None)"
  by (auto simp: pte_at_def Let_def split: option.splits)

lemma entry_path_snoc [simp]: "entry_path (p @ [i]) \<longleftrightarrow> path_ok p \<and> i < 512"
  by (auto simp: entry_path_def path_ok_def)

lemma pte_at_frame:
  assumes "same_slots m m' r p i" and "entry_path Q" and "\<not> prefix (p @ [i]) Q"
  shows "pte_at m' r Q = pte_at m r Q"
proof -
  obtain q j where Q: "Q = q @ [j]" using assms(2) by (cases Q rule: rev_cases) (auto simp: entry_path_def)
  have q: "path_ok q" "j < 512" "\<not> prefix (p @ [i]) q" "(q, j) \<noteq> (p, i)"
    using assms(2,3) Q by (auto dest: prefix_prefix)
  have "table_at m' r q = table_at m r q" by (rule table_at_frame [OF assms(1) q(1,3)])
  then show ?thesis using same_slotsD [OF assms(1) q(1) _ q(2,4)] Q by (auto simp: pte_at_snoc split: option.splits)
qed

lemma table_at_ext_None:
  "table_at m r q = None \<Longrightarrow> prefix q q' \<Longrightarrow> table_at m r q' = None"
  by (auto simp: prefix_def table_at_append)

lemma pte_at_ext_None:
  assumes "table_at m r q = None" and "prefix q Q" and "Q \<noteq> q"
  shows "pte_at m r Q = None"
proof -
  have "prefix q (butlast Q)" using assms(2,3) by (metis append_butlast_last_id prefix_bot.extremum prefix_order.antisym prefix_snoc prefix_Nil)
  then show ?thesis using table_at_ext_None [OF assms(1)] by (simp add: pte_at_def)
qed

lemma write_zero_page_eq:
  assumes "page_aligned f"
  shows "write_zero_page m f x = (if unat x \<in> {unat f ..< unat f + 4096} then 0 else m x)"
proof -
  have "unat (x - f) < 4096 \<longleftrightarrow> unat x \<in> {unat f ..< unat f + 4096}"
  proof (cases "unat f \<le> unat x")
    case True
    then show ?thesis by (simp add: unat_word_minus less_diff_conv2 add.commute)
  next
    case False
    then have "unat (x - f) = unat x + 2 ^ 64 - unat f" by (simp add: unat_sub_if')
    then show ?thesis using False aligned_bound [OF assms] by simp
  qed
  then show ?thesis by (simp add: write_zero_page_def)
qed

section \<open>Frames for new tables\<close>

definition frame_bytes :: "phys_page_num \<Rightarrow> nat set" where
  "frame_bytes p = {unat (ppn_val p) * 4096 ..< unat (ppn_val p) * 4096 + 4096}"

abbreviation table_bytes :: "usize \<Rightarrow> nat set" where
  "table_bytes a \<equiv> {unat a ..< unat a + 4096}"

text \<open>
  What the walk relies on when it takes a frame for a table: the frame comes out of the
  available memory, is cleared, and nothing else changes.
\<close>

locale frame_source =
  fixes take_frame :: "'s \<Rightarrow> memory \<Rightarrow> (phys_page_num \<times> 's \<times> memory) res"
    and avail :: "'s \<Rightarrow> nat set"
    and ok :: "'s \<Rightarrow> bool"
  assumes take_spec: "ok s \<Longrightarrow> take_frame s m = Inr (ppn, s', m') \<Longrightarrow>
    ok s' \<and> avail s' = avail s - frame_bytes ppn \<and> frame_bytes ppn \<subseteq> avail s
    \<and> unat (ppn_val ppn) < 2 ^ 44 \<and> m' = write_zero_page m (pa_val (pa_from_ppn ppn))"
begin

definition pt_inv :: "'s \<Rightarrow> memory \<Rightarrow> usize \<Rightarrow> bool" where
  "pt_inv s m r \<longleftrightarrow> ok s \<and> tables_wf m r
     \<and> (\<forall>p a. path_ok p \<longrightarrow> table_at m r p = Some a \<longrightarrow> table_bytes a \<inter> avail s = {})"

lemma pt_invD:
  assumes "pt_inv s m r"
  shows "ok s" "tables_wf m r" "page_aligned r"
    and "\<And>p a. path_ok p \<Longrightarrow> table_at m r p = Some a \<Longrightarrow> page_aligned a \<and> table_bytes a \<inter> avail s = {}"
  using assms table_at_aligned by (auto simp: pt_inv_def tables_wf_def)

lemma fresh_table:
  assumes inv: "pt_inv s m r" and t: "table_at m r p = Some t" and p: "path_ok (p @ [i])"
    and new: "\<not> pte_is_valid (m (slot t i))" and tk: "take_frame s m = Inr (ppn, s', m1)"
  defines "f \<equiv> pa_val (pa_from_ppn ppn)" and "m2 \<equiv> m1(slot t i := pte_new ppn PTE_V)"
  shows "page_aligned f" and "table_bytes f = frame_bytes ppn"
    and "same_slots m m2 r p i" and "m2 (slot t i) = pte_new ppn PTE_V"
    and "\<And>j. j < 512 \<Longrightarrow> m2 (slot f j) = 0"
    and "\<And>q a. path_ok q \<Longrightarrow> table_at m r q = Some a \<Longrightarrow> a \<noteq> f"
proof -
  note tk' = take_spec [OF pt_invD(1) [OF inv] tk]
  have uf: "unat f = unat (ppn_val ppn) * 4096" using tk' by (simp add: f_def)
  then show al: "page_aligned f" by simp
  show fb: "table_bytes f = frame_bytes ppn" by (simp add: uf frame_bytes_def)
  have p': "path_ok p" "i < 512" using p path_ok_prefix [of p "[i]"] by auto
  have m1: "m1 x = (if unat x \<in> table_bytes f then 0 else m x)" for x
    using tk' write_zero_page_eq [OF al] by (simp add: f_def)
  have apart: "page_aligned a \<and> table_bytes a \<inter> table_bytes f = {}"
    if "path_ok q" "table_at m r q = Some a" for q a
    using pt_invD(4) [OF inv that] tk' fb by blast
  have out: "unat (slot a j) \<notin> table_bytes f" if "path_ok q" "table_at m r q = Some a" "j < 512" for q a j
    using apart [OF that(1,2)] slot_in_page [of a j] that(3) by blast
  show "same_slots m m2 r p i" unfolding same_slots_def
  proof (intro allI impI)
    fix q a j
    assume q: "path_ok q" "table_at m r q = Some a" "j < 512" "(q, j) \<noteq> (p, i)"
    have "slot a j \<noteq> slot t i"
    proof
      assume "slot a j = slot t i"
      then have "a = t" "j = i" using slot_inj apart [OF q(1,2)] apart [OF p'(1) t] q(3) p'(2) by blast+
      then have "q = p" using pt_invD(2) [OF inv] q(1,2) p'(1) t by (auto simp: tables_wf_def)
      with \<open>j = i\<close> q(4) show False by simp
    qed
    then show "m2 (slot a j) = m (slot a j)" using out [OF q(1-3)] by (auto simp: m2_def m1)
  qed
  show "m2 (slot t i) = pte_new ppn PTE_V" by (simp add: m2_def)
  show "m2 (slot f j) = 0" if "j < 512" for j
  proof -
    have "unat (slot f j) \<in> table_bytes f" using slot_in_page [OF al that] .
    moreover from this have "slot f j \<noteq> slot t i" using out [OF p'(1) t p'(2)] by metis
    ultimately show ?thesis by (simp add: m2_def m1)
  qed
  show "a \<noteq> f" if "path_ok q" "table_at m r q = Some a" for q a
    using apart [OF that] by auto
qed

lemma new_table:
  assumes inv: "pt_inv s m r" and t: "table_at m r p = Some t" and p: "path_ok (p @ [i])"
    and new: "\<not> pte_is_valid (m (slot t i))" and tk: "take_frame s m = Inr (ppn, s', m1)"
  defines "m2 \<equiv> m1(slot t i := pte_new ppn PTE_V)"
  shows "pt_inv s' m2 r" and "table_at m2 r (p @ [i]) = Some (pa_val (pa_from_ppn ppn))"
    and "\<And>Q. entry_path Q \<Longrightarrow> Q \<noteq> p @ [i] \<Longrightarrow> pte_at m2 r Q = pte_at m r Q"
    and "\<And>Q. entry_path Q \<Longrightarrow> leaf_at m2 r Q = leaf_at m r Q"
proof -
  define f where "f = pa_val (pa_from_ppn ppn)"
  note tk' = take_spec [OF pt_invD(1) [OF inv] tk]
  note fr = fresh_table [OF inv t p new tk, folded m2_def f_def]
  have p': "path_ok p" "i < 512" using p path_ok_prefix [of p "[i]"] by auto
  have e: "pte_is_valid (m2 (slot t i))" "\<not> pte_is_leaf (m2 (slot t i))" "pte_table (m2 (slot t i)) = f"
    using tk' by (simp_all add: fr(4) pte_is_valid_new pte_is_leaf_new leaf_flags_V pte_ppn_new f_def)
  have "\<not> prefix (p @ [i]) p" by (auto dest: prefix_length_le)
  then have "table_at m2 r p = Some t" using table_at_frame [OF fr(3) p'(1)] t by simp
  then have at: "table_at m2 r (p @ [i]) = Some f" using e by (simp add: table_at_snoc step_table_def)
  then show "table_at m2 r (p @ [i]) = Some (pa_val (pa_from_ppn ppn))" by (simp add: f_def)
  have old: "table_at m r (p @ [i]) = None" using t new by (simp add: table_at_snoc step_table_def)
  have beyond: "table_at m2 r ((p @ [i]) @ j # js) = None" if "j < 512" for j js
    using fr(5) [OF that] by (simp only: table_at_append [of m2 r "p @ [i]"] at) simp
  have tab: "table_at m2 r q = (if q = p @ [i] then Some f else table_at m r q)" if "path_ok q" for q
  proof (cases "prefix (p @ [i]) q")
    case False
    then show ?thesis using table_at_frame [OF fr(3) that] by auto
  next
    case True
    then obtain js where js: "q = (p @ [i]) @ js" by (auto simp: prefix_def)
    show ?thesis
    proof (cases js)
      case Nil
      then show ?thesis using js at by simp
    next
      case (Cons j ks)
      then show ?thesis using js that beyond [of j ks] table_at_ext_None [OF old True] by (auto simp: path_ok_def)
    qed
  qed
  have "tables_wf m2 r" unfolding tables_wf_def
  proof (intro conjI allI impI)
    show "page_aligned r" using pt_invD(3) [OF inv] .
    fix q q' a
    assume q: "path_ok q" "path_ok q'" "table_at m2 r q = Some a" "table_at m2 r q' = Some a"
    then show "q = q'"
      using tab fr(6) pt_invD(2) [OF inv] unfolding tables_wf_def by (metis option.inject)
  qed
  moreover have "table_bytes a \<inter> avail s' = {}" if "path_ok q" "table_at m2 r q = Some a" for q a
  proof (cases "q = p @ [i]")
    case True
    then have "a = f" using tab [OF that(1)] that(2) by simp
    then show ?thesis using fr(2) tk' by blast
  next
    case False
    then have "table_at m r q = Some a" using tab [OF that(1)] that(2) by simp
    from pt_invD(4) [OF inv that(1) this] show ?thesis using tk' by blast
  qed
  ultimately show "pt_inv s' m2 r" using tk' unfolding pt_inv_def by blast
  show pt: "pte_at m2 r Q = pte_at m r Q" if Q: "entry_path Q" "Q \<noteq> p @ [i]" for Q
  proof (cases "prefix (p @ [i]) Q")
    case False
    then show ?thesis using pte_at_frame [OF fr(3) Q(1)] by simp
  next
    case True
    then obtain js where js: "Q = (p @ [i]) @ js" "js \<noteq> []" using Q(2) by (auto simp: prefix_def)
    then obtain ks j where ks: "Q = ((p @ [i]) @ ks) @ [j]" by (metis append_assoc rev_exhaust)
    have j: "j < 512" "\<forall>k \<in> set ks. k < 512" using Q(1) ks by (auto simp: entry_path_def)
    have "pte_at m2 r Q = None"
    proof (cases ks)
      case Nil
      then show ?thesis using ks at fr(5) [OF j(1)] pte_at_snoc [of m2 r "p @ [i]" j] by simp
    next
      case (Cons k ks')
      then show ?thesis using ks beyond [of k ks'] j pte_at_snoc [of m2 r "(p @ [i]) @ ks" j] by simp
    qed
    then show ?thesis using pte_at_ext_None [OF old True Q(2)] by simp
  qed
  show "leaf_at m2 r Q = leaf_at m r Q" if Q: "entry_path Q" for Q
  proof (cases "Q = p @ [i]")
    case True
    have "pte_at m2 r Q = Some (m2 (slot t i))" "pte_at m r Q = None"
      using True \<open>table_at m2 r p = Some t\<close> e t new by (simp_all add: pte_at_snoc)
    then show ?thesis using e by (simp add: leaf_at_def)
  qed (use pt [OF Q] in \<open>simp add: leaf_at_def\<close>)
qed

end

context frame_source
begin

text \<open>Storing a leaf or an empty entry creates no table.\<close>

lemma entry_write:
  assumes inv: "pt_inv s m r" and t: "table_at m r p = Some t" and p: "path_ok p" "i < 512"
    and v: "pte_is_valid v \<longrightarrow> pte_is_leaf v"
  defines "m' \<equiv> m(slot t i := v)"
  shows "pt_inv s m' r" and "pte_at m' r (p @ [i]) = (if pte_is_valid v then Some v else None)"
    and "\<And>Q. entry_path Q \<Longrightarrow> \<not> prefix (p @ [i]) Q \<Longrightarrow> pte_at m' r Q = pte_at m r Q"
    and "\<And>Q. entry_path Q \<Longrightarrow> prefix (p @ [i]) Q \<Longrightarrow> Q \<noteq> p @ [i] \<Longrightarrow> pte_at m' r Q = None"
proof -
  have same: "same_slots m m' r p i" unfolding same_slots_def
  proof (intro allI impI)
    fix q a j
    assume q: "path_ok q" "table_at m r q = Some a" "j < 512" "(q, j) \<noteq> (p, i)"
    have "slot a j \<noteq> slot t i"
      using slot_inj [of a t j i] pt_invD(4) [OF inv q(1,2)] pt_invD(4) [OF inv p(1) t] q p t pt_invD(2) [OF inv]
      by (auto simp: tables_wf_def)
    then show "m' (slot a j) = m (slot a j)" by (simp add: m'_def)
  qed
  have "\<not> prefix (p @ [i]) p" by (auto dest: prefix_length_le)
  then have tp: "table_at m' r p = Some t" using table_at_frame [OF same p(1)] t by simp
  then have none: "table_at m' r (p @ [i]) = None"
    using v by (simp add: table_at_snoc step_table_def m'_def Let_def)
  have tab: "table_at m r q = Some a" if "path_ok q" "table_at m' r q = Some a" for q a
  proof -
    have "\<not> prefix (p @ [i]) q" using table_at_ext_None [OF none] that(2) by auto
    then show ?thesis using table_at_frame [OF same that(1)] that(2) by simp
  qed
  show "pt_inv s m' r"
    using pt_invD [OF inv] tab unfolding pt_inv_def tables_wf_def by blast
  show "pte_at m' r (p @ [i]) = (if pte_is_valid v then Some v else None)"
    using tp by (simp add: pte_at_snoc m'_def)
  show "pte_at m' r Q = pte_at m r Q" if "entry_path Q" "\<not> prefix (p @ [i]) Q" for Q
    using pte_at_frame [OF same that] .
  show "pte_at m' r Q = None" if "entry_path Q" "prefix (p @ [i]) Q" "Q \<noteq> p @ [i]" for Q
    using pte_at_ext_None [OF none that(2,3)] .
qed

end

section \<open>The boot allocator as a source of frames\<close>

definition boot_ok :: "memblock \<Rightarrow> bool" where
  "boot_ok mb \<longleftrightarrow> mb_inv mb \<and> covers (mb_available mb) \<subseteq> {4096 ..< 2 ^ 56}"

lemma PAGE_SIZE_pow: "PAGE_SIZE = 2 ^ 12"
  by (simp add: PAGE_SIZE_def)

lemma boot_request_ok: "boot_ok mb \<Longrightarrow> alloc_request_ok mb PAGE_SIZE 12"
proof -
  assume ok: "boot_ok mb"
  have "4096 \<le> rhi r" if "r \<in> set (ra_list (mb_available mb))" for r
  proof -
    have "region_wf r" using ok that by (auto simp: boot_ok_def mb_inv_def ra_inv_def regions_wf_def)
    then have "rlo r \<in> bytes r" by (simp add: bytes_def region_wf_def)
    then have "rlo r \<in> covers (mb_available mb)" using that by (auto simp: covers_def)
    then show ?thesis using ok by (fastforce simp: boot_ok_def)
  qed
  then show ?thesis by (simp add: alloc_request_ok_def PAGE_SIZE_def)
qed

lemma early_alloc_page:
  assumes "boot_ok mb" and "early_alloc mb PAGE_SIZE PAGE_SIZE = Inr (Some p, mb')"
  shows "4096 dvd unat (pa_val p)" and "table_bytes (pa_val p) \<subseteq> covers (mb_available mb)"
    and "covers (mb_available mb') = covers (mb_available mb) - table_bytes (pa_val p)" and "boot_ok mb'"
proof -
  have inv: "mb_inv mb" using assms(1) by (simp add: boot_ok_def)
  have ret: "early_alloc_loop mb PAGE_SIZE (2 ^ 12) (ra_count (mb_available mb)) = Inr (Some p, mb')"
    using assms(2) by (simp add: early_alloc_def PAGE_SIZE_pow)
  from early_alloc_loop_spec [OF inv boot_request_ok [OF assms(1)] order_refl ret]
  have sp: "2 ^ 12 dvd unat (pa_val p)" "span p PAGE_SIZE \<subseteq> covers (mb_available mb)" "no_wrap p PAGE_SIZE"
    "mb_reserved mb' = mb_reserved mb" "remove_region (mb_available mb) p PAGE_SIZE = Inr (mb_available mb')"
    "add_region (mb_allocated mb) p PAGE_SIZE = Inr (mb_allocated mb')" by simp_all
  show "4096 dvd unat (pa_val p)" using sp(1) by simp
  have span: "span p PAGE_SIZE = table_bytes (pa_val p)" by (simp add: span_def PAGE_SIZE_def)
  then show "table_bytes (pa_val p) \<subseteq> covers (mb_available mb)" using sp(2) by simp
  have "ra_inv (mb_available mb)" "ra_inv (mb_allocated mb)" using inv by (simp_all add: mb_inv_def)
  note tr = region_store.transfer [OF this sp(3,5,6)]
  then show cov: "covers (mb_available mb') = covers (mb_available mb) - table_bytes (pa_val p)"
    using span by simp
  have "mb_inv mb'" using tr inv sp(4) by (simp add: mb_inv_def)
  then show "boot_ok mb'" using assms(1) cov by (auto simp: boot_ok_def)
qed

lemma boot_frame_eq:
  assumes "boot_ok mb"
  shows "boot_frame mb m = (case early_alloc mb PAGE_SIZE PAGE_SIZE of
      Inl f \<Rightarrow> Inl f
    | Inr (None, _) \<Rightarrow> Inl Unwrap_none
    | Inr (Some p, mb') \<Rightarrow> Inr (pa_floor p, mb', write_zero_page m (pa_val p)))"
  using early_alloc_page(1) [OF assms]
  by (auto simp: boot_frame_def ppn_from_pa_def Let_def rbind_def require_def mod_eq_0_iff_dvd
      split: sum.splits option.splits)

interpretation boot_frames: frame_source boot_frame "\<lambda>mb. covers (mb_available mb)" boot_ok
proof
  fix s m ppn s' m'
  assume ok: "boot_ok s" and tk: "boot_frame s m = Inr (ppn, s', m')"
  then obtain p where p: "early_alloc s PAGE_SIZE PAGE_SIZE = Inr (Some p, s')" "ppn = pa_floor p"
    "m' = write_zero_page m (pa_val p)"
    unfolding boot_frame_eq [OF ok] by (auto split: sum.splits option.splits)
  note ea = early_alloc_page [OF ok p(1)]
  obtain a where a: "p = PhysAddr a" by (cases p)
  have "unat a \<in> table_bytes (pa_val p)" using a by simp
  then have "unat a \<in> {4096 ..< 2 ^ 56}" using ea(2) ok unfolding boot_ok_def by blast
  then have lt: "unat a div 4096 < 2 ^ 44" by (simp add: less_mult_imp_div_less)
  have ua: "unat a div 4096 * 4096 = unat a" using ea(1) a by simp
  have "unat (pa_val (pa_from_ppn ppn)) = unat a" using lt ua a p(2) by simp
  then have pa: "pa_val (pa_from_ppn ppn) = a" by (simp add: word_unat_eq_iff)
  have "frame_bytes ppn = table_bytes a" using ua a p(2) by (simp add: frame_bytes_def)
  then show "boot_ok s' \<and> covers (mb_available s') = covers (mb_available s) - frame_bytes ppn
      \<and> frame_bytes ppn \<subseteq> covers (mb_available s) \<and> unat (ppn_val ppn) < 2 ^ 44
      \<and> m' = write_zero_page m (pa_val (pa_from_ppn ppn))"
    using ea a p(2,3) pa lt by simp
qed

text \<open>The boot allocator can deliver \<open>n\<close> more frames.\<close>

fun frames_left :: "memblock \<Rightarrow> nat \<Rightarrow> bool" where
  "frames_left mb 0 \<longleftrightarrow> True"
| "frames_left mb (Suc n) \<longleftrightarrow> (case early_alloc mb PAGE_SIZE PAGE_SIZE of
     Inr (Some p, mb') \<Rightarrow> frames_left mb' n | _ \<Rightarrow> False)"

lemma frames_left_mono: "frames_left mb (n + k) \<Longrightarrow> frames_left mb n"
  by (induction mb n rule: frames_left.induct) (auto split: sum.splits option.splits)

text \<open>The state after \<open>k\<close> frames, and after at most \<open>k\<close> frames.\<close>

fun take_frames :: "memblock \<Rightarrow> nat \<Rightarrow> memblock option" where
  "take_frames mb 0 = Some mb"
| "take_frames mb (Suc n) = (case early_alloc mb PAGE_SIZE PAGE_SIZE of
     Inr (Some p, mb') \<Rightarrow> take_frames mb' n | _ \<Rightarrow> None)"

definition frames_taken :: "nat \<Rightarrow> memblock \<Rightarrow> memblock \<Rightarrow> bool" where
  "frames_taken k mb mb' \<longleftrightarrow> (\<exists>j \<le> k. take_frames mb j = Some mb')"

lemma take_frames_add: "take_frames mb (i + j) = Option.bind (take_frames mb i) (\<lambda>mb'. take_frames mb' j)"
  by (induction mb i rule: take_frames.induct) (auto split: sum.splits option.splits)

lemma frames_left_take: "frames_left mb n \<longleftrightarrow> take_frames mb n \<noteq> None"
  by (induction mb n rule: take_frames.induct) (auto split: sum.splits option.splits)

lemma take_frames_ok:
  "boot_ok mb \<Longrightarrow> take_frames mb n = Some mb' \<Longrightarrow> boot_ok mb' \<and> covers (mb_available mb') \<subseteq> covers (mb_available mb)"
proof (induction n arbitrary: mb)
  case (Suc n)
  then obtain p mb1 where e: "early_alloc mb PAGE_SIZE PAGE_SIZE = Inr (Some p, mb1)" and t: "take_frames mb1 n = Some mb'"
    by (auto split: sum.splits option.splits)
  show ?case using Suc.IH [OF early_alloc_page(4) [OF Suc.prems(1) e] t] early_alloc_page(3) [OF Suc.prems(1) e] by blast
qed simp

lemma frames_taken_refl [simp]: "frames_taken k mb mb"
  unfolding frames_taken_def by (intro exI [of _ 0]) simp

lemma frames_taken_mono: "frames_taken k mb mb' \<Longrightarrow> k \<le> n \<Longrightarrow> frames_taken n mb mb'"
  unfolding frames_taken_def by (meson le_trans)

lemma frames_taken_trans: "frames_taken k mb mb1 \<Longrightarrow> frames_taken n mb1 mb2 \<Longrightarrow> frames_taken (k + n) mb mb2"
  unfolding frames_taken_def using take_frames_add add_mono by (metis Option.bind.bind_lunit)

lemma frames_taken_ok:
  "boot_ok mb \<Longrightarrow> frames_taken k mb mb' \<Longrightarrow> boot_ok mb' \<and> covers (mb_available mb') \<subseteq> covers (mb_available mb)"
  unfolding frames_taken_def using take_frames_ok by blast

lemma frames_taken_left: "frames_taken k mb mb' \<Longrightarrow> frames_left mb (n + k) \<Longrightarrow> frames_left mb' n"
proof -
  assume "frames_taken k mb mb'" and left: "frames_left mb (n + k)"
  then obtain j where j: "j \<le> k" "take_frames mb j = Some mb'" by (auto simp: frames_taken_def)
  then have "n + k = j + n + (k - j)" by simp
  then have "frames_left mb (j + n)" using left frames_left_mono by metis
  then show "frames_left mb' n" using j(2) by (simp add: frames_left_take take_frames_add)
qed

section \<open>The walks\<close>

definition vpn_path :: "virt_page_num \<Rightarrow> nat list" where
  "vpn_path v = map unat (indices v)"

lemma length_vpn_path [simp]: "length (vpn_path v) = 3"
  by (simp add: vpn_path_def)

lemma vpn_path_nonempty [simp]: "vpn_path v \<noteq> []"
  using length_vpn_path [of v] by (metis list.size(3) zero_neq_numeral)

lemma vpn_path_less: "i \<in> set (vpn_path v) \<Longrightarrow> i < 512"
  by (auto simp: vpn_path_def indices_eq unat_and_mask)

lemma target_level_cases: "target_level z = 1 \<or> target_level z = 2 \<or> target_level z = 3"
  by (cases z) (simp_all add: target_level_def)

lemma target_level_bounds: "0 < target_level z" "target_level z \<le> 3"
  using target_level_cases [of z] by auto

lemma take_vpn_path_ok:
  "n \<le> 2 \<Longrightarrow> path_ok (take n (vpn_path v))" "0 < n \<Longrightarrow> n \<le> 3 \<Longrightarrow> entry_path (take n (vpn_path v))"
  using vpn_path_less [of _ v] by (auto simp: path_ok_def entry_path_def dest: in_set_takeD)

lemma take_Suc_path: "i < 3 \<Longrightarrow> take (Suc i) (vpn_path v) = take i (vpn_path v) @ [vpn_path v ! i]"
  by (simp add: take_Suc_conv_app_nth)

lemma index_entry:
  assumes "i < 3"
  shows "rbind (index (indices v) i) (\<lambda>idx. rbind (entry_ptr e idx) k) = k (slot e (vpn_path v ! i))"
    and "vpn_path v ! i < 512"
proof -
  have "vpn_path v ! i \<in> set (vpn_path v)" using assms by (intro nth_mem) simp
  then show lt: "vpn_path v ! i < 512" by (rule vpn_path_less)
  have "unat (indices v ! i) = vpn_path v ! i" using assms by (simp add: vpn_path_def)
  then show "rbind (index (indices v) i) (\<lambda>idx. rbind (entry_ptr e idx) k) = k (slot e (vpn_path v ! i))"
    using lt assms by (simp add: index_in_range entry_ptr_def slot_def flip: \<open>unat (indices v ! i) = vpn_path v ! i\<close>)
qed

lemma create_loop_step:
  assumes "i < target" and "target \<le> 3"
  shows "bump_create_loop mb m (indices v) target i t = (let pte = slot t (vpn_path v ! i) in
      if i = target - 1 then Inr (Some pte, mb, m)
      else if \<not> pte_is_valid (m pte)
      then rbind (boot_frame mb m) (\<lambda>(ppn, mb', m').
             let m'' = m'(pte := pte_new ppn PTE_V)
             in bump_create_loop mb' m'' (indices v) target (i + 1) (pte_table (m'' pte)))
      else if pte_is_leaf (m pte)
      then Inl (Panicked ''FATAL: Tried to map a small page inside an existing large page'')
      else bump_create_loop mb m (indices v) target (i + 1) (pte_table (m pte)))"
proof -
  have "i < 3" using assms by simp
  then show ?thesis using assms(1)
    by (subst bump_create_loop.simps) (simp only: index_entry if_True Let_def)
qed

text \<open>
  An entry is vacant when it is not valid and no larger page covers it; then it can be mapped.
\<close>

definition vacant :: "memory \<Rightarrow> usize \<Rightarrow> nat list \<Rightarrow> bool" where
  "vacant m r P \<longleftrightarrow> pte_at m r P = None \<and> (\<forall>Q. Q \<noteq> [] \<longrightarrow> strict_prefix Q P \<longrightarrow> leaf_at m r Q = None)"

text \<open>What the creating walk leaves unchanged when it goes down to the table of the path \<open>p\<close>.\<close>

definition walk_effect :: "memory \<Rightarrow> memory \<Rightarrow> usize \<Rightarrow> nat list \<Rightarrow> bool" where
  "walk_effect m m' r p \<longleftrightarrow> (\<forall>Q. entry_path Q \<longrightarrow> leaf_at m' r Q = leaf_at m r Q)
     \<and> (\<forall>Q. entry_path Q \<longrightarrow> \<not> prefix Q p \<longrightarrow> pte_at m' r Q = pte_at m r Q)"

lemma walk_effect_refl [simp]: "walk_effect m m r p"
  by (simp add: walk_effect_def)

lemma walk_effect_trans: "walk_effect m m1 r p \<Longrightarrow> walk_effect m1 m2 r p \<Longrightarrow> walk_effect m m2 r p"
  by (simp add: walk_effect_def)

abbreviation boot_inv :: "memblock \<Rightarrow> memory \<Rightarrow> usize \<Rightarrow> bool" where
  "boot_inv \<equiv> boot_frames.pt_inv"

definition create_result :: "memblock \<Rightarrow> memory \<Rightarrow> usize \<Rightarrow> nat list \<Rightarrow> nat \<Rightarrow> usize \<Rightarrow> memblock \<Rightarrow> memory \<Rightarrow> bool" where
  "create_result mb m r p k t mb' m' \<longleftrightarrow> boot_inv mb' m' r \<and> table_at m' r p = Some t
     \<and> walk_effect m m' r p \<and> frames_taken k mb mb'"

lemma prefix_take_take: "a \<le> b \<Longrightarrow> prefix (take a xs) (take b xs)"
  using take_is_prefix [of a "take b xs"] by (simp add: min_absorb1)

lemma frames_left_le: "k \<le> n \<Longrightarrow> frames_left mb n \<Longrightarrow> frames_left mb k"
  by (metis frames_left_mono le_iff_add)

lemma create_result_mono: "create_result mb m r p k t mb' m' \<Longrightarrow> k \<le> k' \<Longrightarrow> create_result mb m r p k' t mb' m'"
  unfolding create_result_def using frames_taken_mono by blast

text \<open>What stops the boot allocator: a full region array, or no page left.\<close>

definition boot_fault :: "fault \<Rightarrow> bool" where
  "boot_fault f \<longleftrightarrow> f = Assert_failed \<or> f = Unwrap_none"

lemma boot_frame_left:
  assumes "boot_ok mb"
  shows "case boot_frame mb m of Inl f \<Rightarrow> boot_fault f \<and> (\<forall>n. \<not> frames_left mb (Suc n))
    | Inr (ppn, mb', m') \<Rightarrow> frames_taken 1 mb mb' \<and> (\<forall>n. frames_left mb (Suc n) \<longleftrightarrow> frames_left mb' n)"
proof -
  have "mb_inv mb" using assms by (simp add: boot_ok_def)
  from early_alloc_fault [OF this boot_request_ok [OF assms], folded PAGE_SIZE_pow]
  show ?thesis
    by (auto simp: boot_frame_eq [OF assms] boot_fault_def frames_taken_def split: sum.splits option.splits intro!: exI [of _ "Suc 0"])
qed

text \<open>Going down through a table that had to be created.\<close>

lemma create_result_new:
  assumes inv: "boot_inv mb m r" and t: "table_at m r p = Some t" and p: "path_ok (p @ [x])"
    and new: "\<not> pte_is_valid (m (slot t x))" and tk: "boot_frame mb m = Inr (ppn, mb1, m1)"
    and m2: "m2 = m1(slot t x := pte_new ppn PTE_V)" and pre: "prefix (p @ [x]) q"
    and res: "create_result mb1 m2 r q k t' mb' m'"
  shows "create_result mb m r q (Suc k) t' mb' m'"
proof -
  note nt = boot_frames.new_table [OF inv t p new tk, folded m2]
  have "walk_effect m m2 r q" unfolding walk_effect_def using nt(3,4) pre by auto
  moreover have "frames_taken 1 mb mb1" using boot_frame_left [of mb m] boot_frames.pt_invD(1) [OF inv] tk by simp
  ultimately show ?thesis using res walk_effect_trans frames_taken_trans unfolding create_result_def by (metis plus_1_eq_Suc)
qed

lemma create_loop_ok:
  assumes "boot_inv mb m r" and "table_at m r (take i (vpn_path v)) = Some t" and "i < target" and "target \<le> 3"
  shows "case bump_create_loop mb m (indices v) target i t of
      Inl f \<Rightarrow> (\<exists>j. i < j \<and> j < target \<and> leaf_at m r (take j (vpn_path v)) \<noteq> None)
          \<or> boot_fault f \<and> \<not> frames_left mb (target - 1 - i)
    | Inr (res, mb', m') \<Rightarrow> (\<exists>t'. res = Some (slot t' (vpn_path v ! (target - 1)))
        \<and> create_result mb m r (take (target - 1) (vpn_path v)) (target - 1 - i) t' mb' m')
        \<and> (\<forall>j. i < j \<and> j < target \<longrightarrow> leaf_at m r (take j (vpn_path v)) = None)"
  using assms
proof (induction "target - i" arbitrary: mb m i t rule: less_induct)
  case less
  let ?P = "vpn_path v" and ?p = "take i (vpn_path v)" and ?x = "vpn_path v ! i"
  have i3: "i < 3" using less.prems by simp
  note ie = index_entry [OF i3]
  show ?case
  proof (cases "i = target - 1")
    case True
    then have "bump_create_loop mb m (indices v) target i t = Inr (Some (slot t ?x), mb, m)"
      using less.prems by (simp add: create_loop_step Let_def)
    then show ?thesis using less.prems True by (auto simp: create_result_def)
  next
    case False
    then have i1: "Suc i < target" "i \<le> 1" using less.prems by simp_all
    have dec: "target - Suc i < target - i" using less.prems(3) by simp
    have step: "take (Suc i) ?P = ?p @ [?x]" using take_Suc_path [OF i3] .
    have p: "path_ok (?p @ [?x])" using take_vpn_path_ok(1) [of "Suc i" v] i1 step by simp
    have e: "pte_at m r (?p @ [?x]) = (if pte_is_valid (m (slot t ?x)) then Some (m (slot t ?x)) else None)"
      using less.prems(2) by (simp add: pte_at_snoc)
    have more: "(\<forall>j. i < j \<and> j < target \<longrightarrow> L j) \<longleftrightarrow> L (Suc i) \<and> (\<forall>j. Suc i < j \<and> j < target \<longrightarrow> L j)"
      "(\<exists>j. i < j \<and> j < target \<and> L j) \<longleftrightarrow> L (Suc i) \<or> (\<exists>j. Suc i < j \<and> j < target \<and> L j)" for L
      using i1 by (metis Suc_lessI lessI less_trans)+
    consider (new) "\<not> pte_is_valid (m (slot t ?x))" | (leaf) "pte_is_valid (m (slot t ?x))" "pte_is_leaf (m (slot t ?x))"
      | (down) "pte_is_valid (m (slot t ?x))" "\<not> pte_is_leaf (m (slot t ?x))" by blast
    then show ?thesis
    proof cases
      case leaf
      then have "bump_create_loop mb m (indices v) target i t =
          Inl (Panicked ''FATAL: Tried to map a small page inside an existing large page'')"
        using less.prems False by (simp add: create_loop_step Let_def)
      moreover have "leaf_at m r (take (Suc i) ?P) \<noteq> None" using leaf e step by (simp add: leaf_at_def)
      ultimately show ?thesis using i1 by auto
    next
      case down
      then have "bump_create_loop mb m (indices v) target i t =
          bump_create_loop mb m (indices v) target (Suc i) (pte_table (m (slot t ?x)))"
        using less.prems False by (simp add: create_loop_step Let_def)
      moreover have "table_at m r (take (Suc i) ?P) = Some (pte_table (m (slot t ?x)))"
        using down less.prems(2) step by (simp add: table_at_snoc step_table_def)
      moreover have "leaf_at m r (take (Suc i) ?P) = None" using down e step by (simp add: leaf_at_def)
      moreover have "frames_left mb (target - Suc i) \<Longrightarrow> frames_left mb (target - Suc (Suc i))"
        by (rule frames_left_le [rotated], assumption, rule diff_le_mono2) simp
      moreover have "create_result mb m r q (target - Suc i) t' mb' m'"
        if "create_result mb m r q (target - Suc (Suc i)) t' mb' m'" for q t' mb' m'
        using that by (rule create_result_mono) (rule diff_le_mono2, simp)
      ultimately show ?thesis
        using less.hyps [OF dec less.prems(1) _ i1(1) less.prems(4)] i1 unfolding more
        by (auto split: sum.splits)
    next
      case new
      have ok: "boot_ok mb" using boot_frames.pt_invD(1) [OF less.prems(1)] .
      note fl = boot_frame_left [OF ok, of m]
      have left: "target - 1 - i = Suc (target - 1 - Suc i)" using i1 by simp
      show ?thesis
      proof (cases "boot_frame mb m")
        case (Inl f)
        then have "bump_create_loop mb m (indices v) target i t = Inl f"
          using less.prems False new by (simp add: create_loop_step Let_def)
        moreover have "boot_fault f \<and> \<not> frames_left mb (target - 1 - i)" using fl Inl left by simp
        ultimately show ?thesis by simp
      next
        case (Inr res)
        then obtain ppn mb1 m1 where tk: "boot_frame mb m = Inr (ppn, mb1, m1)" by (cases res) auto
        define m2 where "m2 = m1(slot t ?x := pte_new ppn PTE_V)"
        note nt = boot_frames.new_table [OF less.prems(1,2) p new tk, folded m2_def]
        have lt: "unat (ppn_val ppn) < 2 ^ 44" using boot_frames.take_spec [OF ok tk] by blast
        have loop: "bump_create_loop mb m (indices v) target i t =
            bump_create_loop mb1 m2 (indices v) target (Suc i) (pa_val (pa_from_ppn ppn))"
          using less.prems False new tk by (simp add: create_loop_step Let_def m2_def pte_ppn_new [OF lt])
        have ih: "table_at m2 r (take (Suc i) ?P) = Some (pa_val (pa_from_ppn ppn))" using nt(2) step by simp
        have leaf_eq: "leaf_at m2 r (take j ?P) = leaf_at m r (take j ?P)" if "i < j" "j < target" for j
          using nt(4) take_vpn_path_ok(2) [of j v] that less.prems(4) by simp
        have "leaf_at m r (take (Suc i) ?P) = None" using new e step by (simp add: leaf_at_def)
        moreover have "prefix (?p @ [?x]) (take (target - 1) ?P)"
          unfolding step [symmetric] using i1 by (intro prefix_take_take) simp
        ultimately show ?thesis
          using less.hyps [OF dec nt(1) ih i1(1) less.prems(4)] less.prems(3) leaf_eq fl tk
            create_result_new [OF less.prems(1,2) p new tk m2_def] left
          unfolding loop more by (auto split: sum.splits)
      qed
    qed
  qed
qed

section \<open>Mapping and unmapping one page\<close>

abbreviation page_path :: "virt_page_num \<Rightarrow> page_size \<Rightarrow> nat list" where
  "page_path v z \<equiv> take (target_level z) (vpn_path v)"

lemma page_path_snoc:
  "page_path v z = take (target_level z - 1) (vpn_path v) @ [vpn_path v ! (target_level z - 1)]"
  using take_Suc_path [of "target_level z - 1" v] target_level_bounds [of z] by simp

lemma page_path_parts:
  "path_ok (take (target_level z - 1) (vpn_path v))" "vpn_path v ! (target_level z - 1) < 512" "entry_path (page_path v z)"
  using target_level_bounds [of z] index_entry(2) [of "target_level z - 1" v]
  by (auto intro: take_vpn_path_ok)

lemma strict_prefix_take:
  "strict_prefix Q (page_path v z) \<longleftrightarrow> (\<exists>j < target_level z. Q = take j (vpn_path v))"
proof
  assume "strict_prefix Q (page_path v z)"
  then have "prefix Q (page_path v z)" "length Q < target_level z"
    using prefix_length_less target_level_bounds [of z] by fastforce+
  then have "Q = take (length Q) (vpn_path v)"
    by (metis append_eq_conv_conj prefix_def take_take min.strict_order_iff)
  then show "\<exists>j < target_level z. Q = take j (vpn_path v)" using \<open>length Q < target_level z\<close> by blast
next
  assume "\<exists>j < target_level z. Q = take j (vpn_path v)"
  then obtain j where j: "j < target_level z" "Q = take j (vpn_path v)" by blast
  then have "prefix Q (page_path v z)" by (simp add: prefix_take_take)
  moreover have "length Q < length (page_path v z)" using j target_level_bounds [of z] by simp
  ultimately show "strict_prefix Q (page_path v z)" by (auto simp: strict_prefix_def)
qed

lemma vacant_page:
  "vacant m r (page_path v z) \<longleftrightarrow> pte_at m r (page_path v z) = None
     \<and> (\<forall>j. 0 < j \<and> j < target_level z \<longrightarrow> leaf_at m r (take j (vpn_path v)) = None)"
proof -
  have "take j (vpn_path v) \<noteq> [] \<longleftrightarrow> 0 < j" for j by simp
  then show ?thesis unfolding vacant_def strict_prefix_take by metis
qed

text \<open>The effect of a mapping: one new leaf, and nothing else becomes visible.\<close>

definition map_effect :: "memory \<Rightarrow> memory \<Rightarrow> usize \<Rightarrow> nat list \<Rightarrow> usize \<Rightarrow> bool" where
  "map_effect m m' r P e \<longleftrightarrow>
     (\<forall>Q. entry_path Q \<longrightarrow> leaf_at m' r Q = (if Q = P then Some e else leaf_at m r Q))
     \<and> (\<forall>Q. entry_path Q \<longrightarrow> \<not> prefix Q P \<longrightarrow> pte_at m' r Q = pte_at m r Q)"

lemma bump_map_ok:
  assumes inv: "boot_inv mb m r" and lf: "leaf_flags flags"
  shows "case bump_map (mb, m) r v ppn flags z of
      Inl f \<Rightarrow> vacant m r (page_path v z) \<longrightarrow> boot_fault f \<and> \<not> frames_left mb (target_level z - 1)
    | Inr (mb', m') \<Rightarrow> vacant m r (page_path v z) \<and> boot_inv mb' m' r
        \<and> map_effect m m' r (page_path v z) (pte_new ppn (flags OR PTE_V))
        \<and> frames_taken (target_level z - 1) mb mb'"
proof -
  let ?P = "page_path v z" and ?p = "take (target_level z - 1) (vpn_path v)" and ?x = "vpn_path v ! (target_level z - 1)"
  let ?e = "pte_new ppn (flags OR PTE_V)"
  note pp = page_path_parts [where z = z and v = v]
  have cl: "table_at m r (take 0 (vpn_path v)) = Some r" by simp
  note cl = create_loop_ok [OF inv cl target_level_bounds [of z]]
  show ?thesis
  proof (cases "bump_find_create_pte (mb, m) r v z")
    case (Inl f)
    then show ?thesis using cl by (auto simp: bump_map_def bump_find_create_pte_def vacant_page)
  next
    case (Inr res)
    then obtain t mb1 m1 where r1: "bump_find_create_pte (mb, m) r v z = Inr (Some (slot t ?x), mb1, m1)"
      and cr: "create_result mb m r ?p (target_level z - 1) t mb1 m1"
      and nl: "\<forall>j. 0 < j \<and> j < target_level z \<longrightarrow> leaf_at m r (take j (vpn_path v)) = None"
      using cl by (cases res) (auto simp: bump_find_create_pte_def)
    have inv1: "boot_inv mb1 m1 r" and t1: "table_at m1 r ?p = Some t" and we: "walk_effect m m1 r ?p"
      and fl: "frames_taken (target_level z - 1) mb mb1"
      using cr by (simp_all add: create_result_def)
    have "\<not> prefix ?P ?p" unfolding page_path_snoc by (auto dest: prefix_length_le)
    then have same: "pte_at m1 r ?P = pte_at m r ?P" using we pp(3) by (simp add: walk_effect_def)
    have at: "pte_at m1 r ?P = (if pte_is_valid (m1 (slot t ?x)) then Some (m1 (slot t ?x)) else None)"
      unfolding page_path_snoc using t1 by (simp add: pte_at_snoc)
    show ?thesis
    proof (cases "pte_is_valid (m1 (slot t ?x))")
      case True
      then show ?thesis using r1 at same by (simp add: bump_map_def vacant_page)
    next
      case False
      define m2 where "m2 = m1(slot t ?x := ?e)"
      have res: "bump_map (mb, m) r v ppn flags z = Inr (mb1, m2)" using r1 False by (simp add: bump_map_def m2_def)
      have none: "pte_at m r ?P = None" using at same False by simp
      have e: "pte_is_valid ?e" "pte_is_leaf ?e" using lf by (simp_all add: pte_is_valid_new pte_is_leaf_new leaf_flags_V)
      note ew = boot_frames.entry_write [OF inv1 t1 pp(1,2), of ?e, folded m2_def page_path_snoc]
      have ext: "pte_at m r Q = None" if "entry_path Q" "prefix ?P Q" "Q \<noteq> ?P" for Q
      proof (rule pte_at_ext_None [OF _ that(2,3)])
        show "table_at m r ?P = None"
          using none unfolding page_path_snoc
          by (auto simp: pte_at_snoc table_at_snoc step_table_def Let_def split: option.splits if_splits Option.bind_splits)
      qed
      have pt: "pte_at m2 r Q = pte_at m1 r Q" if "entry_path Q" "Q \<noteq> ?P" for Q
      proof (cases "prefix ?P Q")
        case False
        then show ?thesis using ew(3) e that(1) by blast
      next
        case True
        then have "\<not> prefix Q ?p" using \<open>\<not> prefix ?P ?p\<close> prefix_order.trans by blast
        then have "pte_at m1 r Q = None" using we ext [OF that(1) True that(2)] that(1) by (simp add: walk_effect_def)
        then show ?thesis using ew(4) e that True by simp
      qed
      have "map_effect m m2 r ?P ?e" unfolding map_effect_def
      proof (intro conjI allI impI)
        fix Q
        assume Q: "entry_path Q"
        show "leaf_at m2 r Q = (if Q = ?P then Some ?e else leaf_at m r Q)"
        proof (cases "Q = ?P")
          case True
          then show ?thesis using ew(2) e by (simp add: leaf_at_def)
        next
          case False
          then have "leaf_at m2 r Q = leaf_at m1 r Q" using pt [OF Q] by (simp add: leaf_at_def)
          then show ?thesis using we Q False by (simp add: walk_effect_def)
        qed
        assume "\<not> prefix Q ?P"
        then have "Q \<noteq> ?P" "\<not> prefix Q ?p" using prefix_take_take [of "target_level z - 1" "target_level z"]
          by (auto dest: prefix_order.trans)
        then show "pte_at m2 r Q = pte_at m r Q" using pt [OF Q] we Q by (simp add: walk_effect_def)
      qed
      moreover have "vacant m r ?P" using none nl by (simp add: vacant_page)
      ultimately show ?thesis using res ew(1) e fl by simp
    qed
  qed
qed

lemma slot_linear: "slot (phys_to_virt t) x = phys_to_virt (slot t x)"
  by (simp add: slot_def phys_to_virt_def ac_simps)

lemma find_loop_step:
  assumes "i < target" and "target \<le> 3"
  shows "bump_find_loop m (indices v) target i e = (let pte = slot e (vpn_path v ! i) in
      if i = target - 1 then Inr (Some pte)
      else if \<not> pte_is_valid (load m pte) then Inr None
      else if pte_is_leaf (load m pte) then Inr None
      else bump_find_loop m (indices v) target (i + 1) (phys_to_virt (pte_table (load m pte))))"
proof -
  have "i < 3" using assms by simp
  then show ?thesis using assms(1)
    by (subst bump_find_loop.simps) (simp only: index_entry if_True Let_def)
qed

lemma find_loop_ok:
  assumes "table_at m r (take i (vpn_path v)) = Some t" and "i < target" and "target \<le> 3"
  shows "bump_find_loop m (indices v) target i (phys_to_virt t) = Inr (map_option
      (\<lambda>t'. phys_to_virt (slot t' (vpn_path v ! (target - 1)))) (table_at m r (take (target - 1) (vpn_path v))))"
  using assms
proof (induction "target - i" arbitrary: i t rule: less_induct)
  case less
  let ?x = "vpn_path v ! i"
  show ?case
  proof (cases "i = target - 1")
    case True
    then show ?thesis using less.prems by (simp add: find_loop_step slot_linear Let_def)
  next
    case False
    then have i1: "Suc i < target" using less.prems by simp
    have step: "take (Suc i) (vpn_path v) = take i (vpn_path v) @ [?x]" using take_Suc_path [of i v] less.prems by simp
    have st: "table_at m r (take (Suc i) (vpn_path v)) = step_table m t ?x"
      using less.prems(1) by (simp add: step table_at_snoc)
    show ?thesis
    proof (cases "step_table m t ?x")
      case None
      then have no: "table_at m r (take (Suc i) (vpn_path v)) = None" using st by simp
      have "prefix (take (Suc i) (vpn_path v)) (take (target - 1) (vpn_path v))"
        by (rule prefix_take_take) (use i1 in simp)
      from table_at_ext_None [OF no this]
      have "table_at m r (take (target - 1) (vpn_path v)) = None" .
      moreover have "pte_is_valid (m (slot t ?x)) \<longrightarrow> pte_is_leaf (m (slot t ?x))"
        using None by (simp add: step_table_def Let_def split: if_splits)
      ultimately show ?thesis using False
        by (simp add: find_loop_step [OF less.prems(2,3)] slot_linear Let_def)
    next
      case (Some t')
      then have e: "pte_is_valid (m (slot t ?x))" "\<not> pte_is_leaf (m (slot t ?x))" "t' = pte_table (m (slot t ?x))"
        by (auto simp: step_table_def Let_def split: if_splits)
      have "target - Suc i < target - i" using less.prems(2) by simp
      from less.hyps [OF this _ i1 less.prems(3), of t'] st Some e show ?thesis
        using False by (simp add: find_loop_step [OF less.prems(2,3)] slot_linear Let_def)
    qed
  qed
qed

lemma unmap_ok:
  assumes inv: "boot_inv mb m r"
  shows "case unmap m (phys_to_virt r) v z of
      Inl f \<Rightarrow> pte_at m r (page_path v z) = None
    | Inr m' \<Rightarrow> pte_at m r (page_path v z) \<noteq> None \<and> boot_inv mb m' r
        \<and> (\<forall>Q. entry_path Q \<longrightarrow> pte_at m' r Q = (if prefix (page_path v z) Q then None else pte_at m r Q))"
proof -
  let ?P = "page_path v z" and ?p = "take (target_level z - 1) (vpn_path v)" and ?x = "vpn_path v ! (target_level z - 1)"
  note pp = page_path_parts [where z = z and v = v]
  have f: "bump_find_pte m (phys_to_virt r) v z =
      Inr (map_option (\<lambda>t'. phys_to_virt (slot t' ?x)) (table_at m r ?p))"
    unfolding bump_find_pte_def using find_loop_ok [of m r 0 v r "target_level z"] target_level_bounds [of z] by simp
  show ?thesis
  proof (cases "table_at m r ?p")
    case None
    then have "pte_at m r ?P = None" unfolding page_path_snoc by (simp add: pte_at_snoc)
    then show ?thesis using f None by (simp add: unmap_def)
  next
    case (Some t)
    have at: "pte_at m r ?P = (if pte_is_valid (m (slot t ?x)) then Some (m (slot t ?x)) else None)"
      unfolding page_path_snoc using Some by (simp add: pte_at_snoc)
    show ?thesis
    proof (cases "pte_is_valid (m (slot t ?x))")
      case False
      then show ?thesis using f Some at by (simp add: unmap_def)
    next
      case True
      define m2 where "m2 = m(slot t ?x := pte_empty)"
      have res: "unmap m (phys_to_virt r) v z = Inr m2" using f Some True by (simp add: unmap_def m2_def)
      note ew = boot_frames.entry_write [OF inv Some pp(1,2), of pte_empty, folded m2_def page_path_snoc]
      have "pte_at m2 r Q = (if prefix ?P Q then None else pte_at m r Q)" if "entry_path Q" for Q
        using ew(2-4) that by (cases "Q = ?P") (auto simp: pte_empty_def)
      then show ?thesis using res at True ew(1) by (simp add: pte_empty_def)
    qed
  qed
qed

section \<open>Address translation\<close>

text \<open>
  The walk of the hardware: at most three levels, ending at the first leaf. The level of the leaf
  gives the size of the page; a superpage has to be aligned to its size.
\<close>

fun sv39_walk :: "memory \<Rightarrow> usize \<Rightarrow> nat list \<Rightarrow> (phys_page_num \<times> u8 \<times> nat) option" where
  "sv39_walk m t [] = None"
| "sv39_walk m t (i # is) = (let e = m (slot t i) in
     if \<not> pte_is_valid e then None
     else if pte_is_leaf e then Some (pte_ppn e, pte_flags e, length is)
     else sv39_walk m (pte_table e) is)"

definition va_path :: "usize \<Rightarrow> nat list" where
  "va_path va = vpn_path (va_floor (VirtAddr va))"

definition translate :: "memory \<Rightarrow> usize \<Rightarrow> usize \<Rightarrow> (nat \<times> u8) option" where
  "translate m r va = (if canonical va then
     (case sv39_walk m r (va_path va) of
        None \<Rightarrow> None
      | Some (ppn, flags, n) \<Rightarrow>
          if 512 ^ n dvd unat (ppn_val ppn)
          then Some (unat (ppn_val ppn) * 4096 + unat va mod (4096 * 512 ^ n), flags) else None)
     else None)"

lemma leaf_at_Cons:
  "leaf_at m r (i # j # js) = (let e = m (slot r i) in
     if pte_is_valid e \<and> \<not> pte_is_leaf e then leaf_at m (pte_table e) (j # js) else None)"
proof -
  have eqs: "last (i # j # js) = last (j # js)" "butlast (i # j # js) = i # butlast (j # js)" by simp_all
  show ?thesis unfolding leaf_at_def pte_at_def eqs by (simp add: Let_def del: last.simps butlast.simps)
qed

lemma leaf_at_single:
  "leaf_at m r [i] = (let e = m (slot r i) in if pte_is_valid e \<and> pte_is_leaf e then Some e else None)"
  by (simp add: leaf_at_def pte_at_def Let_def)

lemma sv39_walk_leaf:
  "sv39_walk m r Q = Some (p, f, n) \<longleftrightarrow>
     (\<exists>k < length Q. \<exists>e. leaf_at m r (take (Suc k) Q) = Some e \<and> p = pte_ppn e \<and> f = pte_flags e \<and> n = length Q - Suc k)"
proof (induction Q arbitrary: r)
  case (Cons i Q)
  let ?e = "m (slot r i)"
  have split: "(\<exists>k < length (i # Q). X k) \<longleftrightarrow> X 0 \<or> (\<exists>k < length Q. X (Suc k))" for X
    by (auto simp: less_Suc_eq_0_disj)
  have deeper: "leaf_at m r (take (Suc (Suc k)) (i # Q)) =
      (if pte_is_valid ?e \<and> \<not> pte_is_leaf ?e then leaf_at m (pte_table ?e) (take (Suc k) Q) else None)"
    if "k < length Q" for k
    using that by (cases Q) (simp_all add: leaf_at_Cons Let_def)
  show ?case unfolding split using Cons.IH [of "pte_table ?e"] deeper
    by (auto simp: leaf_at_single Let_def)
qed simp

lemma sv39_walk_cong:
  assumes "\<And>k. k < length Q \<Longrightarrow> leaf_at m' r (take (Suc k) Q) = leaf_at m r (take (Suc k) Q)"
  shows "sv39_walk m' r Q = sv39_walk m r Q"
proof -
  have "sv39_walk m' r Q = Some (p, f, n) \<longleftrightarrow> sv39_walk m r Q = Some (p, f, n)" for p f n
    unfolding sv39_walk_leaf using assms by auto
  then show ?thesis by (metis not_None_eq prod_cases3)
qed

lemma take_eq_page_path:
  assumes "k < 3"
  shows "take (Suc k) (vpn_path w) = page_path v z \<longleftrightarrow> Suc k = target_level z \<and> page_path w z = page_path v z"
proof
  assume eq: "take (Suc k) (vpn_path w) = page_path v z"
  then have "length (take (Suc k) (vpn_path w)) = length (page_path v z)" by simp
  then have "Suc k = target_level z" using assms target_level_bounds [of z] by simp
  with eq show "Suc k = target_level z \<and> page_path w z = page_path v z" by simp
qed auto

lemma prefix_page_path:
  assumes "k < 3"
  shows "prefix (page_path v z) (take (Suc k) (vpn_path w)) \<longleftrightarrow> target_level z \<le> Suc k \<and> page_path w z = page_path v z"
proof
  assume p: "prefix (page_path v z) (take (Suc k) (vpn_path w))"
  have len: "length (page_path v z) = target_level z" using target_level_bounds [of z] by simp
  with prefix_length_le [OF p] have le: "target_level z \<le> Suc k" using assms by simp
  from p have "page_path v z = take (target_level z) (take (Suc k) (vpn_path w))"
    using len by (metis append_eq_conv_conj prefix_def)
  with le show "target_level z \<le> Suc k \<and> page_path w z = page_path v z" by (simp add: min_absorb1)
next
  assume "target_level z \<le> Suc k \<and> page_path w z = page_path v z"
  then show "prefix (page_path v z) (take (Suc k) (vpn_path w))" by (metis prefix_take_take)
qed

lemma walk_map_effect:
  assumes "map_effect m m' r (page_path v z) e"
  shows "sv39_walk m' r (vpn_path w) = (if page_path w z = page_path v z
    then Some (pte_ppn e, pte_flags e, 3 - target_level z) else sv39_walk m r (vpn_path w))"
proof (cases "page_path w z = page_path v z")
  case True
  have "leaf_at m' r (page_path w z) = Some e"
    using assms True page_path_parts(3) by (simp add: map_effect_def)
  then have "sv39_walk m' r (vpn_path w) = Some (pte_ppn e, pte_flags e, 3 - target_level z)"
    unfolding sv39_walk_leaf using target_level_bounds [of z] by (intro exI [of _ "target_level z - 1"] conjI exI [of _ e]) simp_all
  with True show ?thesis by simp
next
  case False
  have "leaf_at m' r (take (Suc k) (vpn_path w)) = leaf_at m r (take (Suc k) (vpn_path w))" if "k < 3" for k
  proof -
    have "entry_path (take (Suc k) (vpn_path w))" using that by (intro take_vpn_path_ok) simp_all
    moreover have "take (Suc k) (vpn_path w) \<noteq> page_path v z" using take_eq_page_path [OF that] False by simp
    ultimately show ?thesis using assms by (simp add: map_effect_def)
  qed
  then have "sv39_walk m' r (vpn_path w) = sv39_walk m r (vpn_path w)" by (intro sv39_walk_cong) simp
  with False show ?thesis by simp
qed

text \<open>Removing an entry removes everything below it.\<close>

definition unmap_effect :: "memory \<Rightarrow> memory \<Rightarrow> usize \<Rightarrow> nat list \<Rightarrow> bool" where
  "unmap_effect m m' r P \<longleftrightarrow> (\<forall>Q. entry_path Q \<longrightarrow> pte_at m' r Q = (if prefix P Q then None else pte_at m r Q))"

lemma leaf_above_None: "pte_at m r P \<noteq> None \<Longrightarrow> Q \<noteq> [] \<Longrightarrow> strict_prefix Q P \<Longrightarrow> leaf_at m r Q = None"
proof -
  assume P: "pte_at m r P \<noteq> None" and Q: "Q \<noteq> []" "strict_prefix Q P"
  obtain q i where qi: "Q = q @ [i]" using Q(1) by (metis rev_exhaust)
  have "table_at m r Q \<noteq> None"
  proof
    assume "table_at m r Q = None"
    from pte_at_ext_None [OF this] P Q(2) show False by (auto simp: strict_prefix_def)
  qed
  then show ?thesis unfolding qi
    by (auto simp: table_at_snoc step_table_def leaf_at_def pte_at_snoc Let_def split: option.splits if_splits Option.bind_splits)
qed

lemma walk_unmap_effect:
  assumes "unmap_effect m m' r (page_path v z)" and "pte_at m r (page_path v z) \<noteq> None"
  shows "sv39_walk m' r (vpn_path w) = (if page_path w z = page_path v z then None else sv39_walk m r (vpn_path w))"
proof -
  have ep: "entry_path (take (Suc k) (vpn_path w))" if "k < 3" for k using that by (intro take_vpn_path_ok) simp_all
  show ?thesis
  proof (cases "page_path w z = page_path v z")
    case True
    have "leaf_at m' r (take (Suc k) (vpn_path w)) = None" if "k < 3" for k
    proof (cases "target_level z \<le> Suc k")
      case True
      then show ?thesis using \<open>page_path w z = page_path v z\<close> assms(1) ep [OF that] prefix_page_path [OF that]
        by (simp add: unmap_effect_def leaf_at_def)
    next
      case False
      then have "strict_prefix (take (Suc k) (vpn_path w)) (page_path w z)" unfolding strict_prefix_take by (metis not_le)
      then have "leaf_at m r (take (Suc k) (vpn_path w)) = None"
        using leaf_above_None [OF assms(2)] True by simp
      moreover have "\<not> prefix (page_path v z) (take (Suc k) (vpn_path w))" using prefix_page_path [OF that] False by simp
      ultimately show ?thesis using assms(1) ep [OF that] by (simp add: unmap_effect_def leaf_at_def)
    qed
    then have "sv39_walk m' r (vpn_path w) \<noteq> Some (p, f, n)" for p f n unfolding sv39_walk_leaf by auto
    then show ?thesis using True by (metis not_None_eq prod_cases3)
  next
    case False
    have "leaf_at m' r (take (Suc k) (vpn_path w)) = leaf_at m r (take (Suc k) (vpn_path w))" if "k < 3" for k
      using assms(1) ep [OF that] prefix_page_path [OF that] False by (simp add: unmap_effect_def leaf_at_def)
    then have "sv39_walk m' r (vpn_path w) = sv39_walk m r (vpn_path w)" by (intro sv39_walk_cong) simp
    with False show ?thesis by simp
  qed
qed

lemma walk_vacant:
  assumes "vacant m r (page_path v z)" and "page_path w z = page_path v z"
  shows "sv39_walk m r (vpn_path w) = None"
proof -
  have none: "table_at m r (page_path w z) = None"
    using assms unfolding vacant_def page_path_snoc
    by (auto simp: pte_at_snoc table_at_snoc step_table_def Let_def split: option.splits if_splits Option.bind_splits)
  have "leaf_at m r (take (Suc k) (vpn_path w)) = None" if "k < 3" for k
  proof (cases "Suc k < target_level z")
    case True
    then show ?thesis using assms vacant_page [where v = w and z = z] by simp
  next
    case False
    then have p: "prefix (page_path w z) (take (Suc k) (vpn_path w))" by (simp add: prefix_take_take)
    have "pte_at m r (take (Suc k) (vpn_path w)) = None"
    proof (cases "take (Suc k) (vpn_path w) = page_path w z")
      case True
      then show ?thesis using assms by (simp add: vacant_def)
    qed (use pte_at_ext_None [OF none p] in simp)
    then show ?thesis by (simp add: leaf_at_def)
  qed
  then have "sv39_walk m r (vpn_path w) \<noteq> Some (p, f, n)" for p f n unfolding sv39_walk_leaf by auto
  then show ?thesis by (metis not_None_eq prod_cases3)
qed

lemma unmap_page_ok:
  assumes "boot_inv mb m r"
  shows "case unmap m (phys_to_virt r) v z of
      Inl f \<Rightarrow> pte_at m r (page_path v z) = None
    | Inr m' \<Rightarrow> pte_at m r (page_path v z) \<noteq> None \<and> boot_inv mb m' r \<and> unmap_effect m m' r (page_path v z)"
  using unmap_ok [OF assms, where v = v and z = z] by (simp add: unmap_effect_def split: sum.splits)

text \<open>A concrete boot state: an empty root table, memory zero, 16 MiB available above it.\<close>

lemma boot_inv_example:
  "\<exists>mb. init_add_memory memblock_new (PhysAddr 0x80400000) 0x1000000 = Inr mb \<and> boot_inv mb (\<lambda>_. 0) 0x80200000"
proof -
  have nw: "no_wrap (PhysAddr 0x80400000) 0x1000000" by (simp add: no_wrap_def)
  obtain a where a: "add_region region_array_new (PhysAddr 0x80400000) 0x1000000 = Inr a" "ra_inv a"
    "covers a = span (PhysAddr 0x80400000) 0x1000000"
    using add_region_new [OF nw] by auto
  let ?mb = "memblock_new\<lparr>mb_available := a\<rparr>"
  have mb: "init_add_memory memblock_new (PhysAddr 0x80400000) 0x1000000 = Inr ?mb"
    using a(1) by (simp add: init_add_memory_def memblock_new_def)
  have "boot_ok ?mb" using a(2,3) ra_inv_new
    by (auto simp: boot_ok_def mb_inv_def memblock_new_def span_def)
  moreover have none: "table_at (\<lambda>_. 0) 0x80200000 q = (if q = [] then Some 0x80200000 else None)" for q
    by (cases q) simp_all
  moreover have "tables_wf (\<lambda>_. 0) 0x80200000"
    unfolding tables_wf_def by (auto simp: none split: if_splits)
  moreover have "table_bytes 0x80200000 \<inter> covers (mb_available ?mb) = {}"
    using a(3) by (auto simp: span_def)
  ultimately have "boot_inv ?mb (\<lambda>_. 0) 0x80200000"
    unfolding boot_frames.pt_inv_def by (auto split: if_splits)
  with mb show ?thesis by blast
qed

lemma vacant_empty: "P \<noteq> [] \<Longrightarrow> vacant (\<lambda>_. 0) r P"
proof -
  have "table_at (\<lambda>_. 0) r q = (if q = [] then Some r else None)" for q by (cases q) simp_all
  then have "pte_at (\<lambda>_. 0) r Q = None" for Q by (simp add: pte_at_def)
  then show ?thesis by (simp add: vacant_def leaf_at_def)
qed

lemma map_effect_pte: "map_effect m m' r P e \<Longrightarrow> entry_path P \<Longrightarrow> pte_at m' r P \<noteq> None"
proof
  assume a: "map_effect m m' r P e" "entry_path P" "pte_at m' r P = None"
  from a(1,2) have "leaf_at m' r P = Some e" by (simp add: map_effect_def)
  with a(3) show False by (simp add: leaf_at_def)
qed

lemma leaf_flags_RX: "leaf_flags (PTE_R OR PTE_X)"
  unfolding leaf_flags_def flags_contain_RWX by (simp add: PTE_R_def PTE_X_def bit_or_iff bit_push_bit_iff)

lemma boot_map_example:
  "\<exists>mb mb' m'. boot_inv mb (\<lambda>_. 0) 0x80200000
     \<and> bump_map (mb, \<lambda>_. 0) 0x80200000 (VirtPageNum 2) (PhysPageNum 0x80000) (PTE_R OR PTE_X) OneGB = Inr (mb', m')"
proof -
  obtain mb where inv: "boot_inv mb (\<lambda>_. 0) 0x80200000" using boot_inv_example by blast
  have "vacant (\<lambda>_. 0) 0x80200000 (page_path (VirtPageNum 2) OneGB)"
    by (rule vacant_empty) (simp add: target_level_def)
  with bump_map_ok [OF inv leaf_flags_RX, where v = "VirtPageNum 2" and z = OneGB and ppn = "PhysPageNum 0x80000"] inv
  show ?thesis by (auto simp: target_level_def split: sum.splits)
qed

section \<open>Properties\<close>

text \<open>A page table entry stores a 44-bit page number and the eight flags without loss; it is valid
  exactly when the V flag is set, and a leaf exactly when one of R, W and X is set.\<close>

theorem pte_round_trip:
  assumes "unat (ppn_val p) < 2 ^ PPN_WIDTH_SV39"
  shows "pte_ppn (pte_new p f) = p \<and> pte_flags (pte_new p f) = f
    \<and> (pte_is_valid (pte_new p f) \<longleftrightarrow> flags_contain f PTE_V)
    \<and> (pte_is_leaf (pte_new p f) \<longleftrightarrow> f AND (PTE_R OR PTE_W OR PTE_X) \<noteq> 0)"
proof -
  have "flags_contain f PTE_V \<longleftrightarrow> bit f 0"
    unfolding PTE_V_def by (rule flags_contain_bit) simp
  moreover have "f AND (PTE_R OR PTE_W OR PTE_X) \<noteq> 0 \<longleftrightarrow> bit f 1 \<or> bit f 2 \<or> bit f 3"
  proof -
    have b: "bit (PTE_R OR PTE_W OR PTE_X) n \<longleftrightarrow> n = 1 \<or> n = 2 \<or> n = 3" for n
      unfolding PTE_R_def PTE_W_def PTE_X_def bit_or_iff bit_push_bit_iff bit_1_iff by (auto dest: bit_imp_le_length)
    have nz: "x \<noteq> 0 \<longleftrightarrow> (\<exists>n. bit x n)" for x :: u8
      using bit_imp_le_length [of x] by (auto simp: bit_eq_iff [of x 0])
    show ?thesis unfolding nz bit_and_iff b by blast
  qed
  ultimately show ?thesis
    using assms by (simp add: pte_ppn_new pte_flags_new pte_is_valid_new pte_is_leaf_new leaf_flags_def
        flags_contain_RWX PPN_WIDTH_SV39_def PA_WIDTH_SV39_def PAGE_SIZE_BITS_def)
qed

theorem pte_round_trip_witness:
  "pte_ppn (pte_new (PhysPageNum 0x80200) PTE_V) = PhysPageNum 0x80200"
  using pte_round_trip [of "PhysPageNum 0x80200" PTE_V]
  by (simp add: PPN_WIDTH_SV39_def PA_WIDTH_SV39_def PAGE_SIZE_BITS_def)

text \<open>C13. Mapping a page of any of the three sizes during boot, with enough frames for the tables it
  may need. If the entry is vacant, the call succeeds, the hardware walk of every page number inside
  the page finds the new leaf with the given page number and flags, the walk of every other page
  number is as before, and no table is shared. Otherwise (already mapped, or inside a larger page)
  it panics.\<close>

theorem bump_map_correct:
  assumes "boot_inv mb m r" and "leaf_flags flags" and "unat (ppn_val ppn) < 2 ^ 44"
    and "frames_left mb (target_level z - 1)"
  shows "if vacant m r (page_path v z)
    then \<exists>mb' m'. bump_map (mb, m) r v ppn flags z = Inr (mb', m') \<and> boot_inv mb' m' r
      \<and> (\<forall>w. sv39_walk m' r (vpn_path w) = (if page_path w z = page_path v z
            then Some (ppn, flags OR PTE_V, 3 - target_level z) else sv39_walk m r (vpn_path w)))
    else \<exists>f. bump_map (mb, m) r v ppn flags z = Inl f"
proof (cases "bump_map (mb, m) r v ppn flags z")
  case (Inl f)
  then show ?thesis using bump_map_ok [OF assms(1,2), where v = v and ppn = ppn and z = z] assms(4) by auto
next
  case (Inr res)
  then obtain mb' m' where r: "bump_map (mb, m) r v ppn flags z = Inr (mb', m')" by (cases res) auto
  with bump_map_ok [OF assms(1,2), where v = v and ppn = ppn and z = z]
  have vac: "vacant m r (page_path v z)" and inv: "boot_inv mb' m' r"
    and eff: "map_effect m m' r (page_path v z) (pte_new ppn (flags OR PTE_V))" by simp_all
  from walk_map_effect [OF eff] r vac inv show ?thesis
    by (simp add: pte_ppn_new [OF assms(3)] pte_flags_new)
qed

theorem bump_map_correct_witness:
  "\<exists>mb mb' m'. bump_map (mb, \<lambda>_. 0) 0x80200000 (VirtPageNum 2) (PhysPageNum 0x80000) (PTE_R OR PTE_X) OneGB = Inr (mb', m')
     \<and> sv39_walk m' 0x80200000 (vpn_path (VirtPageNum 5)) = Some (PhysPageNum 0x80000, (PTE_R OR PTE_X) OR PTE_V, 2)"
proof -
  obtain mb where inv: "boot_inv mb (\<lambda>_. 0) 0x80200000" using boot_inv_example by blast
  have vac: "vacant (\<lambda>_. 0) 0x80200000 (page_path (VirtPageNum 2) OneGB)"
    by (rule vacant_empty) (simp add: target_level_def)
  have path: "page_path (VirtPageNum 5) OneGB = page_path (VirtPageNum 2) OneGB"
    by (simp add: target_level_def vpn_path_def indices_eq)
  have "target_level OneGB = 1" by (simp add: target_level_def)
  with bump_map_correct [OF inv leaf_flags_RX, of "PhysPageNum 0x80000" OneGB "VirtPageNum 2"] vac
  obtain mb' m' where b: "bump_map (mb, \<lambda>_. 0) 0x80200000 (VirtPageNum 2) (PhysPageNum 0x80000) (PTE_R OR PTE_X) OneGB = Inr (mb', m')"
    and w: "\<forall>w. sv39_walk m' 0x80200000 (vpn_path w) = (if page_path w OneGB = page_path (VirtPageNum 2) OneGB
            then Some (PhysPageNum 0x80000, (PTE_R OR PTE_X) OR PTE_V, 2) else sv39_walk (\<lambda>_. 0) 0x80200000 (vpn_path w))"
    by auto
  from w path have "sv39_walk m' 0x80200000 (vpn_path (VirtPageNum 5)) = Some (PhysPageNum 0x80000, (PTE_R OR PTE_X) OR PTE_V, 2)"
    by presburger
  with b show ?thesis by blast
qed

text \<open>C24. Unmapping a page. If the table entry is valid, the call succeeds, every page number inside
  the page is no longer translated, and the walk of every other page number is as before.
  Otherwise it panics and changes nothing.\<close>

theorem unmap_correct:
  assumes "boot_inv mb m r"
  shows "if pte_at m r (page_path v z) \<noteq> None
    then \<exists>m'. unmap m (phys_to_virt r) v z = Inr m' \<and> boot_inv mb m' r
      \<and> (\<forall>w. sv39_walk m' r (vpn_path w) = (if page_path w z = page_path v z then None else sv39_walk m r (vpn_path w)))
    else \<exists>f. unmap m (phys_to_virt r) v z = Inl f"
proof (cases "unmap m (phys_to_virt r) v z")
  case (Inl f)
  then show ?thesis using unmap_page_ok [OF assms, where v = v and z = z] by simp
next
  case (Inr m')
  then have u: "pte_at m r (page_path v z) \<noteq> None" "boot_inv mb m' r" "unmap_effect m m' r (page_path v z)"
    using unmap_page_ok [OF assms, where v = v and z = z] by simp_all
  from walk_unmap_effect [OF u(3,1)] Inr u(1,2) show ?thesis by simp
qed

theorem unmap_correct_witness:
  "\<exists>mb mb' m' m''. bump_map (mb, \<lambda>_. 0) 0x80200000 (VirtPageNum 2) (PhysPageNum 0x80000) (PTE_R OR PTE_X) OneGB = Inr (mb', m')
     \<and> unmap m' (phys_to_virt 0x80200000) (VirtPageNum 2) OneGB = Inr m''
     \<and> sv39_walk m'' 0x80200000 (vpn_path (VirtPageNum 2)) = None"
proof -
  obtain mb mb' m' where inv: "boot_inv mb (\<lambda>_. 0) 0x80200000"
    and b: "bump_map (mb, \<lambda>_. 0) 0x80200000 (VirtPageNum 2) (PhysPageNum 0x80000) (PTE_R OR PTE_X) OneGB = Inr (mb', m')"
    using boot_map_example by blast
  have inv': "boot_inv mb' m' 0x80200000"
    and eff: "map_effect (\<lambda>_. 0) m' 0x80200000 (page_path (VirtPageNum 2) OneGB) (pte_new (PhysPageNum 0x80000) ((PTE_R OR PTE_X) OR PTE_V))"
    using bump_map_ok [OF inv leaf_flags_RX, where v = "VirtPageNum 2" and z = OneGB and ppn = "PhysPageNum 0x80000"] b by simp_all
  have at: "pte_at m' 0x80200000 (page_path (VirtPageNum 2) OneGB) \<noteq> None"
    using map_effect_pte [OF eff page_path_parts(3)] .
  from unmap_correct [OF inv', where v = "VirtPageNum 2" and z = OneGB]
  obtain m'' where u: "unmap m' (phys_to_virt 0x80200000) (VirtPageNum 2) OneGB = Inr m''"
    "\<forall>w. sv39_walk m'' 0x80200000 (vpn_path w) = (if page_path w OneGB = page_path (VirtPageNum 2) OneGB then None
       else sv39_walk m' 0x80200000 (vpn_path w))" unfolding if_P [OF at] by blast
  from u(2) have "sv39_walk m'' 0x80200000 (vpn_path (VirtPageNum 2)) = None" by simp
  with u(1) b show ?thesis by blast
qed

text \<open>Mapping a vacant page and unmapping it again restores the translation of every address.\<close>

theorem map_unmap_round_trip:
  assumes "boot_inv mb m r" and "leaf_flags flags" and "bump_map (mb, m) r v ppn flags z = Inr (mb', m')"
  shows "\<exists>m''. unmap m' (phys_to_virt r) v z = Inr m'' \<and> (\<forall>w. sv39_walk m'' r (vpn_path w) = sv39_walk m r (vpn_path w))"
proof -
  have vac: "vacant m r (page_path v z)" and inv: "boot_inv mb' m' r"
    and eff: "map_effect m m' r (page_path v z) (pte_new ppn (flags OR PTE_V))"
    using bump_map_ok [OF assms(1,2), where v = v and ppn = ppn and z = z] assms(3) by simp_all
  have at: "pte_at m' r (page_path v z) \<noteq> None"
    using map_effect_pte [OF eff page_path_parts(3)] .
  obtain m'' where u: "unmap m' (phys_to_virt r) v z = Inr m''" "unmap_effect m' m'' r (page_path v z)"
  proof (cases "unmap m' (phys_to_virt r) v z")
    case (Inl f)
    then show ?thesis using unmap_page_ok [OF inv, where v = v and z = z] at by simp
  next
    case (Inr m2)
    then show ?thesis using unmap_page_ok [OF inv, where v = v and z = z] that by simp
  qed
  have "sv39_walk m'' r (vpn_path w) = sv39_walk m r (vpn_path w)" for w
    using walk_unmap_effect [OF u(2) at, of w] walk_map_effect [OF eff, of w] walk_vacant [OF vac, of w] by auto
  with u(1) show ?thesis by blast
qed

theorem map_unmap_round_trip_witness:
  "\<exists>mb mb' m' m''. bump_map (mb, \<lambda>_. 0) 0x80200000 (VirtPageNum 2) (PhysPageNum 0x80000) (PTE_R OR PTE_X) OneGB = Inr (mb', m')
     \<and> unmap m' (phys_to_virt 0x80200000) (VirtPageNum 2) OneGB = Inr m''
     \<and> (\<forall>w. sv39_walk m'' 0x80200000 (vpn_path w) = sv39_walk (\<lambda>_. 0) 0x80200000 (vpn_path w))"
proof -
  obtain mb mb' m' where inv: "boot_inv mb (\<lambda>_. 0) 0x80200000"
    and b: "bump_map (mb, \<lambda>_. 0) 0x80200000 (VirtPageNum 2) (PhysPageNum 0x80000) (PTE_R OR PTE_X) OneGB = Inr (mb', m')"
    using boot_map_example by blast
  from map_unmap_round_trip [OF inv leaf_flags_RX b] b show ?thesis by blast
qed

section \<open>Tables that are not cleared\<close>




end
