(* ===== verification/Map_Segment.thy ===== *)
theory Map_Segment
  imports Page_Table
begin

text \<open>
  \<open>map_segment\<close> of \<open>src/mm/mod.rs\<close>: a physical range is mapped or unmapped page by page, with 2 MiB pages
  in the aligned middle and 4 KiB pages at both ends. The loops are shown to visit exactly the
  pages of \<open>segment_pages\<close>, which tile the range; the effect on address translation follows from
  the effect of a single page.
\<close>

section \<open>Segments\<close>

datatype boot_map_type = Identical | Linear

datatype map_action = Map_flags u8 | Unmap

definition pa_to_va :: "boot_map_type \<Rightarrow> usize \<Rightarrow> usize" where
  "pa_to_va map_type pa = (case map_type of Identical \<Rightarrow> pa | Linear \<Rightarrow> phys_to_virt pa)"

definition apply_action ::
  "usize \<Rightarrow> boot_map_type \<Rightarrow> map_action \<Rightarrow> page_size \<Rightarrow> usize \<Rightarrow> memblock \<times> memory \<Rightarrow> (memblock \<times> memory) res" where
  "apply_action root_pt map_type action psize pa s =
     (let va = pa_to_va map_type pa in
      rbind (vpn_from_va (va_from_usize va)) (\<lambda>vpn. case action of
          Map_flags flags \<Rightarrow> rbind (ppn_from_pa (PhysAddr pa)) (\<lambda>ppn. bump_map s root_pt vpn ppn flags psize)
        | Unmap \<Rightarrow> (case s of (mb, m) \<Rightarrow> rbind (unmap m root_pt vpn psize) (\<lambda>m'. Inr (mb, m')))))"

partial_function (option) segment_loop ::
  "(usize \<Rightarrow> 's \<Rightarrow> 's res) \<Rightarrow> usize \<Rightarrow> usize \<Rightarrow> usize \<Rightarrow> 's \<Rightarrow> 's res option" where
  "segment_loop act current_pa stop step s =
     (if current_pa < stop
      then (case act current_pa s of
              Inl f \<Rightarrow> Some (Inl f)
            | Inr s' \<Rightarrow> segment_loop act (current_pa + step) stop step s')
      else Some (Inr s))"

definition run_segment :: "(usize \<Rightarrow> 's \<Rightarrow> 's res) \<Rightarrow> usize \<Rightarrow> usize \<Rightarrow> usize \<Rightarrow> 's \<Rightarrow> 's res" where
  "run_segment act current_pa stop step s =
     (case segment_loop act current_pa stop step s of None \<Rightarrow> Inl Diverges | Some r \<Rightarrow> r)"

definition map_segment ::
  "usize \<Rightarrow> usize \<Rightarrow> usize \<Rightarrow> boot_map_type \<Rightarrow> map_action \<Rightarrow> memblock \<times> memory \<Rightarrow> (memblock \<times> memory) res" where
  "map_segment start_addr end_addr root_pt map_type action s =
     (let page_start = align_down start_addr PAGE_SIZE;
          page_end = align_up end_addr PAGE_SIZE;
          aligned_start = min (align_up page_start 0x200000) page_end;
          aligned_end = max (align_down page_end 0x200000) aligned_start;
          head_end = min aligned_start page_end;
          mid_end = min aligned_end page_end;
          act = apply_action root_pt map_type action
      in rbind (run_segment (act FourKB) page_start head_end PAGE_SIZE s) (\<lambda>s1.
         rbind (run_segment (act TwoMB) aligned_start mid_end 0x200000 s1) (\<lambda>s2.
         run_segment (act FourKB) mid_end page_end PAGE_SIZE s2)))"

declare segment_loop.simps [code]

section \<open>The pages of a segment\<close>

definition page_bytes :: "page_size \<Rightarrow> nat" where
  "page_bytes z = (case z of FourKB \<Rightarrow> 0x1000 | TwoMB \<Rightarrow> 0x200000 | OneGB \<Rightarrow> 0x40000000)"

definition chunk :: "nat \<Rightarrow> nat \<Rightarrow> page_size \<Rightarrow> (nat \<times> page_size) list" where
  "chunk a n z = map (\<lambda>k. (a + k * page_bytes z, z)) [0..<n]"

definition segment_pages :: "nat \<Rightarrow> nat \<Rightarrow> (nat \<times> page_size) list" where
  "segment_pages lo hi =
     (let ms = min ((lo + 0x1FFFFF) div 0x200000 * 0x200000) hi;
          me = max (hi div 0x200000 * 0x200000) ms
      in chunk lo ((ms - lo) div 0x1000) FourKB @ chunk ms ((me - ms) div 0x200000) TwoMB
         @ chunk me ((hi - me) div 0x1000) FourKB)"

fun act_all :: "(page_size \<Rightarrow> usize \<Rightarrow> 's \<Rightarrow> 's res) \<Rightarrow> (nat \<times> page_size) list \<Rightarrow> 's \<Rightarrow> 's res" where
  "act_all act [] s = Inr s"
| "act_all act ((a, z) # ps) s = rbind (act z (of_nat a) s) (act_all act ps)"

abbreviation page_range :: "nat \<times> page_size \<Rightarrow> nat set" where
  "page_range x \<equiv> {fst x ..< fst x + page_bytes (snd x)}"

lemma page_bytes_pos [simp]: "0 < page_bytes z"
  by (cases z) (simp_all add: page_bytes_def)

lemma act_all_append: "act_all act (ps @ qs) s = rbind (act_all act ps s) (act_all act qs)"
proof (induction ps arbitrary: s)
  case (Cons x ps)
  then have "act_all act (ps @ qs) = (\<lambda>t. rbind (act_all act ps t) (act_all act qs))" by blast
  then show ?case by (cases x) (simp add: rbind_assoc)
qed simp

lemma act_all_append_fun: "act_all act (ps @ qs) = (\<lambda>s. rbind (act_all act ps s) (act_all act qs))"
  by (rule ext) (rule act_all_append)

lemma chunk_0 [simp]: "chunk a 0 z = []"
  by (simp add: chunk_def)

lemma chunk_Suc: "chunk a (Suc n) z = (a, z) # chunk (a + page_bytes z) n z"
proof -
  have "[0..<Suc n] = 0 # map Suc [0..<n]" by (simp add: upt_conv_Cons map_Suc_upt)
  then show ?thesis by (simp add: chunk_def add.assoc)
qed

lemma segment_loop_chunk:
  assumes "unat cur + n * page_bytes z = unat stop" and "unat step = page_bytes z"
  shows "segment_loop (act z) cur stop step s = Some (act_all act (chunk (unat cur) n z) s)"
  using assms(1)
proof (induction n arbitrary: cur s)
  case 0
  then show ?case by (subst segment_loop.simps) (simp add: word_less_nat_alt)
next
  case (Suc n)
  have "unat cur + page_bytes z \<le> unat stop" using Suc.prems by simp
  then have lt: "cur < stop" using page_bytes_pos [of z] unfolding word_less_nat_alt by linarith
  have "unat cur + unat step \<le> unat stop" using Suc.prems assms(2) by simp
  then have "unat cur + unat step < 18446744073709551616"
    using unat_usize_less [of stop] by (rule le_less_trans)
  then have n: "unat (cur + step) = unat cur + page_bytes z" using assms(2) by (simp add: unat_word_plus)
  then have "segment_loop (act z) (cur + step) stop step t =
      Some (act_all act (chunk (unat cur + page_bytes z) n z) t)" for t
    using Suc.IH [of "cur + step" t] Suc.prems by simp
  then show ?case using lt
    by (subst segment_loop.simps) (simp add: chunk_Suc rbind_def split: sum.splits)
qed

lemma run_segment_chunk:
  assumes "unat cur + n * page_bytes z = unat stop" and "unat step = page_bytes z"
  shows "run_segment (act z) cur stop step s = act_all act (chunk (unat cur) n z) s"
  using segment_loop_chunk [OF assms, of act s] by (simp add: run_segment_def)

lemma chunk_range: "(\<Union>x \<in> set (chunk a n z). page_range x) = {a ..< a + n * page_bytes z}"
proof (induction n arbitrary: a)
  case (Suc n)
  have "{a ..< a + page_bytes z} \<union> {a + page_bytes z ..< a + page_bytes z + n * page_bytes z}
      = {a ..< a + Suc n * page_bytes z}" by (subst ivl_disj_un_two) (simp_all add: add.assoc)
  then show ?case using Suc by (simp add: chunk_Suc)
qed simp

lemma chunk_sorted: "sorted_wrt (\<lambda>x y. fst x + page_bytes (snd x) \<le> fst y) (chunk a n z)"
proof (induction n arbitrary: a)
  case (Suc n)
  have "a + page_bytes z \<le> fst y" if "y \<in> set (chunk (a + page_bytes z) n z)" for y
    using that by (auto simp: chunk_def)
  with Suc show ?case by (simp add: chunk_Suc)
qed simp

text \<open>The boundaries between the three parts.\<close>

lemma segment_bounds:
  fixes lo hi :: nat
  assumes "lo \<le> hi" and "0x1000 dvd lo" and "0x1000 dvd hi"
  defines "ms \<equiv> min ((lo + 0x1FFFFF) div 0x200000 * 0x200000) hi"
  defines "me \<equiv> max (hi div 0x200000 * 0x200000) ms"
  shows "lo \<le> ms" "ms \<le> me" "me \<le> hi" "0x1000 dvd ms - lo" "0x200000 dvd me - ms" "0x1000 dvd hi - me"
    and "0x1000 dvd ms" "0x1000 dvd me" and "ms < me \<Longrightarrow> 0x200000 dvd ms"
proof -
  have ce: "lo \<le> (lo + 0x1FFFFF) div 0x200000 * 0x200000"
    using div_mult_mod_eq [of "lo + 0x1FFFFF" "0x200000"] mod_less_divisor [of "0x200000" "lo + 0x1FFFFF"] by linarith
  show "lo \<le> ms" using ce assms(1) by (simp add: ms_def)
  have fl: "hi div 0x200000 * 0x200000 \<le> hi" by simp
  show "ms \<le> me" by (simp add: me_def)
  show "me \<le> hi" using fl by (simp add: me_def ms_def)
  have big: "(0x1000::nat) dvd x div 0x200000 * 0x200000" for x by (rule dvd_mult) (simp add: dvd_eq_mod_eq_0)
  show dms: "0x1000 dvd ms" using big assms(3) by (simp add: ms_def min_def)
  then show dme: "0x1000 dvd me" using big by (simp add: me_def max_def)
  show "0x1000 dvd ms - lo" "0x1000 dvd hi - me" using dms dme assms(2,3) by (simp_all add: dvd_diff_nat)
  show al: "0x200000 dvd ms" if "ms < me"
  proof -
    have "ms \<noteq> hi" using that \<open>me \<le> hi\<close> by simp
    then show ?thesis by (simp add: ms_def min_def split: if_splits)
  qed
  show "0x200000 dvd me - ms"
  proof (cases "ms < me")
    case True
    then have "me = hi div 0x200000 * 0x200000" by (simp add: me_def max_def split: if_splits)
    then have "0x200000 dvd me" by simp
    with al [OF True] show ?thesis by (intro dvd_diff_nat)
  next
    case False
    then show ?thesis using \<open>ms \<le> me\<close> by simp
  qed
qed

lemma segment_pages_tile:
  assumes "lo \<le> hi" and "0x1000 dvd lo" and "0x1000 dvd hi"
  shows "(\<Union>x \<in> set (segment_pages lo hi). page_range x) = {lo ..< hi}"
    and "sorted_wrt (\<lambda>x y. fst x + page_bytes (snd x) \<le> fst y) (segment_pages lo hi)"
    and "\<And>a z. (a, z) \<in> set (segment_pages lo hi) \<Longrightarrow> page_bytes z dvd a \<and> z \<noteq> OneGB"
proof -
  define ms where "ms = min ((lo + 0x1FFFFF) div 0x200000 * 0x200000) hi"
  define me where "me = max (hi div 0x200000 * 0x200000) ms"
  note b = segment_bounds [OF assms, folded ms_def, folded me_def]
  have sp: "segment_pages lo hi = chunk lo ((ms - lo) div 0x1000) FourKB @ chunk ms ((me - ms) div 0x200000) TwoMB
      @ chunk me ((hi - me) div 0x1000) FourKB"
    by (simp add: segment_pages_def ms_def me_def Let_def)
  have pb: "page_bytes FourKB = 0x1000" "page_bytes TwoMB = 0x200000" by (simp_all add: page_bytes_def)
  have r: "(\<Union>x \<in> set (chunk lo ((ms - lo) div 0x1000) FourKB). page_range x) = {lo ..< ms}"
    "(\<Union>x \<in> set (chunk ms ((me - ms) div 0x200000) TwoMB). page_range x) = {ms ..< me}"
    "(\<Union>x \<in> set (chunk me ((hi - me) div 0x1000) FourKB). page_range x) = {me ..< hi}"
    unfolding chunk_range pb using b by simp_all
  show "(\<Union>x \<in> set (segment_pages lo hi). page_range x) = {lo ..< hi}"
    unfolding sp set_append UN_Un r using b(1-3) by auto
  have in_r: "lo' \<le> fst x \<and> fst x + page_bytes (snd x) \<le> hi'"
    if "x \<in> set C" "(\<Union>x \<in> set C. page_range x) = {lo' ..< hi'}" for x C lo' hi'
  proof -
    have "page_range x \<subseteq> {lo' ..< hi'}" using that by blast
    then show ?thesis using page_bytes_pos [of "snd x"] by simp
  qed
  show "sorted_wrt (\<lambda>x y. fst x + page_bytes (snd x) \<le> fst y) (segment_pages lo hi)"
  proof -
    have "fst x + page_bytes (snd x) \<le> fst y"
      if "x \<in> set (chunk lo ((ms - lo) div 0x1000) FourKB)"
        "y \<in> set (chunk ms ((me - ms) div 0x200000) TwoMB @ chunk me ((hi - me) div 0x1000) FourKB)" for x y
      using in_r [OF that(1) r(1)] in_r [OF _ r(2), of y] in_r [OF _ r(3), of y] that(2) b(2) by auto
    moreover have "fst x + page_bytes (snd x) \<le> fst y"
      if "x \<in> set (chunk ms ((me - ms) div 0x200000) TwoMB)" "y \<in> set (chunk me ((hi - me) div 0x1000) FourKB)" for x y
      using in_r [OF that(1) r(2)] in_r [OF that(2) r(3)] by auto
    ultimately show ?thesis unfolding sp sorted_wrt_append using chunk_sorted by blast
  qed
  show "page_bytes z dvd a \<and> z \<noteq> OneGB" if "(a, z) \<in> set (segment_pages lo hi)" for a z
  proof -
    have aligned: "page_bytes z' dvd a' \<and> z = z'" if "(a, z) \<in> set (chunk a' n z')" "n \<noteq> 0 \<longrightarrow> page_bytes z' dvd a'" for a' n z'
      using that by (auto simp: chunk_def)
    have mem: "page_bytes z dvd a" if "(a, z) \<in> set (chunk a' n z')" "page_bytes z' dvd a'" for a' n z'
      using that by (auto simp: chunk_def)
    have "(me - ms) div 0x200000 \<noteq> 0 \<Longrightarrow> 0x200000 dvd ms" using b(9) by (cases "ms < me") simp_all
    then show ?thesis using that unfolding sp set_append Un_iff
      using mem aligned [of me _ FourKB] aligned [of lo _ FourKB] aligned [of ms "(me - ms) div 0x200000" TwoMB] b(7,8) assms(2) pb
      by (metis page_size.distinct(3) page_size.distinct(5))
  qed
qed

lemma map_segment_eq:
  assumes "unat start \<le> unat stop" and "unat stop + 0x200000 < 2 ^ 64"
  shows "map_segment start stop r mt ac s = act_all (apply_action r mt ac)
    (segment_pages (unat start div 0x1000 * 0x1000) ((unat stop + 0xFFF) div 0x1000 * 0x1000)) s"
proof -
  define lo where "lo = unat start div 0x1000 * 0x1000"
  define hi where "hi = (unat stop + 0xFFF) div 0x1000 * 0x1000"
  define ms where "ms = min ((lo + 0x1FFFFF) div 0x200000 * 0x200000) hi"
  define me where "me = max (hi div 0x200000 * 0x200000) ms"
  have le: "lo \<le> hi" unfolding lo_def hi_def by (rule mult_le_mono1, rule div_le_mono) (use assms(1) in simp)
  have hb: "hi \<le> unat stop + 0xFFF" unfolding hi_def by (rule div_times_less_eq_dividend)
  have lb: "lo \<le> unat stop"
    using assms(1) div_times_less_eq_dividend [of "unat start" "0x1000"] unfolding lo_def by linarith
  note b = segment_bounds [OF le, folded ms_def, folded me_def]
  have dv: "0x1000 dvd lo" "0x1000 dvd hi" by (simp_all add: lo_def hi_def)
  note b = b [OF dv]
  have P: "PAGE_SIZE = 2 ^ 12" "(0x200000 :: usize) = 2 ^ 21" by (simp_all add: PAGE_SIZE_def)
  let ?ps = "align_down start PAGE_SIZE" and ?pe = "align_up stop PAGE_SIZE"
  have ps: "unat ?ps = lo" unfolding P unat_align_down by (simp add: lo_def)
  have pe: "unat ?pe = hi" unfolding P using assms(2) by (subst unat_align_up) (simp_all add: hi_def)
  have up: "unat (align_up ?ps 0x200000) = (lo + 0x1FFFFF) div 0x200000 * 0x200000"
    unfolding P(2) using ps lb assms(2) by (subst unat_align_up) simp_all
  have dn: "unat (align_down ?pe 0x200000) = hi div 0x200000 * 0x200000" unfolding P(2) unat_align_down pe by simp
  have um: "unat (min x y) = min (unat x) (unat y)" "unat (max x y) = max (unat x) (unat y)" for x y :: usize
    by (simp_all add: min_def max_def word_le_nat_alt)
  let ?as = "min (align_up ?ps 0x200000) ?pe" let ?ae = "max (align_down ?pe 0x200000) ?as"
  have as: "unat ?as = ms" by (simp add: um up pe ms_def)
  have ae: "unat ?ae = me" by (simp add: um dn as me_def del: um(1))
  have hd: "min ?as ?pe = ?as" and md: "min ?ae ?pe = ?ae"
    using as ae pe b(1-3) by (simp_all add: min_def word_le_nat_alt)
  have step: "unat PAGE_SIZE = page_bytes FourKB" "unat (0x200000 :: usize) = page_bytes TwoMB"
    by (simp_all add: page_bytes_def PAGE_SIZE_def)
  let ?act = "apply_action r mt ac"
  have "run_segment (?act FourKB) ?ps ?as PAGE_SIZE t = act_all ?act (chunk lo ((ms - lo) div 0x1000) FourKB) t" for t
    unfolding ps [symmetric] by (rule run_segment_chunk [OF _ step(1)]) (use b ps as in \<open>simp add: page_bytes_def\<close>)
  moreover have "run_segment (?act TwoMB) ?as ?ae 0x200000 t = act_all ?act (chunk ms ((me - ms) div 0x200000) TwoMB) t" for t
    unfolding as [symmetric] by (rule run_segment_chunk [OF _ step(2)]) (use b ae as in \<open>simp add: page_bytes_def\<close>)
  moreover have "run_segment (?act FourKB) ?ae ?pe PAGE_SIZE = act_all ?act (chunk me ((hi - me) div 0x1000) FourKB)"
    unfolding ae [symmetric] by (rule ext, rule run_segment_chunk [OF _ step(1)]) (use b ae pe in \<open>simp add: page_bytes_def\<close>)
  ultimately show ?thesis
    unfolding map_segment_def Let_def hd md lo_def [symmetric] hi_def [symmetric]
    by (simp add: segment_pages_def ms_def [symmetric] me_def [symmetric] Let_def act_all_append_fun)
qed

section \<open>Paths of addresses\<close>

lemma canonical_bounds:
  assumes "canonical va"
  shows "unat va < 2 ^ 38 \<or> 2 ^ 64 - 2 ^ 38 \<le> unat va"
proof -
  have top: "bit va k \<longleftrightarrow> bit va 38" if "38 \<le> k" "k < 64" for k
  proof -
    have "bit va k \<longleftrightarrow> bit (signed_take_bit 38 va) k" using assms by (simp add: canonical_def)
    also have "\<dots> \<longleftrightarrow> bit va 38" using that by (simp add: bit_signed_take_bit_iff min_def)
    finally show ?thesis .
  qed
  have small: "unat x < 2 ^ 38" if "\<And>k. 38 \<le> k \<Longrightarrow> k < 64 \<Longrightarrow> \<not> bit x k" for x :: usize
  proof -
    have "take_bit 38 x = x"
    proof (rule bit_word_eqI)
      fix n
      assume "n < LENGTH(64)"
      then show "bit (take_bit 38 x) n \<longleftrightarrow> bit x n" using that [of n] by (cases "38 \<le> n") (simp_all add: bit_take_bit_iff)
    qed
    then have "unat x = unat (take_bit 38 x)" by simp
    also have "\<dots> = take_bit 38 (unat x)" by (rule unsigned_take_bit_eq)
    also have "\<dots> < 2 ^ 38" by (rule take_bit_nat_less_exp)
    finally show ?thesis .
  qed
  show ?thesis
  proof (cases "bit va 38")
    case False
    then show ?thesis using small [of va] top by blast
  next
    case True
    have "\<not> bit (NOT va) k" if "38 \<le> k" "k < 64" for k using top [OF that] True by (simp add: bit_not_iff)
    then have "unat (NOT va) < 2 ^ 38" by (rule small)
    moreover have "NOT va = - 1 - va" by (simp add: not_eq_complement)
    moreover have "unat (- 1 - va) = unat (- 1 :: usize) - unat va"
      by (rule unat_word_minus) (use word_n1_ge [of va] in \<open>simp only: word_le_nat_alt\<close>)
    moreover have "unat (- 1 :: usize) = 2 ^ 64 - 1" by (simp add: unsigned_minus_1_eq_mask mask_eq_exp_minus_1)
    ultimately have "18446744073709551615 - unat va < 274877906944" by simp
    then have "18446743798831644672 \<le> unat va" by linarith
    then show ?thesis by simp
  qed
qed

lemma va_path_eq:
  "va_path va = [unat va div 2 ^ 30 mod 512, unat va div 2 ^ 21 mod 512, unat va div 2 ^ 12 mod 512]"
proof -
  have "unat (vpn_val (va_floor (VirtAddr va))) = unat va div 4096"
    by (simp add: va_floor_def unat_shr PAGE_SIZE_BITS_def)
  then show ?thesis unfolding va_path_def vpn_path_def unat_indices
    by (simp add: div_mult2_eq [symmetric])
qed

lemma page_bytes_levels: "page_bytes z = 4096 * 512 ^ (3 - target_level z)"
  by (cases z) (simp_all add: page_bytes_def target_level_def)

lemma top_index_determines:
  fixes a b :: nat
  assumes "a < 2 ^ 38 \<or> 2 ^ 64 - 2 ^ 38 \<le> a" "a < 2 ^ 64" "b < 2 ^ 38 \<or> 2 ^ 64 - 2 ^ 38 \<le> b" "b < 2 ^ 64"
    and "a div 2 ^ 30 mod 512 = b div 2 ^ 30 mod 512"
  shows "a div 2 ^ 30 = b div 2 ^ 30"
proof -
  have q: "x div 2 ^ 30 < 256 \<or> 17179868928 \<le> x div 2 ^ 30 \<and> x div 2 ^ 30 < 17179869184"
    if "x < 2 ^ 38 \<or> 2 ^ 64 - 2 ^ 38 \<le> x" "x < 2 ^ 64" for x :: nat
    using that(1)
  proof
    assume "x < 2 ^ 38"
    then have "x div 2 ^ 30 < 256" by (simp add: less_mult_imp_div_less)
    then show ?thesis by simp
  next
    assume "2 ^ 64 - 2 ^ 38 \<le> x"
    then have "(2 ^ 64 - 2 ^ 38) div 2 ^ 30 \<le> x div 2 ^ 30" by (rule div_le_mono)
    moreover have "x div 2 ^ 30 < 17179869184" using that(2) by (simp add: less_mult_imp_div_less)
    ultimately show ?thesis by simp
  qed
  have m: "p mod 512 = (if p < 256 then p else p - 17179868672)"
    if "p < 256 \<or> 17179868928 \<le> p \<and> p < 17179869184" for p :: nat
  proof (cases "p < 256")
    case False
    with that have b: "17179868928 \<le> p" "p < 17179869184" by simp_all
    then have "p = (p - 17179868672) + 33554431 * 512" by simp
    then have "p mod 512 = (p - 17179868672) mod 512" by (metis mod_mult_self1)
    also have "\<dots> = p - 17179868672" using b by (intro mod_less) linarith
    finally show ?thesis using False by simp
  qed simp
  have "p = q" if "p < 256 \<or> 17179868928 \<le> p \<and> p < 17179869184" "q < 256 \<or> 17179868928 \<le> q \<and> q < 17179869184"
    "p mod 512 = q mod 512" for p q :: nat
    using that(3) that(1,2) unfolding m [OF that(1)] m [OF that(2)] by (auto split: if_splits)
  then show ?thesis using q [OF assms(1,2)] q [OF assms(3,4)] assms(5) by blast
qed

lemma path_prefix_iff:
  assumes "canonical va" and "canonical w"
  shows "take (target_level z) (va_path va) = take (target_level z) (va_path w)
    \<longleftrightarrow> unat va div page_bytes z = unat w div page_bytes z"
proof -
  let ?a = "unat va" and ?b = "unat w"
  have d1: "?a div 2 ^ 30 mod 512 = ?b div 2 ^ 30 mod 512 \<longleftrightarrow> ?a div 2 ^ 30 = ?b div 2 ^ 30"
    using top_index_determines [of ?a ?b] canonical_bounds [OF assms(1)] canonical_bounds [OF assms(2)]
      unat_usize_less_pow [of va] unat_usize_less_pow [of w] by metis
  have down: "x div 2 ^ 30 = x div 2 ^ 21 div 512" "x div 2 ^ 21 = x div 2 ^ 12 div 512" for x :: nat
    by (simp_all add: div_mult2_eq [symmetric])
  have both: "p = q \<longleftrightarrow> p div 512 = q div 512 \<and> p mod 512 = q mod 512" for p q :: nat
    by (metis div_mult_mod_eq)
  have d2: "?a div 2 ^ 21 = ?b div 2 ^ 21 \<longleftrightarrow> ?a div 2 ^ 30 = ?b div 2 ^ 30 \<and> ?a div 2 ^ 21 mod 512 = ?b div 2 ^ 21 mod 512"
    using both [of "?a div 2 ^ 21" "?b div 2 ^ 21"] down(1) by metis
  have d3: "?a div 2 ^ 12 = ?b div 2 ^ 12 \<longleftrightarrow> ?a div 2 ^ 21 = ?b div 2 ^ 21 \<and> ?a div 2 ^ 12 mod 512 = ?b div 2 ^ 12 mod 512"
    using both [of "?a div 2 ^ 12" "?b div 2 ^ 12"] down(2) by metis
  have pb: "page_bytes FourKB = 2 ^ 12" "page_bytes TwoMB = 2 ^ 21" "page_bytes OneGB = 2 ^ 30"
    by (simp_all add: page_bytes_def)
  show ?thesis unfolding va_path_eq
    by (cases z) (simp_all only: pb d3 d2 d1 [symmetric] target_level_def page_size.case, simp_all)
qed

text \<open>The address at which a mapping type puts the physical address \<open>x\<close>.\<close>

definition va_offset :: "boot_map_type \<Rightarrow> nat" where
  "va_offset mt = (case mt of Identical \<Rightarrow> 0 | Linear \<Rightarrow> 0xFFFFFFFF00000000)"

lemma pa_to_va_facts:
  assumes "x < 2 ^ 32"
  shows "unat (pa_to_va mt (of_nat x)) = x + va_offset mt" and "canonical (pa_to_va mt (of_nat x))"
proof -
  have u: "unat (of_nat x :: usize) = x" using assms by (simp add: unat_of_nat)
  show "unat (pa_to_va mt (of_nat x)) = x + va_offset mt"
  proof (cases mt)
    case Linear
    have "unat (of_nat x :: usize) + unat PHYS_VIRT_OFFSET < 18446744073709551616"
      using assms u by (simp add: PHYS_VIRT_OFFSET_def)
    from unat_word_plus [OF this] u Linear show ?thesis
      by (simp add: pa_to_va_def phys_to_virt_def va_offset_def PHYS_VIRT_OFFSET_def)
  qed (simp add: pa_to_va_def va_offset_def u)
  show "canonical (pa_to_va mt (of_nat x))"
  proof (cases mt)
    case Identical
    have "\<not> bit (of_nat x :: usize) k" if "32 \<le> k" for k using bit_small [of "of_nat x" 32 k] u assms that by simp
    then have "signed_take_bit 38 (of_nat x :: usize) = of_nat x"
      by (intro bit_word_eqI) (simp add: bit_signed_take_bit_iff min_def)
    then show ?thesis using Identical by (simp add: canonical_def pa_to_va_def)
  next
    case Linear
    then show ?thesis using canonical_linear [of "of_nat x"] u assms by (simp add: pa_to_va_def)
  qed
qed

definition page_key :: "boot_map_type \<Rightarrow> nat \<times> page_size \<Rightarrow> nat list" where
  "page_key mt x = take (target_level (snd x)) (va_path (pa_to_va mt (of_nat (fst x))))"

lemma va_offset_dvd: "page_bytes z dvd va_offset mt"
  by (cases z; cases mt) (simp_all add: page_bytes_def va_offset_def dvd_eq_mod_eq_0)

lemma page_key_iff:
  assumes "page_bytes z dvd a" and "a + page_bytes z \<le> 2 ^ 32" and "canonical w"
  shows "take (target_level z) (va_path w) = page_key mt (a, z)
    \<longleftrightarrow> unat w \<in> {a + va_offset mt ..< a + va_offset mt + page_bytes z}"
proof -
  have a: "a < 2 ^ 32" using assms(2) page_bytes_pos [of z] by linarith
  obtain q where q: "a + va_offset mt = page_bytes z * q"
    using assms(1) va_offset_dvd [of z mt] by (meson dvd_add dvdE)
  have "take (target_level z) (va_path w) = page_key mt (a, z) \<longleftrightarrow> unat w div page_bytes z = (a + va_offset mt) div page_bytes z"
    using path_prefix_iff [OF assms(3) pa_to_va_facts(2) [OF a], of z mt] pa_to_va_facts(1) [OF a] by (simp add: page_key_def)
  also have "\<dots> \<longleftrightarrow> unat w div page_bytes z = q" using q by simp
  also have "\<dots> \<longleftrightarrow> page_bytes z * q \<le> unat w \<and> unat w < page_bytes z * q + page_bytes z"
  proof
    assume "unat w div page_bytes z = q"
    then show "page_bytes z * q \<le> unat w \<and> unat w < page_bytes z * q + page_bytes z"
      using dividend_less_times_div [OF page_bytes_pos, of "unat w" z] times_div_less_eq_dividend [of "page_bytes z" "unat w"]
      by (simp add: add.commute)
  next
    assume "page_bytes z * q \<le> unat w \<and> unat w < page_bytes z * q + page_bytes z"
    then show "unat w div page_bytes z = q" by (intro div_nat_eqI) (simp_all add: mult.commute)
  qed
  finally show ?thesis using q by simp
qed

lemma page_keys_incomparable:
  assumes "page_bytes (snd x) dvd fst x" "fst x + page_bytes (snd x) \<le> 2 ^ 32"
    and "fst y < 2 ^ 32" and "fst y \<notin> page_range x"
  shows "\<not> prefix (page_key mt x) (page_key mt y)"
proof
  assume p: "prefix (page_key mt x) (page_key mt y)"
  let ?w = "pa_to_va mt (of_nat (fst y))"
  have len: "length (page_key mt v) = target_level (snd v)" for v
    using target_level_bounds [of "snd v"] by (simp add: page_key_def va_path_eq)
  from p have le: "target_level (snd x) \<le> target_level (snd y)" using prefix_length_le len by metis
  from p have "page_key mt x = take (target_level (snd x)) (page_key mt y)"
    using len by (metis append_eq_conv_conj prefix_def)
  also have "\<dots> = take (target_level (snd x)) (va_path ?w)" using le by (simp add: page_key_def min_absorb1)
  finally have "unat ?w \<in> {fst x + va_offset mt ..< fst x + va_offset mt + page_bytes (snd x)}"
    using page_key_iff [OF assms(1,2) pa_to_va_facts(2) [OF assms(3)], of mt mt] by simp
  then show False using pa_to_va_facts(1) [OF assms(3)] assms(4) by simp
qed

section \<open>Mapping a list of pages\<close>

definition pages_ok :: "(nat \<times> page_size) list \<Rightarrow> bool" where
  "pages_ok ps \<longleftrightarrow> (\<forall>x \<in> set ps. page_bytes (snd x) dvd fst x \<and> fst x + page_bytes (snd x) \<le> 2 ^ 32)
     \<and> sorted_wrt (\<lambda>x y. fst x + page_bytes (snd x) \<le> fst y) ps"

definition page_entry :: "u8 \<Rightarrow> nat \<times> page_size \<Rightarrow> usize" where
  "page_entry flags x = pte_new (pa_floor (PhysAddr (of_nat (fst x)))) (flags OR PTE_V)"

abbreviation page_vpn :: "boot_map_type \<Rightarrow> nat \<times> page_size \<Rightarrow> virt_page_num" where
  "page_vpn mt x \<equiv> va_floor (VirtAddr (pa_to_va mt (of_nat (fst x))))"

lemma page_key_path: "page_key mt x = page_path (page_vpn mt x) (snd x)"
  by (simp add: page_key_def va_path_def)

lemma page_bytes_4K: "4096 dvd page_bytes z"
  by (simp add: page_bytes_levels)

lemma apply_action_eq:
  assumes "page_bytes z dvd a" and "a < 2 ^ 32"
  shows "apply_action r mt ac z (of_nat a) s = (case ac of
      Map_flags flags \<Rightarrow> bump_map s r (page_vpn mt (a, z)) (pa_floor (PhysAddr (of_nat a))) flags z
    | Unmap \<Rightarrow> rbind (unmap (snd s) r (page_vpn mt (a, z)) z) (\<lambda>m'. Inr (fst s, m')))"
proof -
  let ?va = "pa_to_va mt (of_nat a)"
  note f = pa_to_va_facts [OF assms(2), of mt]
  have d: "4096 dvd a" using page_bytes_4K assms(1) by (rule dvd_trans)
  have "4096 dvd va_offset mt" using page_bytes_4K va_offset_dvd by (rule dvd_trans)
  then have "unat ?va mod 4096 = 0" unfolding f(1) using d by simp
  then have vpn: "vpn_from_va (va_from_usize ?va) = Inr (page_vpn mt (a, z))"
    using f(2) by (simp add: vpn_from_va_def va_from_usize_sign_extend canonical_def)
  have "unat (of_nat a :: usize) = a" using assms(2) by (simp add: unat_of_nat)
  then have ppn: "ppn_from_pa (PhysAddr (of_nat a)) = Inr (pa_floor (PhysAddr (of_nat a)))"
    using d by (simp add: ppn_from_pa_def)
  show ?thesis unfolding apply_action_def Let_def vpn using ppn by (cases ac; cases s) simp_all
qed

lemma vacant_preserved:
  assumes "map_effect m m1 r P e" and "vacant m r Q" and "entry_path Q" and "\<not> prefix Q P" and "\<not> prefix P Q"
  shows "vacant m1 r Q"
  unfolding vacant_def
proof (intro conjI allI impI)
  show "pte_at m1 r Q = None" using assms by (simp add: map_effect_def vacant_def)
  fix Q'
  assume q: "Q' \<noteq> []" "strict_prefix Q' Q"
  then have p: "prefix Q' Q" by (simp add: strict_prefix_def)
  then have "entry_path Q'" using assms(3) q(1) by (auto simp: entry_path_def prefix_def)
  moreover have "Q' \<noteq> P" using p assms(5) by blast
  ultimately show "leaf_at m1 r Q' = None" using assms(1,2) q by (simp add: map_effect_def vacant_def)
qed

lemma pages_ok_Cons:
  assumes "pages_ok (x # ps)"
  shows "page_bytes (snd x) dvd fst x" "fst x + page_bytes (snd x) \<le> 2 ^ 32" "fst x < 2 ^ 32" "pages_ok ps"
    and "\<And>y. y \<in> set ps \<Longrightarrow> \<not> prefix (page_key mt x) (page_key mt y) \<and> \<not> prefix (page_key mt y) (page_key mt x)"
proof -
  show a: "page_bytes (snd x) dvd fst x" "fst x + page_bytes (snd x) \<le> 2 ^ 32" "pages_ok ps"
    using assms by (simp_all add: pages_ok_def)
  then show lt: "fst x < 2 ^ 32" using page_bytes_pos [of "snd x"] by linarith
  show "\<not> prefix (page_key mt x) (page_key mt y) \<and> \<not> prefix (page_key mt y) (page_key mt x)" if "y \<in> set ps" for y
  proof -
    have y: "page_bytes (snd y) dvd fst y" "fst y + page_bytes (snd y) \<le> 2 ^ 32" "fst x + page_bytes (snd x) \<le> fst y"
      using assms that by (simp_all add: pages_ok_def)
    have "fst y < 2 ^ 32" using y(2) page_bytes_pos [of "snd y"] by linarith
    moreover have "fst y \<notin> page_range x" "fst x \<notin> page_range y"
      using y(3) page_bytes_pos [of "snd x"] page_bytes_pos [of "snd y"] unfolding atLeastLessThan_iff by linarith+
    ultimately show ?thesis using page_keys_incomparable a y lt by blast
  qed
qed

lemma map_all_cases:
  assumes "boot_inv mb m r" and "leaf_flags flags" and "pages_ok ps"
    and "\<forall>x \<in> set ps. vacant m r (page_key mt x)"
  shows "case act_all (apply_action r mt (Map_flags flags)) ps (mb, m) of
      Inl f \<Rightarrow> boot_fault f \<and> \<not> frames_left mb (2 * length ps)
    | Inr (mb', m') \<Rightarrow> boot_inv mb' m' r \<and> frames_taken (2 * length ps) mb mb'
        \<and> (\<forall>Q. entry_path Q \<longrightarrow> leaf_at m' r Q =
            (case map_of (map (\<lambda>x. (page_key mt x, page_entry flags x)) ps) Q of Some e \<Rightarrow> Some e | None \<Rightarrow> leaf_at m r Q))
        \<and> (\<forall>Q. entry_path Q \<longrightarrow> vacant m r Q \<longrightarrow>
            (\<forall>x \<in> set ps. \<not> prefix (page_key mt x) Q \<and> \<not> prefix Q (page_key mt x)) \<longrightarrow> vacant m' r Q)"
  using assms
proof (induction ps arbitrary: mb m)
  case Nil
  then show ?case by simp
next
  case (Cons x ps)
  let ?z = "snd x" and ?v = "page_vpn mt x"
  note pc = pages_ok_Cons [OF Cons.prems(3)]
  have le: "target_level ?z - 1 \<le> 2" using target_level_bounds(2) [of ?z] by simp
  have vac: "vacant m r (page_path ?v ?z)" using Cons.prems(4) by (simp add: page_key_path)
  note bm = bump_map_ok [OF Cons.prems(1,2), where v = ?v and z = ?z and ppn = "pa_floor (PhysAddr (of_nat (fst x)))"]
  have act: "act_all (apply_action r mt (Map_flags flags)) (x # ps) (mb, m) =
      rbind (bump_map (mb, m) r ?v (pa_floor (PhysAddr (of_nat (fst x)))) flags ?z)
        (act_all (apply_action r mt (Map_flags flags)) ps)"
    using apply_action_eq [OF pc(1,3), of r mt "Map_flags flags" "(mb, m)"] by (cases x) simp
  show ?case
  proof (cases "bump_map (mb, m) r ?v (pa_floor (PhysAddr (of_nat (fst x)))) flags ?z")
    case (Inl f)
    then have "boot_fault f" "\<not> frames_left mb (target_level ?z - 1)" using bm vac by simp_all
    moreover have "target_level ?z - 1 \<le> 2 * length (x # ps)" using le by simp
    ultimately show ?thesis using Inl frames_left_le unfolding act by fastforce
  next
    case (Inr s)
    obtain mb1 m1 where b: "bump_map (mb, m) r ?v (pa_floor (PhysAddr (of_nat (fst x)))) flags ?z = Inr (mb1, m1)"
      using Inr by (cases s) simp
    have inv1: "boot_inv mb1 m1 r" and fl1: "frames_taken (target_level ?z - 1) mb mb1"
      and eff: "map_effect m m1 r (page_key mt x) (page_entry flags x)"
      using bm b by (simp_all add: page_entry_def page_key_path)
    have fl: "frames_taken 2 mb mb1" using frames_taken_mono [OF fl1 le] .
    have vac1: "\<forall>y \<in> set ps. vacant m1 r (page_key mt y)"
      using vacant_preserved [OF eff] pc(5) Cons.prems(4) page_path_parts(3) by (simp add: page_key_path)
    note ih = Cons.IH [OF inv1 Cons.prems(2) pc(4) vac1]
    have new: "map_of (map (\<lambda>x. (page_key mt x, page_entry flags x)) ps) (page_key mt x) = None"
      unfolding map_of_eq_None_iff using pc(5) by (auto; metis prefix_order.refl)
    show ?thesis
    proof (cases "act_all (apply_action r mt (Map_flags flags)) ps (mb1, m1)")
      case (Inl f)
      then have "boot_fault f" "\<not> frames_left mb1 (2 * length ps)" using ih by simp_all
      then show ?thesis using frames_taken_left [OF fl, of "2 * length ps"] Inl b unfolding act by auto
    next
      case (Inr s2)
      obtain mb2 m2 where r2: "act_all (apply_action r mt (Map_flags flags)) ps (mb1, m1) = Inr (mb2, m2)"
        using Inr by (cases s2) simp
      have i2: "boot_inv mb2 m2 r" "frames_taken (2 * length ps) mb1 mb2"
        and lf2: "\<forall>Q. entry_path Q \<longrightarrow> leaf_at m2 r Q =
            (case map_of (map (\<lambda>x. (page_key mt x, page_entry flags x)) ps) Q of Some e \<Rightarrow> Some e | None \<Rightarrow> leaf_at m1 r Q)"
        and vac2: "\<forall>Q. entry_path Q \<longrightarrow> vacant m1 r Q \<longrightarrow>
            (\<forall>x \<in> set ps. \<not> prefix (page_key mt x) Q \<and> \<not> prefix Q (page_key mt x)) \<longrightarrow> vacant m2 r Q"
        using ih unfolding r2 by simp_all
      have "leaf_at m2 r Q = (case map_of (map (\<lambda>x. (page_key mt x, page_entry flags x)) (x # ps)) Q of
          Some e \<Rightarrow> Some e | None \<Rightarrow> leaf_at m r Q)" if "entry_path Q" for Q
      proof -
        have "leaf_at m1 r Q = (if Q = page_key mt x then Some (page_entry flags x) else leaf_at m r Q)"
          using eff that by (simp add: map_effect_def)
        then show ?thesis using lf2 [rule_format, OF that] new by (cases "Q = page_key mt x") (simp_all split: option.splits)
      qed
      moreover have "vacant m2 r Q" if "entry_path Q" "vacant m r Q"
        "\<forall>y \<in> set (x # ps). \<not> prefix (page_key mt y) Q \<and> \<not> prefix Q (page_key mt y)" for Q
        using vacant_preserved [OF eff that(2,1)] vac2 [rule_format, OF that(1)] that(3) by simp
      moreover have "frames_taken (2 * length (x # ps)) mb mb2" using frames_taken_trans [OF fl i2(2)] by simp
      ultimately show ?thesis using i2(1) b r2 unfolding act by simp
    qed
  qed
qed

lemma unmap_all_ok:
  assumes "boot_inv mb m r" and "pages_ok ps" and "\<forall>x \<in> set ps. pte_at m r (page_key mt x) \<noteq> None"
  shows "\<exists>m'. act_all (apply_action (phys_to_virt r) mt Unmap) ps (mb, m) = Inr (mb, m') \<and> boot_inv mb m' r
    \<and> (\<forall>Q. entry_path Q \<longrightarrow> pte_at m' r Q = (if \<exists>x \<in> set ps. prefix (page_key mt x) Q then None else pte_at m r Q))"
  using assms
proof (induction ps arbitrary: m)
  case Nil
  then show ?case by simp
next
  case (Cons x ps)
  note pc = pages_ok_Cons [OF Cons.prems(2)]
  have at: "pte_at m r (page_path (page_vpn mt x) (snd x)) \<noteq> None" using Cons.prems(3) by (simp add: page_key_path)
  obtain m1 where u: "unmap m (phys_to_virt r) (page_vpn mt x) (snd x) = Inr m1" "boot_inv mb m1 r"
    and eff: "unmap_effect m m1 r (page_key mt x)"
    using unmap_page_ok [OF Cons.prems(1), where v = "page_vpn mt x" and z = "snd x"] at
    by (auto simp: page_key_path split: sum.splits)
  have "pte_at m1 r (page_key mt y) \<noteq> None" if "y \<in> set ps" for y
    using eff pc(5) [OF that] Cons.prems(3) that page_path_parts(3) by (simp add: unmap_effect_def page_key_path)
  then obtain m2 where r2: "act_all (apply_action (phys_to_virt r) mt Unmap) ps (mb, m1) = Inr (mb, m2)" "boot_inv mb m2 r"
    "\<forall>Q. entry_path Q \<longrightarrow> pte_at m2 r Q = (if \<exists>x \<in> set ps. prefix (page_key mt x) Q then None else pte_at m1 r Q)"
    using Cons.IH [OF u(2) pc(4)] by blast
  have "act_all (apply_action (phys_to_virt r) mt Unmap) (x # ps) (mb, m) = Inr (mb, m2)"
    using r2(1) u(1) apply_action_eq [OF pc(1,3), of "phys_to_virt r" mt Unmap "(mb, m)"] by (cases x) simp
  moreover have "pte_at m2 r Q = (if \<exists>y \<in> set (x # ps). prefix (page_key mt y) Q then None else pte_at m r Q)"
    if "entry_path Q" for Q
    using r2(3) eff that by (simp add: unmap_effect_def)
  ultimately show ?case using r2(2) by blast
qed

section \<open>The effect of a segment on translation\<close>

lemma map_of_page_key:
  "pages_ok ps \<Longrightarrow> x \<in> set ps \<Longrightarrow> map_of (map (\<lambda>x. (page_key mt x, page_entry flags x)) ps) (page_key mt x) = Some (page_entry flags x)"
proof (induction ps)
  case (Cons y ps)
  note pc = pages_ok_Cons [OF Cons.prems(1)]
  show ?case
  proof (cases "x = y")
    case False
    then have "x \<in> set ps" using Cons.prems(2) by simp
    then show ?thesis using Cons.IH pc(4) pc(5) [of x mt] by auto
  qed simp
qed simp

lemma pages_ok_mem:
  assumes "pages_ok ps" and "x \<in> set ps"
  shows "page_bytes (snd x) dvd fst x" and "fst x + page_bytes (snd x) \<le> 2 ^ 32"
  using assms by (simp_all add: pages_ok_def)

lemma translate_leaf:
  assumes "pages_ok ps" and "x \<in> set ps" and "leaf_at m' r (page_key mt x) = Some (page_entry flags x)"
    and "canonical w" and w: "unat w \<in> {fst x + va_offset mt ..< fst x + va_offset mt + page_bytes (snd x)}"
  shows "translate m' r w = Some (unat w - va_offset mt, flags OR PTE_V)"
proof -
  obtain a z where x: "x = (a, z)" by (cases x)
  note ok = pages_ok_mem [OF assms(1,2), unfolded x, simplified fst_conv snd_conv]
  have key: "take (target_level z) (va_path w) = page_key mt (a, z)"
    using page_key_iff [OF ok assms(4), of mt] w unfolding x by simp
  have lt: "a < 2 ^ 32" using ok(2) page_bytes_pos [of z] by linarith
  then have u: "unat (of_nat a :: usize) = a" by (simp add: unat_of_nat)
  have ppn: "unat (ppn_val (pa_floor (PhysAddr (of_nat a)))) = a div 4096"
  proof -
    have "unat (ppn_val (pa_floor (PhysAddr y))) = unat y div 4096" for y
      by (simp add: pa_floor_def unat_shr PAGE_SIZE_BITS_def)
    from this [of "of_nat a"] show ?thesis unfolding u .
  qed
  have "a div 4096 < 2 ^ 32" using div_le_dividend lt by (rule le_less_trans)
  also have "(2::nat) ^ 32 < 2 ^ 44" by simp
  finally have p44: "unat (ppn_val (pa_floor (PhysAddr (of_nat a)))) < 2 ^ 44" unfolding ppn .
  have e: "pte_ppn (page_entry flags x) = pa_floor (PhysAddr (of_nat a))" "pte_flags (page_entry flags x) = flags OR PTE_V"
    unfolding page_entry_def x fst_conv by (rule pte_ppn_new [OF p44], rule pte_flags_new)
  have len: "length (va_path w) = 3" by (simp add: va_path_eq)
  have tl: "target_level z - 1 < length (va_path w)" "Suc (target_level z - 1) = target_level z"
    using target_level_bounds [of z] len by simp_all
  have "leaf_at m' r (take (Suc (target_level z - 1)) (va_path w)) = Some (page_entry flags x)"
    unfolding tl(2) key using assms(3) x by simp
  then have walk: "sv39_walk m' r (va_path w) = Some (pa_floor (PhysAddr (of_nat a)), flags OR PTE_V, 3 - target_level z)"
    unfolding sv39_walk_leaf using tl e len by metis
  obtain q where q: "a = page_bytes z * q" using ok(1) by (rule dvdE)
  obtain p where p: "va_offset mt = page_bytes z * p" using va_offset_dvd by (rule dvdE)
  obtain d where d: "unat w = a + va_offset mt + d" "d < page_bytes z"
    using w unfolding x by (auto simp: le_iff_add)
  have "unat w = d + page_bytes z * (q + p)" unfolding d(1) p q by (simp add: distrib_left)
  then have dm: "unat w mod (4096 * 512 ^ (3 - target_level z)) = d" using d(2) by (simp add: page_bytes_levels)
  have dv: "a div 4096 = 512 ^ (3 - target_level z) * q" unfolding q page_bytes_levels by (simp add: mult.assoc)
  have "a div 4096 * 4096 = a" unfolding dv q page_bytes_levels by (simp add: ac_simps)
  then have "a div 4096 * 4096 + d = unat w - va_offset mt" using d(1) by linarith
  moreover have "512 ^ (3 - target_level z) dvd a div 4096" unfolding dv by simp
  ultimately show ?thesis unfolding translate_def walk option.case prod.case ppn dm using assms(4) by (simp only: if_True)
qed

lemma translate_outside:
  assumes "pages_ok ps" and "canonical w"
    and "\<And>x. x \<in> set ps \<Longrightarrow> unat w \<notin> {fst x + va_offset mt ..< fst x + va_offset mt + page_bytes (snd x)}"
    and "\<And>Q. entry_path Q \<Longrightarrow> (\<forall>x \<in> set ps. \<not> prefix (page_key mt x) Q) \<Longrightarrow> leaf_at m' r Q = leaf_at m r Q"
  shows "translate m' r w = translate m r w"
proof -
  have len: "length (va_path w) = 3" by (simp add: va_path_eq)
  have "leaf_at m' r (take (Suc k) (va_path w)) = leaf_at m r (take (Suc k) (va_path w))" if k: "k < length (va_path w)" for k
  proof (rule assms(4))
    show "entry_path (take (Suc k) (va_path w))" unfolding va_path_def using k len by (intro take_vpn_path_ok) simp_all
    show "\<forall>x \<in> set ps. \<not> prefix (page_key mt x) (take (Suc k) (va_path w))"
    proof (intro ballI notI)
      fix x
      assume x: "x \<in> set ps" "prefix (page_key mt x) (take (Suc k) (va_path w))"
      then have "take (target_level (snd x)) (va_path w) = page_key mt (fst x, snd x)"
        using prefix_page_path [of k] k len unfolding page_key_path va_path_def by simp
      then show False using page_key_iff [OF pages_ok_mem [OF assms(1) x(1)] assms(2), of mt] assms(3) [OF x(1)] by simp
    qed
  qed
  then have "sv39_walk m' r (va_path w) = sv39_walk m r (va_path w)" by (rule sv39_walk_cong)
  then show ?thesis by (simp only: translate_def)
qed

text \<open>The page-aligned hull of a segment.\<close>

abbreviation seg_lo :: "usize \<Rightarrow> nat" where
  "seg_lo start \<equiv> unat start div 0x1000 * 0x1000"

abbreviation seg_hi :: "usize \<Rightarrow> nat" where
  "seg_hi stop \<equiv> (unat stop + 0xFFF) div 0x1000 * 0x1000"

lemma segment_pages_ok:
  assumes "lo \<le> hi" and "0x1000 dvd lo" and "0x1000 dvd hi" and hi: "hi \<le> 2 ^ 32"
  shows "pages_ok (segment_pages lo hi)"
    and "(\<exists>x \<in> set (segment_pages lo hi). n \<in> {fst x + off ..< fst x + off + page_bytes (snd x)})
         \<longleftrightarrow> n \<in> {lo + off ..< hi + off}"
proof -
  let ?ps = "segment_pages lo hi"
  note t = segment_pages_tile [OF assms(1-3)]
  have al: "page_bytes (snd x) dvd fst x" if "x \<in> set ?ps" for x using t(3) [of "fst x" "snd x"] that by simp
  have "fst x + page_bytes (snd x) \<le> 2 ^ 32" if "x \<in> set ?ps" for x
  proof -
    have "fst x + page_bytes (snd x) - 1 \<in> page_range x"
      using page_bytes_pos [of "snd x"] unfolding atLeastLessThan_iff by linarith
    then have "fst x + page_bytes (snd x) - 1 \<in> {lo ..< hi}" using t(1) that by blast
    then have "fst x + page_bytes (snd x) \<le> hi" unfolding atLeastLessThan_iff by linarith
    then show ?thesis using hi by (rule le_trans)
  qed
  with al t(2) show "pages_ok ?ps" unfolding pages_ok_def by blast
  have shift: "n \<in> {a + off ..< b + off} \<longleftrightarrow> off \<le> n \<and> n - off \<in> {a ..< b}" for a b
    unfolding atLeastLessThan_iff by linarith
  have "n \<in> {fst x + off ..< fst x + off + page_bytes (snd x)} \<longleftrightarrow> off \<le> n \<and> n - off \<in> page_range x" for x
    using shift [of "fst x" "fst x + page_bytes (snd x)"] by (simp add: ac_simps)
  then show "(\<exists>x \<in> set ?ps. n \<in> {fst x + off ..< fst x + off + page_bytes (snd x)}) \<longleftrightarrow> n \<in> {lo + off ..< hi + off}"
    unfolding shift t(1) [symmetric] by blast
qed

lemma seg_bounds:
  assumes "unat start \<le> unat stop" and "unat stop \<le> 2 ^ 32"
  shows "seg_lo start \<le> seg_hi stop" "0x1000 dvd seg_lo start" "0x1000 dvd seg_hi stop" "seg_hi stop \<le> 2 ^ 32"
    "unat stop + 0x200000 < 2 ^ 64"
proof -
  have "a div 0x1000 * 0x1000 \<le> (b + 0xFFF) div 0x1000 * 0x1000" if "a \<le> b" for a b :: nat
    using that by (intro mult_le_mono1 div_le_mono) simp
  then show "seg_lo start \<le> seg_hi stop" using assms(1) .
  have "(b + 0xFFF) div 0x1000 * 0x1000 \<le> 2 ^ 32 \<and> b + 0x200000 < 2 ^ 64" if "b \<le> 2 ^ 32" for b :: nat
    using that by simp
  then show "seg_hi stop \<le> 2 ^ 32" "unat stop + 0x200000 < 2 ^ 64" using assms(2) by blast+
qed (rule dvd_triv_right)+

lemma linear_canonical:
  assumes "unat w \<in> {a + va_offset mt ..< b + va_offset mt}" and "b \<le> 2 ^ 32"
  shows "canonical w"
proof -
  have x: "unat w - va_offset mt < 2 ^ 32" using assms unfolding atLeastLessThan_iff by linarith
  have "unat (pa_to_va mt (of_nat (unat w - va_offset mt))) = unat w"
    unfolding pa_to_va_facts(1) [OF x] using assms(1) by simp
  then show ?thesis using pa_to_va_facts(2) [OF x, of mt] by (metis word_unat_eq_iff)
qed

abbreviation segment :: "usize \<Rightarrow> usize \<Rightarrow> (nat \<times> page_size) list" where
  "segment start stop \<equiv> segment_pages (seg_lo start) (seg_hi stop)"

definition segment_range :: "boot_map_type \<Rightarrow> usize \<Rightarrow> usize \<Rightarrow> nat set" where
  "segment_range mt start stop = {seg_lo start + va_offset mt ..< seg_hi stop + va_offset mt}"

lemma map_segment_cases:
  assumes "boot_inv mb m r" and "leaf_flags flags" and "unat start \<le> unat stop" and "unat stop \<le> 2 ^ 32"
    and "\<forall>x \<in> set (segment start stop). vacant m r (page_key mt x)"
  shows "case map_segment start stop r mt (Map_flags flags) (mb, m) of
      Inl f \<Rightarrow> boot_fault f \<and> \<not> frames_left mb (2 * length (segment start stop))
    | Inr (mb', m') \<Rightarrow> boot_inv mb' m' r
        \<and> frames_taken (2 * length (segment start stop)) mb mb'
        \<and> (\<forall>x \<in> set (segment start stop). leaf_at m' r (page_key mt x) \<noteq> None)
        \<and> (\<forall>Q. entry_path Q \<longrightarrow> leaf_at m r Q \<noteq> None \<longrightarrow> leaf_at m' r Q \<noteq> None)
        \<and> (\<forall>Q. entry_path Q \<longrightarrow> vacant m r Q \<longrightarrow>
            (\<forall>x \<in> set (segment start stop). \<not> prefix (page_key mt x) Q \<and> \<not> prefix Q (page_key mt x)) \<longrightarrow> vacant m' r Q)
        \<and> (\<forall>w. translate m' r w = (if unat w \<in> segment_range mt start stop
             then Some (unat w - va_offset mt, flags OR PTE_V) else translate m r w))"
proof -
  let ?ps = "segment start stop" and ?R = "{seg_lo start + va_offset mt ..< seg_hi stop + va_offset mt}"
  note sb = seg_bounds [OF assms(3,4)]
  note po = segment_pages_ok(1) [OF sb(1-4)] and cov = segment_pages_ok(2) [OF sb(1-4), where off = "va_offset mt"]
  note mc = map_all_cases [OF assms(1,2) po assms(5)]
  note eq = map_segment_eq [OF assms(3) sb(5)]
  show ?thesis
  proof (cases "act_all (apply_action r mt (Map_flags flags)) ?ps (mb, m)")
    case (Inl f)
    then show ?thesis using mc unfolding eq by simp
  next
    case (Inr s)
    obtain mb' m' where act: "act_all (apply_action r mt (Map_flags flags)) ?ps (mb, m) = Inr (mb', m')"
      using Inr by (cases s) simp
    have inv: "boot_inv mb' m' r" "frames_taken (2 * length ?ps) mb mb'"
      and lf: "\<forall>Q. entry_path Q \<longrightarrow> leaf_at m' r Q =
        (case map_of (map (\<lambda>x. (page_key mt x, page_entry flags x)) ?ps) Q of Some e \<Rightarrow> Some e | None \<Rightarrow> leaf_at m r Q)"
      and vp: "\<forall>Q. entry_path Q \<longrightarrow> vacant m r Q \<longrightarrow>
        (\<forall>x \<in> set ?ps. \<not> prefix (page_key mt x) Q \<and> \<not> prefix Q (page_key mt x)) \<longrightarrow> vacant m' r Q"
      using mc unfolding act by simp_all
    have leaf: "leaf_at m' r (page_key mt x) = Some (page_entry flags x)" if "x \<in> set ?ps" for x
      using lf [rule_format, of "page_key mt x"] map_of_page_key [OF po that, of mt flags] page_path_parts(3)
      unfolding page_key_path by simp
    have keep: "leaf_at m' r Q \<noteq> None" if "entry_path Q" "leaf_at m r Q \<noteq> None" for Q
      using lf that by (simp split: option.splits)
    have other: "leaf_at m' r Q = leaf_at m r Q" if "entry_path Q" "\<forall>x \<in> set ?ps. \<not> prefix (page_key mt x) Q" for Q
    proof -
      have "Q \<notin> page_key mt ` set ?ps" using that(2) by blast
      then have "map_of (map (\<lambda>x. (page_key mt x, page_entry flags x)) ?ps) Q = None"
        unfolding map_of_eq_None_iff by (simp add: image_image)
      then show ?thesis using lf that(1) by simp
    qed
    have tr: "translate m' r w = (if unat w \<in> ?R then Some (unat w - va_offset mt, flags OR PTE_V) else translate m r w)" for w
    proof (cases "unat w \<in> ?R")
      case True
      then obtain x where x: "x \<in> set ?ps" "unat w \<in> {fst x + va_offset mt ..< fst x + va_offset mt + page_bytes (snd x)}"
        using cov [of "unat w"] by blast
      show ?thesis using translate_leaf [OF po x(1) leaf [OF x(1)] linear_canonical [OF True sb(4)] x(2)] unfolding if_P [OF True] .
    next
      case False
      then have "translate m' r w = translate m r w"
        using translate_outside [OF po, of w mt m' r m] cov [of "unat w"] other by (cases "canonical w") (auto simp: translate_def)
      then show ?thesis unfolding if_not_P [OF False] .
    qed
    have lv: "\<forall>x \<in> set ?ps. leaf_at m' r (page_key mt x) \<noteq> None" using leaf by simp
    show ?thesis using inv lv keep vp tr unfolding eq act segment_range_def by simp
  qed
qed

lemma leaf_at_pte: "leaf_at m r Q \<noteq> None \<Longrightarrow> pte_at m r Q \<noteq> None"
  by (auto simp: leaf_at_def split: option.splits)

lemma map_segment_ok:
  assumes "boot_inv mb m r" and "leaf_flags flags" and "unat start \<le> unat stop" and "unat stop \<le> 2 ^ 32"
    and "\<forall>x \<in> set (segment start stop). vacant m r (page_key mt x)"
    and "frames_left mb (n + 2 * length (segment start stop))"
  shows "\<exists>mb' m'. map_segment start stop r mt (Map_flags flags) (mb, m) = Inr (mb', m') \<and> boot_inv mb' m' r \<and> frames_left mb' n
    \<and> (\<forall>x \<in> set (segment start stop). pte_at m' r (page_key mt x) \<noteq> None)
    \<and> (\<forall>w. translate m' r w = (if unat w \<in> {seg_lo start + va_offset mt ..< seg_hi stop + va_offset mt}
         then Some (unat w - va_offset mt, flags OR PTE_V) else translate m r w))"
proof -
  note mc = map_segment_cases [OF assms(1-5)]
  have "frames_left mb (2 * length (segment start stop))" using assms(6) frames_left_le [of _ _ mb] by (meson le_add2)
  then obtain mb' m' where ms: "map_segment start stop r mt (Map_flags flags) (mb, m) = Inr (mb', m')"
    using mc by (auto split: sum.splits)
  then have "frames_left mb' n" using mc frames_taken_left [OF _ assms(6)] by simp
  then show ?thesis using ms mc leaf_at_pte by (simp add: segment_range_def)
qed

lemma unmap_segment_ok:
  assumes "boot_inv mb m r" and "unat start \<le> unat stop" and "unat stop \<le> 2 ^ 32"
    and valid: "\<forall>x \<in> set (segment_pages (seg_lo start) (seg_hi stop)). pte_at m r (page_key mt x) \<noteq> None"
  shows "\<exists>m'. map_segment start stop (phys_to_virt r) mt Unmap (mb, m) = Inr (mb, m') \<and> boot_inv mb m' r
    \<and> (\<forall>w. translate m' r w = (if unat w \<in> {seg_lo start + va_offset mt ..< seg_hi stop + va_offset mt}
         then None else translate m r w))
    \<and> (\<forall>Q. entry_path Q \<longrightarrow> (\<forall>x \<in> set (segment start stop). \<not> prefix (page_key mt x) Q) \<longrightarrow> pte_at m' r Q = pte_at m r Q)"
proof -
  let ?ps = "segment_pages (seg_lo start) (seg_hi stop)" and ?R = "{seg_lo start + va_offset mt ..< seg_hi stop + va_offset mt}"
  note sb = seg_bounds [OF assms(2,3)]
  note po = segment_pages_ok(1) [OF sb(1-4)] and cov = segment_pages_ok(2) [OF sb(1-4), where off = "va_offset mt"]
  obtain m' where act: "act_all (apply_action (phys_to_virt r) mt Unmap) ?ps (mb, m) = Inr (mb, m')" and inv: "boot_inv mb m' r"
    and pt: "\<forall>Q. entry_path Q \<longrightarrow> pte_at m' r Q = (if \<exists>x \<in> set ?ps. prefix (page_key mt x) Q then None else pte_at m r Q)"
    using unmap_all_ok [OF assms(1) po valid] by blast
  have other: "leaf_at m' r Q = leaf_at m r Q" if "entry_path Q" "\<forall>x \<in> set ?ps. \<not> prefix (page_key mt x) Q" for Q
    using pt that by (auto simp: leaf_at_def)
  have "translate m' r w = (if unat w \<in> ?R then None else translate m r w)" for w
  proof (cases "unat w \<in> ?R")
    case True
    then obtain x where x: "x \<in> set ?ps" "unat w \<in> {fst x + va_offset mt ..< fst x + va_offset mt + page_bytes (snd x)}"
      using cov [of "unat w"] by blast
    have key: "take (target_level (snd x)) (va_path w) = page_key mt x"
      using page_key_iff [OF pages_ok_mem [OF po x(1)] linear_canonical [OF True sb(4)], of mt] x(2) by simp
    have at: "pte_at m r (page_path (page_vpn mt x) (snd x)) \<noteq> None" using valid x(1) by (simp add: page_key_path)
    have "leaf_at m' r (take (Suc k) (va_path w)) = None" if k: "k < 3" for k
    proof (cases "target_level (snd x) \<le> Suc k")
      case True
      then have "prefix (page_key mt x) (take (Suc k) (va_path w))" unfolding key [symmetric] by (rule prefix_take_take)
      moreover have "entry_path (take (Suc k) (va_path w))" unfolding va_path_def using k by (intro take_vpn_path_ok) simp_all
      ultimately show ?thesis using pt x(1) by (auto simp: leaf_at_def)
    next
      case False
      then have sp: "strict_prefix (take (Suc k) (va_path w)) (page_key mt x)"
        unfolding key [symmetric] va_path_def strict_prefix_take by (metis not_le)
      have ne: "take (Suc k) (va_path w) \<noteq> []" by (simp add: va_path_eq)
      have "leaf_at m r (take (Suc k) (va_path w)) = None"
        using leaf_above_None [OF at ne] sp by (simp add: page_key_path)
      moreover have "entry_path (take (Suc k) (va_path w))" unfolding va_path_def using k by (intro take_vpn_path_ok) simp_all
      ultimately show ?thesis using pt by (auto simp: leaf_at_def)
    qed
    then have "sv39_walk m' r (va_path w) \<noteq> Some (p, f, n)" for p f n
      unfolding sv39_walk_leaf by (auto simp: va_path_eq)
    then have "sv39_walk m' r (va_path w) = None" by (metis not_None_eq prod_cases3)
    then show ?thesis unfolding if_P [OF True] by (simp add: translate_def)
  next
    case False
    then have "translate m' r w = translate m r w"
      using translate_outside [OF po, of w mt m' r m] cov [of "unat w"] other by (cases "canonical w") (auto simp: translate_def)
    then show ?thesis unfolding if_not_P [OF False] .
  qed
  moreover have "pte_at m' r Q = pte_at m r Q" if "entry_path Q" "\<forall>x \<in> set ?ps. \<not> prefix (page_key mt x) Q" for Q
    using pt that by auto
  ultimately show ?thesis using act inv unfolding map_segment_eq [OF assms(2) sb(5)] by blast
qed

text \<open>The boot state of the page tables has enough frames for a segment of one large and one small page.\<close>

lemma segment_pages_example:
  "segment_pages (seg_lo 0x80000010) (seg_hi 0x80200FF0) = [(0x80000000, TwoMB), (0x80200000, FourKB)]"
  by (simp add: segment_pages_def chunk_def page_bytes_def)

lemma boot_segment_example:
  "\<exists>mb. boot_inv mb (\<lambda>_. 0) 0x80200000 \<and> frames_left mb (0 + 2 * length (segment_pages (seg_lo 0x80000010) (seg_hi 0x80200FF0)))"
proof -
  obtain mb where mb: "init_add_memory memblock_new (PhysAddr 0x80400000) 0x1000000 = Inr mb" "boot_inv mb (\<lambda>_. 0) 0x80200000"
    using boot_inv_example by blast
  have "case init_add_memory memblock_new (PhysAddr 0x80400000) 0x1000000 of Inl _ \<Rightarrow> False | Inr mb \<Rightarrow> frames_left mb 4" by code_simp
  then have "frames_left mb 4" unfolding mb(1) by simp
  then show ?thesis unfolding segment_pages_example using mb(2) by (intro exI [of _ mb] conjI) simp_all
qed

lemma seg_vacant_empty: "\<forall>x \<in> S. vacant (\<lambda>_. 0) r (page_key mt x)"
proof
  fix x
  have "entry_path (page_key mt x)" unfolding page_key_path by (rule page_path_parts(3))
  then have "page_key mt x \<noteq> []" unfolding entry_path_def by blast
  then show "vacant (\<lambda>_. 0) r (page_key mt x)" by (rule vacant_empty)
qed

lemma vacant_translate:
  assumes "unat start \<le> unat stop" and "unat stop \<le> 2 ^ 32"
    and vac: "\<forall>x \<in> set (segment_pages (seg_lo start) (seg_hi stop)). vacant m r (page_key mt x)"
    and w: "unat w \<in> {seg_lo start + va_offset mt ..< seg_hi stop + va_offset mt}"
  shows "translate m r w = None"
proof -
  let ?ps = "segment_pages (seg_lo start) (seg_hi stop)"
  note sb = seg_bounds [OF assms(1,2)]
  note po = segment_pages_ok(1) [OF sb(1-4)] and cov = segment_pages_ok(2) [OF sb(1-4), where off = "va_offset mt"]
  obtain x where x: "x \<in> set ?ps" "unat w \<in> {fst x + va_offset mt ..< fst x + va_offset mt + page_bytes (snd x)}"
    using cov [of "unat w"] w by blast
  have key: "take (target_level (snd x)) (va_path w) = page_key mt x"
    using page_key_iff [OF pages_ok_mem [OF po x(1)] linear_canonical [OF w sb(4)], of mt] x(2) by simp
  have "sv39_walk m r (va_path w) = None"
    unfolding va_path_def
    by (rule walk_vacant [where v = "page_vpn mt x" and z = "snd x"]) (use vac x(1) key in \<open>simp_all add: page_key_path va_path_def\<close>)
  then show ?thesis by (simp add: translate_def)
qed

section \<open>Properties\<close>

text \<open>C26. \<open>map_segment\<close> terminates and performs its action on exactly the pages of the page-aligned hull of
  the range, in ascending order: 4 KiB pages up to the first 2 MiB boundary, 2 MiB pages while they
  fit, 4 KiB pages for the rest. The pages tile the hull, do not overlap, and each starts at a
  multiple of its size.\<close>

theorem map_segment_pages:
  assumes "unat start \<le> unat stop" and "unat stop + 0x200000 < 2 ^ 64"
  shows "map_segment start stop r mt ac s = act_all (apply_action r mt ac) (segment_pages (seg_lo start) (seg_hi stop)) s
    \<and> (\<Union>x \<in> set (segment_pages (seg_lo start) (seg_hi stop)). page_range x) = {seg_lo start ..< seg_hi stop}
    \<and> sorted_wrt (\<lambda>x y. fst x + page_bytes (snd x) \<le> fst y) (segment_pages (seg_lo start) (seg_hi stop))
    \<and> (\<forall>(a, z) \<in> set (segment_pages (seg_lo start) (seg_hi stop)). page_bytes z dvd a)"
proof -
  have le: "seg_lo start \<le> seg_hi stop" using assms(1) by (intro mult_le_mono1 div_le_mono) simp
  note t = segment_pages_tile [OF le dvd_triv_right dvd_triv_right]
  show ?thesis using t(3) by (simp only: map_segment_eq [OF assms] t(1,2)) blast
qed

theorem map_segment_pages_witness:
  "map_segment 0x80000010 0x80200FF0 0x80200000 Linear (Map_flags PTE_R) (memblock_new, \<lambda>_. 0) =
   act_all (apply_action 0x80200000 Linear (Map_flags PTE_R)) [(0x80000000, TwoMB), (0x80200000, FourKB)] (memblock_new, \<lambda>_. 0)"
proof -
  have "unat (0x80000010 :: usize) \<le> unat (0x80200FF0 :: usize)" "unat (0x80200FF0 :: usize) + 0x200000 < 2 ^ 64" by simp_all
  from map_segment_pages [OF this] show ?thesis unfolding segment_pages_example by blast
qed

text \<open>C9. Mapping a segment of physical memory below 4 GiB, identically or at its linear address, whose
  pages are vacant, with two frames per page for tables. The call succeeds, keeps the page tables
  well formed, translates every address of the page-aligned hull to its physical address with the
  given flags, and leaves the translation of every other address unchanged.\<close>

theorem map_segment_correct:
  assumes "boot_inv mb m r" and "leaf_flags flags" and "unat start \<le> unat stop" and "unat stop \<le> 2 ^ 32"
    and "\<forall>x \<in> set (segment_pages (seg_lo start) (seg_hi stop)). vacant m r (page_key mt x)"
    and "frames_left mb (2 * length (segment_pages (seg_lo start) (seg_hi stop)))"
  shows "\<exists>mb' m'. map_segment start stop r mt (Map_flags flags) (mb, m) = Inr (mb', m') \<and> boot_inv mb' m' r
    \<and> (\<forall>w. translate m' r w = (if unat w \<in> {seg_lo start + va_offset mt ..< seg_hi stop + va_offset mt}
         then Some (unat w - va_offset mt, flags OR PTE_V) else translate m r w))"
proof -
  have "frames_left mb (0 + 2 * length (segment_pages (seg_lo start) (seg_hi stop)))" using assms(6) by simp
  from map_segment_ok [OF assms(1-5) this] show ?thesis by blast
qed

theorem map_segment_correct_witness:
  "\<exists>mb mb' m'. map_segment 0x80000010 0x80200FF0 0x80200000 Linear (Map_flags (PTE_R OR PTE_X)) (mb, \<lambda>_. 0) = Inr (mb', m')
     \<and> translate m' 0x80200000 (phys_to_virt 0x80200123) = Some (0x80200123, (PTE_R OR PTE_X) OR PTE_V)"
proof -
  obtain mb where inv: "boot_inv mb (\<lambda>_. 0) 0x80200000"
    and fl: "frames_left mb (0 + 2 * length (segment_pages (seg_lo 0x80000010) (seg_hi 0x80200FF0)))"
    using boot_segment_example by blast
  have se: "unat (0x80000010 :: usize) \<le> unat (0x80200FF0 :: usize)" "unat (0x80200FF0 :: usize) \<le> 2 ^ 32" by simp_all
  have w: "unat (phys_to_virt 0x80200123) \<in> {seg_lo 0x80000010 + va_offset Linear ..< seg_hi 0x80200FF0 + va_offset Linear}"
    "unat (phys_to_virt 0x80200123) - va_offset Linear = 0x80200123"
    by (simp_all add: va_offset_def phys_to_virt_def PHYS_VIRT_OFFSET_def)
  obtain mb' m' where r: "map_segment 0x80000010 0x80200FF0 0x80200000 Linear (Map_flags (PTE_R OR PTE_X)) (mb, \<lambda>_. 0) = Inr (mb', m')"
    "\<forall>w. translate m' 0x80200000 w = (if unat w \<in> {seg_lo 0x80000010 + va_offset Linear ..< seg_hi 0x80200FF0 + va_offset Linear}
         then Some (unat w - va_offset Linear, (PTE_R OR PTE_X) OR PTE_V) else translate (\<lambda>_. 0) 0x80200000 w)"
    using map_segment_correct [OF inv leaf_flags_RX se seg_vacant_empty fl [unfolded add_0]] by blast
  have "translate m' 0x80200000 (phys_to_virt 0x80200123) = Some (0x80200123, (PTE_R OR PTE_X) OR PTE_V)"
    unfolding r(2) [rule_format] if_P [OF w(1)] w(2) ..
  with r(1) show ?thesis by blast
qed

text \<open>Mapping a vacant segment and unmapping the same segment succeeds and restores the translation of
  every address, as \<open>unmap_temp_identity_area\<close> relies on.\<close>

theorem segment_round_trip:
  assumes "boot_inv mb m r" and "leaf_flags flags" and "unat start \<le> unat stop" and "unat stop \<le> 2 ^ 32"
    and "\<forall>x \<in> set (segment_pages (seg_lo start) (seg_hi stop)). vacant m r (page_key mt x)"
    and "frames_left mb (2 * length (segment_pages (seg_lo start) (seg_hi stop)))"
  shows "\<exists>mb' m' m''. map_segment start stop r mt (Map_flags flags) (mb, m) = Inr (mb', m')
    \<and> map_segment start stop (phys_to_virt r) mt Unmap (mb', m') = Inr (mb', m'') \<and> boot_inv mb' m'' r
    \<and> (\<forall>w. translate m'' r w = translate m r w)"
proof -
  have "frames_left mb (0 + 2 * length (segment_pages (seg_lo start) (seg_hi stop)))" using assms(6) by simp
  from map_segment_ok [OF assms(1-5) this] obtain mb' m' where a:
    "map_segment start stop r mt (Map_flags flags) (mb, m) = Inr (mb', m')" "boot_inv mb' m' r"
    "\<forall>x \<in> set (segment_pages (seg_lo start) (seg_hi stop)). pte_at m' r (page_key mt x) \<noteq> None"
    "\<forall>w. translate m' r w = (if unat w \<in> {seg_lo start + va_offset mt ..< seg_hi stop + va_offset mt}
         then Some (unat w - va_offset mt, flags OR PTE_V) else translate m r w)" by blast
  from unmap_segment_ok [OF a(2) assms(3,4) a(3)] obtain m'' where b:
    "map_segment start stop (phys_to_virt r) mt Unmap (mb', m') = Inr (mb', m'')" "boot_inv mb' m'' r"
    "\<forall>w. translate m'' r w = (if unat w \<in> {seg_lo start + va_offset mt ..< seg_hi stop + va_offset mt} then None else translate m' r w)"
    by blast
  have "translate m'' r w = translate m r w" for w
    using a(4) b(3) vacant_translate [OF assms(3,4,5)] by presburger
  with a(1) b(1,2) show ?thesis by blast
qed

theorem segment_round_trip_witness:
  "\<exists>mb mb' m' m''. map_segment 0x80000010 0x80200FF0 0x80200000 Identical (Map_flags (PTE_R OR PTE_X)) (mb, \<lambda>_. 0) = Inr (mb', m')
     \<and> map_segment 0x80000010 0x80200FF0 (phys_to_virt 0x80200000) Identical Unmap (mb', m') = Inr (mb', m'')"
proof -
  obtain mb where inv: "boot_inv mb (\<lambda>_. 0) 0x80200000"
    and fl: "frames_left mb (0 + 2 * length (segment_pages (seg_lo 0x80000010) (seg_hi 0x80200FF0)))"
    using boot_segment_example by blast
  have se: "unat (0x80000010 :: usize) \<le> unat (0x80200FF0 :: usize)" "unat (0x80200FF0 :: usize) \<le> 2 ^ 32" by simp_all
  from segment_round_trip [OF inv leaf_flags_RX se seg_vacant_empty fl [unfolded add_0]] show ?thesis by blast
qed

end
