(* ===== verification/Context.thy ===== *)
theory Context
  imports Rust_Prelude
begin

text \<open>
  Task contexts (\<open>src/task/context.rs\<close>) and the assembly that saves and restores them: \<open>trap_entry\<close>
  (\<open>src/trap/mod.rs\<close>) and \<open>first_switch_to\<close> (\<open>src/task/switch.rs\<close>). The instructions are a list
  executed by \<open>exec\<close> on a hart with its registers, CSRs and memory as the kernel addresses it, one cell
  per 8 bytes. \<open>call trap_handler\<close> is the only instruction outside the lists; it is a parameter of
  \<open>trap_entry\<close> and may change the context, \<open>sscratch\<close> and every register but \<open>gp\<close>.
\<close>

section \<open>Context and hart\<close>

record task_context =
  ctx_ra :: usize
  ctx_sp :: usize
  ctx_tp :: usize
  ctx_t0 :: usize
  ctx_t1 :: usize
  ctx_t2 :: usize
  ctx_s0 :: usize
  ctx_s1 :: usize
  ctx_a0 :: usize
  ctx_a1 :: usize
  ctx_a2 :: usize
  ctx_a3 :: usize
  ctx_a4 :: usize
  ctx_a5 :: usize
  ctx_a6 :: usize
  ctx_a7 :: usize
  ctx_s2 :: usize
  ctx_s3 :: usize
  ctx_s4 :: usize
  ctx_s5 :: usize
  ctx_s6 :: usize
  ctx_s7 :: usize
  ctx_s8 :: usize
  ctx_s9 :: usize
  ctx_s10 :: usize
  ctx_s11 :: usize
  ctx_t3 :: usize
  ctx_t4 :: usize
  ctx_t5 :: usize
  ctx_t6 :: usize
  ctx_sepc :: usize

definition task_context_zero :: task_context where
  "task_context_zero = \<lparr>ctx_ra = 0, ctx_sp = 0, ctx_tp = 0, ctx_t0 = 0, ctx_t1 = 0, ctx_t2 = 0, ctx_s0 = 0, ctx_s1 = 0,
     ctx_a0 = 0, ctx_a1 = 0, ctx_a2 = 0, ctx_a3 = 0, ctx_a4 = 0, ctx_a5 = 0, ctx_a6 = 0, ctx_a7 = 0,
     ctx_s2 = 0, ctx_s3 = 0, ctx_s4 = 0, ctx_s5 = 0, ctx_s6 = 0, ctx_s7 = 0, ctx_s8 = 0, ctx_s9 = 0, ctx_s10 = 0, ctx_s11 = 0,
     ctx_t3 = 0, ctx_t4 = 0, ctx_t5 = 0, ctx_t6 = 0, ctx_sepc = 0\<rparr>"

datatype reg = Ra | Sp | Gp | Tp | T0 | T1 | T2 | S0 | S1 | A0 | A1 | A2 | A3 | A4 | A5 | A6 | A7
  | S2 | S3 | S4 | S5 | S6 | S7 | S8 | S9 | S10 | S11 | T3 | T4 | T5 | T6

datatype csr = Sscratch | Sepc | Scause | Sstatus

datatype mode = User | Supervisor

record hart =
  regs :: "reg \<Rightarrow> usize"
  csrs :: "csr \<Rightarrow> usize"
  hart_pc :: usize
  hart_mode :: mode
  vmem :: "usize \<Rightarrow> usize"

datatype instr =
    Sd reg nat reg
  | Ld reg nat reg
  | Mv reg reg
  | Li reg usize
  | Csrr reg csr
  | Csrw csr reg
  | Csrrw reg csr reg
  | Csrs csr reg
  | Csrc csr reg
  | Sret

text \<open>Bits 1, 5 and 8 of \<open>sstatus\<close>: interrupts enabled, their previous state, and the previous mode.\<close>

definition SIE :: usize where "SIE = push_bit 1 1"
definition SPIE :: usize where "SPIE = push_bit 5 1"
definition SPP :: usize where "SPP = push_bit 8 1"

section \<open>Instructions\<close>

fun exec_instr :: "instr \<Rightarrow> hart \<Rightarrow> hart" where
  "exec_instr (Sd r off base) h = h\<lparr>vmem := (vmem h)(regs h base + of_nat off := regs h r)\<rparr>"
| "exec_instr (Ld r off base) h = h\<lparr>regs := (regs h)(r := vmem h (regs h base + of_nat off))\<rparr>"
| "exec_instr (Mv r r') h = h\<lparr>regs := (regs h)(r := regs h r')\<rparr>"
| "exec_instr (Li r v) h = h\<lparr>regs := (regs h)(r := v)\<rparr>"
| "exec_instr (Csrr r c) h = h\<lparr>regs := (regs h)(r := csrs h c)\<rparr>"
| "exec_instr (Csrw c r) h = h\<lparr>csrs := (csrs h)(c := regs h r)\<rparr>"
| "exec_instr (Csrrw r c r') h = h\<lparr>regs := (regs h)(r := csrs h c), csrs := (csrs h)(c := regs h r')\<rparr>"
| "exec_instr (Csrs c r) h = h\<lparr>csrs := (csrs h)(c := csrs h c OR regs h r)\<rparr>"
| "exec_instr (Csrc c r) h = h\<lparr>csrs := (csrs h)(c := csrs h c AND NOT (regs h r))\<rparr>"
| "exec_instr Sret h = (let st = csrs h Sstatus in
     h\<lparr>hart_pc := csrs h Sepc,
       hart_mode := (if st AND SPP = 0 then User else Supervisor),
       csrs := (csrs h)(Sstatus := ((if st AND SPIE = 0 then st AND NOT SIE else st OR SIE) OR SPIE) AND NOT SPP)\<rparr>)"

definition exec :: "instr list \<Rightarrow> hart \<Rightarrow> hart" where
  "exec prog h = fold exec_instr prog h"

text \<open>What the hart does on a trap before the first instruction of \<open>trap_entry\<close>.\<close>

definition take_trap :: "usize \<Rightarrow> usize \<Rightarrow> hart \<Rightarrow> hart" where
  "take_trap stvec cause h = (let st = csrs h Sstatus;
       st1 = (if st AND SIE = 0 then st AND NOT SPIE else st OR SPIE);
       st2 = (if hart_mode h = User then st1 AND NOT SPP else st1 OR SPP)
     in h\<lparr>csrs := (csrs h)(Sepc := hart_pc h, Scause := cause, Sstatus := st2 AND NOT SIE),
         hart_mode := Supervisor, hart_pc := stvec\<rparr>)"

section \<open>The programs\<close>

definition trap_entry_save :: "instr list" where
  "trap_entry_save =
    [Csrrw T6 Sscratch T6, Sd Ra 0 T6, Sd Sp 8 T6, Sd Tp 16 T6, Sd T0 24 T6, Sd T1 32 T6,
     Sd T2 40 T6, Sd S0 48 T6, Sd S1 56 T6, Sd A0 64 T6, Sd A1 72 T6, Sd A2 80 T6,
     Sd A3 88 T6, Sd A4 96 T6, Sd A5 104 T6, Sd A6 112 T6, Sd A7 120 T6, Sd S2 128 T6,
     Sd S3 136 T6, Sd S4 144 T6, Sd S5 152 T6, Sd S6 160 T6, Sd S7 168 T6, Sd S8 176 T6,
     Sd S9 184 T6, Sd S10 192 T6, Sd S11 200 T6, Sd T3 208 T6, Sd T4 216 T6, Sd T5 224 T6,
     Mv T5 T6, Csrr T6 Sscratch, Sd T6 232 T5, Csrw Sscratch T5, Csrr A0 Sepc, Sd A0 240 T5,
     Csrr A1 Scause, Mv A0 T5]"

definition trap_entry_restore :: "instr list" where
  "trap_entry_restore =
    [Csrw Sepc A0, Csrr A0 Sscratch, Ld Ra 0 A0, Ld Sp 8 A0, Ld Tp 16 A0, Ld T0 24 A0,
     Ld T1 32 A0, Ld T2 40 A0, Ld S0 48 A0, Ld S1 56 A0, Ld A1 72 A0, Ld A2 80 A0,
     Ld A3 88 A0, Ld A4 96 A0, Ld A5 104 A0, Ld A6 112 A0, Ld A7 120 A0, Ld S2 128 A0,
     Ld S3 136 A0, Ld S4 144 A0, Ld S5 152 A0, Ld S6 160 A0, Ld S7 168 A0, Ld S8 176 A0,
     Ld S9 184 A0, Ld S10 192 A0, Ld S11 200 A0, Ld T3 208 A0, Ld T4 216 A0, Ld T5 224 A0,
     Ld T6 232 A0, Ld A0 64 A0, Sret]"

text \<open>
  The call: the handler reads the context pointer in \<open>a0\<close> and the cause in \<open>a1\<close>, may write memory and
  \<open>sscratch\<close>, and returns a value in \<open>a0\<close>. \<open>clob\<close> is the content of the other registers afterwards.
\<close>

type_synonym handler = "usize \<Rightarrow> usize \<Rightarrow> usize \<times> (usize \<Rightarrow> usize) \<Rightarrow> usize \<times> usize \<times> (usize \<Rightarrow> usize)"

definition call_handler :: "handler \<Rightarrow> (reg \<Rightarrow> usize) \<Rightarrow> hart \<Rightarrow> hart" where
  "call_handler handler clob h =
     (case handler (regs h A0) (regs h A1) (csrs h Sscratch, vmem h) of (ret, scratch, m) \<Rightarrow>
        h\<lparr>regs := clob(Gp := regs h Gp, A0 := ret), csrs := (csrs h)(Sscratch := scratch), vmem := m\<rparr>)"

definition trap_entry :: "handler \<Rightarrow> (reg \<Rightarrow> usize) \<Rightarrow> hart \<Rightarrow> hart" where
  "trap_entry handler clob h = exec trap_entry_restore (call_handler handler clob (exec trap_entry_save h))"

definition first_switch_to :: "instr list" where
  "first_switch_to =
    [Csrw Sscratch A0, Ld T0 240 A0, Csrw Sepc T0, Li T1 (push_bit 8 1), Csrc Sstatus T1, Li T1 (push_bit 5 1),
     Csrs Sstatus T1, Ld Ra 0 A0, Ld Sp 8 A0, Ld Tp 16 A0, Ld T0 24 A0, Ld T1 32 A0,
     Ld T2 40 A0, Ld S0 48 A0, Ld S1 56 A0, Ld A1 72 A0, Ld A2 80 A0, Ld A3 88 A0,
     Ld A4 96 A0, Ld A5 104 A0, Ld A6 112 A0, Ld A7 120 A0, Ld S2 128 A0, Ld S3 136 A0,
     Ld S4 144 A0, Ld S5 152 A0, Ld S6 160 A0, Ld S7 168 A0, Ld S8 176 A0, Ld S9 184 A0,
     Ld S10 192 A0, Ld S11 200 A0, Ld T3 208 A0, Ld T4 216 A0, Ld T5 224 A0, Ld T6 232 A0,
     Ld A0 64 A0, Sret]"

section \<open>Contexts in memory\<close>

text \<open>The \<open>repr(C)\<close> layout: the fields in order, 8 bytes each.\<close>

definition read_ctx :: "(usize \<Rightarrow> usize) \<Rightarrow> usize \<Rightarrow> task_context" where
  "read_ctx m p = \<lparr>ctx_ra = m (p + 0), ctx_sp = m (p + 8), ctx_tp = m (p + 16), ctx_t0 = m (p + 24), ctx_t1 = m (p + 32), ctx_t2 = m (p + 40), ctx_s0 = m (p + 48), ctx_s1 = m (p + 56), ctx_a0 = m (p + 64), ctx_a1 = m (p + 72), ctx_a2 = m (p + 80), ctx_a3 = m (p + 88), ctx_a4 = m (p + 96), ctx_a5 = m (p + 104), ctx_a6 = m (p + 112), ctx_a7 = m (p + 120), ctx_s2 = m (p + 128), ctx_s3 = m (p + 136), ctx_s4 = m (p + 144), ctx_s5 = m (p + 152), ctx_s6 = m (p + 160), ctx_s7 = m (p + 168), ctx_s8 = m (p + 176), ctx_s9 = m (p + 184), ctx_s10 = m (p + 192), ctx_s11 = m (p + 200), ctx_t3 = m (p + 208), ctx_t4 = m (p + 216), ctx_t5 = m (p + 224), ctx_t6 = m (p + 232), ctx_sepc = m (p + 240)\<rparr>"

text \<open>The registers of a hart as a context; \<open>gp\<close> is not part of it.\<close>

definition reg_ctx :: "(reg \<Rightarrow> usize) \<Rightarrow> usize \<Rightarrow> task_context" where
  "reg_ctx g pc = \<lparr>ctx_ra = g Ra, ctx_sp = g Sp, ctx_tp = g Tp, ctx_t0 = g T0, ctx_t1 = g T1, ctx_t2 = g T2, ctx_s0 = g S0, ctx_s1 = g S1, ctx_a0 = g A0, ctx_a1 = g A1, ctx_a2 = g A2, ctx_a3 = g A3, ctx_a4 = g A4, ctx_a5 = g A5, ctx_a6 = g A6, ctx_a7 = g A7, ctx_s2 = g S2, ctx_s3 = g S3, ctx_s4 = g S4, ctx_s5 = g S5, ctx_s6 = g S6, ctx_s7 = g S7, ctx_s8 = g S8, ctx_s9 = g S9, ctx_s10 = g S10, ctx_s11 = g S11, ctx_t3 = g T3, ctx_t4 = g T4, ctx_t5 = g T5, ctx_t6 = g T6, ctx_sepc = pc\<rparr>"

definition ctx_cells :: "usize \<Rightarrow> usize set" where
  "ctx_cells p = (\<lambda>k. p + 8 * of_nat k) ` {0..<31}"

lemmas exec_simps = exec_def fold_simps exec_instr.simps

lemma exec_append: "exec (p @ q) h = exec q (exec p h)"
  by (simp add: exec_def)

lemma ctx_cell_mem: "k < 31 \<Longrightarrow> p + 8 * of_nat k \<in> ctx_cells p"
  by (auto simp: ctx_cells_def)

lemma save_ok:
  assumes "p = csrs h Sscratch" and "h' = exec trap_entry_save h"
  shows "read_ctx (vmem h') p = reg_ctx (regs h) (csrs h Sepc)"
    and "csrs h' = csrs h" and "regs h' A0 = p" and "regs h' A1 = csrs h Scause" and "regs h' Gp = regs h Gp"
    and "hart_mode h' = hart_mode h"
  using assms(1) unfolding assms(2) read_ctx_def reg_ctx_def trap_entry_save_def exec_def
  by simp_all

lemma save_frame:
  assumes "x \<notin> ctx_cells (csrs h Sscratch)"
  shows "vmem (exec trap_entry_save h) x = vmem h x"
proof -
  have "x \<noteq> csrs h Sscratch + 8 * of_nat k" if "k < 31" for k using assms ctx_cell_mem [OF that] by metis
  from this [of 0] this [of 1] this [of 2] this [of 3] this [of 4] this [of 5] this [of 6] this [of 7] this [of 8] this [of 9]
    this [of 10] this [of 11] this [of 12] this [of 13] this [of 14] this [of 15] this [of 16] this [of 17] this [of 18] this [of 19]
    this [of 20] this [of 21] this [of 22] this [of 23] this [of 24] this [of 25] this [of 26] this [of 27] this [of 28] this [of 29]
    this [of 30]
  show ?thesis by (simp add: trap_entry_save_def exec_def)
qed

lemma bit_push_1: "bit (push_bit k 1 :: usize) n \<longleftrightarrow> n = k \<and> k < 64"
  unfolding bit_push_bit_iff bit_1_iff possible_bit_word by auto

lemma and_mask_bit: "k < 64 \<Longrightarrow> (w :: usize) AND push_bit k 1 = 0 \<longleftrightarrow> \<not> bit w k"
  unfolding bit_eq_iff [of _ 0] bit_and_iff bit_push_1 by auto

lemma sstatus_bits:
  "st AND SIE = 0 \<longleftrightarrow> \<not> bit st 1" "st AND SPIE = 0 \<longleftrightarrow> \<not> bit st 5" "st AND SPP = 0 \<longleftrightarrow> \<not> bit st 8"
  "bit SIE n \<longleftrightarrow> n = 1" "bit SPIE n \<longleftrightarrow> n = 5" "bit SPP n \<longleftrightarrow> n = 8"
  unfolding SIE_def SPIE_def SPP_def bit_push_1 by (auto intro!: and_mask_bit simp only:)

lemma restore_ok:
  assumes "q = csrs h Sscratch" and "h' = exec trap_entry_restore h"
  shows "reg_ctx (regs h') (hart_pc h') = (read_ctx (vmem h) q)\<lparr>ctx_sepc := regs h A0\<rparr>"
    and "regs h' Gp = regs h Gp" and "vmem h' = vmem h" and "csrs h' Sscratch = q"
    and "hart_mode h' = (if csrs h Sstatus AND SPP = 0 then User else Supervisor)"
    and "csrs h' Sstatus AND SIE = 0 \<longleftrightarrow> csrs h Sstatus AND SPIE = 0"
  using assms(1) unfolding assms(2) read_ctx_def reg_ctx_def trap_entry_restore_def exec_def
  by (simp_all add: Let_def sstatus_bits bit_simps)

lemma first_switch_ok:
  assumes "h' = exec first_switch_to h"
  shows "reg_ctx (regs h') (hart_pc h') = read_ctx (vmem h) (regs h A0)"
    and "regs h' Gp = regs h Gp" and "vmem h' = vmem h" and "csrs h' Sscratch = regs h A0"
    and "hart_mode h' = User" and "csrs h' Sstatus AND SIE \<noteq> 0"
  unfolding assms read_ctx_def reg_ctx_def first_switch_to_def exec_def
  by (simp_all add: Let_def sstatus_bits bit_simps)

lemma take_trap_simps [simp]:
  "regs (take_trap stvec cause h) = regs h" "vmem (take_trap stvec cause h) = vmem h"
  "csrs (take_trap stvec cause h) Sscratch = csrs h Sscratch" "csrs (take_trap stvec cause h) Sepc = hart_pc h"
  "csrs (take_trap stvec cause h) Scause = cause"
  "csrs (take_trap stvec cause h) Sstatus AND SPP = 0 \<longleftrightarrow> hart_mode h = User"
  "csrs (take_trap stvec cause h) Sstatus AND SPIE = 0 \<longleftrightarrow> csrs h Sstatus AND SIE = 0"
  "csrs (take_trap stvec cause h) Sstatus AND SIE = 0"
  unfolding sstatus_bits take_trap_def by (simp_all add: Let_def sstatus_bits bit_simps)

lemma reg_ctx_inject: "reg_ctx g pc = reg_ctx g' pc' \<Longrightarrow> g Gp = g' Gp \<Longrightarrow> g r = g' r \<and> pc = pc'"
  by (cases r) (simp_all add: reg_ctx_def)

text \<open>What the end of a trap loads: everything from the context at \<open>q\<close>, the program counter from the result.\<close>

definition resumes :: "hart \<Rightarrow> hart \<Rightarrow> usize \<times> usize \<times> (usize \<Rightarrow> usize) \<Rightarrow> bool" where
  "resumes h h' res \<longleftrightarrow> (case res of (ret, q, m) \<Rightarrow>
     reg_ctx (regs h') (hart_pc h') = (read_ctx m q)\<lparr>ctx_sepc := ret\<rparr> \<and> regs h' Gp = regs h Gp
     \<and> vmem h' = m \<and> csrs h' Sscratch = q \<and> hart_mode h' = hart_mode h
     \<and> (csrs h' Sstatus AND SIE = 0 \<longleftrightarrow> csrs h Sstatus AND SIE = 0))"

lemma trap_entry_ok:
  assumes "p = csrs h Sscratch" and "h' = trap_entry handler clob (take_trap stvec cause h)"
  obtains m where "read_ctx m p = reg_ctx (regs h) (hart_pc h)" and "\<forall>x. x \<in> ctx_cells p \<or> m x = vmem h x"
    and "resumes h h' (handler p cause (p, m))"
proof -
  let ?h1 = "take_trap stvec cause h"
  define h2 where "h2 = exec trap_entry_save ?h1"
  note sv = save_ok [OF refl h2_def, simplified]
  obtain ret q m' where hd: "handler p cause (p, vmem h2) = (ret, q, m')" by (metis prod_cases3)
  define h3 where "h3 = call_handler handler clob h2"
  have h3: "regs h3 A0 = ret" "csrs h3 Sscratch = q" "vmem h3 = m'" "regs h3 Gp = regs h Gp" "csrs h3 Sstatus = csrs ?h1 Sstatus"
    using sv hd assms(1) by (simp_all add: h3_def call_handler_def)
  have h': "h' = exec trap_entry_restore h3" unfolding assms(2) trap_entry_def h2_def h3_def ..
  note rs = restore_ok [OF refl h', unfolded h3, simplified]
  have "\<forall>x. x \<in> ctx_cells p \<or> vmem h2 x = vmem h x"
    using save_frame [of _ ?h1] assms(1) unfolding h2_def by auto
  moreover have "hart_mode h' = hart_mode h" using rs(5) by (cases "hart_mode h") simp_all
  ultimately show thesis using sv(1) rs hd assms(1) by (intro that [of "vmem h2"]) (simp_all add: resumes_def)
qed

section \<open>Properties\<close>

text \<open>C10. A trap, from the instruction it interrupts to the \<open>sret\<close> that ends \<open>trap_entry\<close>, for every handler.
  The handler finds the 30 registers and the program counter of the interrupted code in the context
  \<open>sscratch\<close> points to, and no other memory has changed. When it returns \<open>ret\<close> with \<open>sscratch = q\<close>, the hart
  continues at \<open>ret\<close> with every register loaded from the context at \<open>q\<close>, in the mode and with the
  interrupt enable of the interrupted code, not of the resumed one.\<close>

theorem trap_entry_correct:
  "\<exists>m. read_ctx m (csrs h Sscratch) = reg_ctx (regs h) (hart_pc h)
     \<and> (\<forall>x. x \<in> ctx_cells (csrs h Sscratch) \<or> m x = vmem h x)
     \<and> resumes h (trap_entry handler clob (take_trap stvec cause h)) (handler (csrs h Sscratch) cause (csrs h Sscratch, m))"
  by (rule trap_entry_ok [OF refl refl, of h handler clob stvec cause]) blast

text \<open>C27. A handler that does not switch, i.e. keeps \<open>sscratch\<close> and the saved context and returns the saved
  program counter, is invisible to the interrupted code: after the trap every register, the program
  counter, the mode and the interrupt enable are what they were, whatever the handler left in the
  registers.\<close>

theorem trap_transparent:
  assumes "\<forall>m. \<exists>m'. handler (csrs h Sscratch) cause (csrs h Sscratch, m) = (ctx_sepc (read_ctx m (csrs h Sscratch)), csrs h Sscratch, m')
      \<and> read_ctx m' (csrs h Sscratch) = read_ctx m (csrs h Sscratch)"
    and "h' = trap_entry handler clob (take_trap stvec cause h)"
  shows "regs h' r = regs h r \<and> hart_pc h' = hart_pc h \<and> hart_mode h' = hart_mode h
    \<and> (csrs h' Sstatus AND SIE = 0 \<longleftrightarrow> csrs h Sstatus AND SIE = 0)"
proof -
  let ?p = "csrs h Sscratch"
  obtain m where m: "read_ctx m ?p = reg_ctx (regs h) (hart_pc h)" "resumes h h' (handler ?p cause (?p, m))"
    by (rule trap_entry_ok [OF refl assms(2)])
  obtain m' where hd: "handler ?p cause (?p, m) = (ctx_sepc (read_ctx m ?p), ?p, m')" "read_ctx m' ?p = read_ctx m ?p"
    using assms(1) by blast
  have "reg_ctx (regs h') (hart_pc h') = reg_ctx (regs h) (hart_pc h)"
    using m(2) hd m(1) by (simp add: resumes_def reg_ctx_def)
  from reg_ctx_inject [OF this] m(2) hd(1) show ?thesis by (auto simp: resumes_def)
qed

definition idle_hart :: hart where
  "idle_hart = \<lparr>regs = (\<lambda>r. if r = A7 then 99 else 5), csrs = (\<lambda>c. 0)(Sscratch := 0x80400000, Sstatus := SIE),
     hart_pc = 0x80201000, hart_mode = User, vmem = (\<lambda>_. 0)\<rparr>"

definition keep_handler :: handler where
  "keep_handler p cause s = (case s of (q, m) \<Rightarrow> (m (p + 240), q, m))"

theorem trap_transparent_witness:
  "regs (trap_entry keep_handler (\<lambda>_. 0) (take_trap 0x80200000 8 idle_hart)) A7 = 99"
proof -
  have "\<forall>m. \<exists>m'. keep_handler (csrs idle_hart Sscratch) 8 (csrs idle_hart Sscratch, m)
      = (ctx_sepc (read_ctx m (csrs idle_hart Sscratch)), csrs idle_hart Sscratch, m')
    \<and> read_ctx m' (csrs idle_hart Sscratch) = read_ctx m (csrs idle_hart Sscratch)"
    by (simp add: read_ctx_def keep_handler_def)
  from trap_transparent [where handler = keep_handler and h = idle_hart and cause = 8, OF this refl, of "\<lambda>_. 0" "0x80200000" A7] show ?thesis by (simp add: idle_hart_def)
qed

text \<open>C28. \<open>first_switch_to\<close> starts a task: every register and the program counter are loaded from the context
  in \<open>a0\<close>, \<open>sscratch\<close> points to it, and the hart is in user mode with interrupts enabled.\<close>

theorem first_switch_correct:
  "let h' = exec first_switch_to h in
     reg_ctx (regs h') (hart_pc h') = read_ctx (vmem h) (regs h A0) \<and> csrs h' Sscratch = regs h A0 \<and> vmem h' = vmem h
     \<and> hart_mode h' = User \<and> csrs h' Sstatus AND SIE \<noteq> 0"
  using first_switch_ok [OF refl] by (simp add: Let_def)

end
