(* ===== verification/Scheduler.thy ===== *)
theory Scheduler
  imports Context Buddy
begin

text \<open>
  The scheduler of \<open>src/task/scheduler.rs\<close> with the task control blocks of \<open>src/task/tcb.rs\<close>. The model
  works on the \<open>Scheduler\<close> value together with the state of the buddy allocator, from which stacks
  are taken and to which those of exited tasks return. A pointer to the context of a task is the
  index of the task in \<open>task_list\<close>. The standard collections are lists: \<open>VecDeque\<close> with its front
  first, \<open>Vec\<close> with its last element last, \<open>BinaryHeap<Reverse<SleepEntry>>\<close> as the ascending list of its
  entries. Allocation of the collections and of the boxed closure is not modelled; the closure is
  the pair of words of its fat pointer.
\<close>

section \<open>Tasks\<close>

datatype task_status = Ready | Running | Blocked | Terminated

record task_control_block =
  tcb_task_id :: nat
  tcb_entry_point :: "usize \<times> usize"
  tcb_stack_base :: usize
  tcb_page_count :: usize
  tcb_priority :: u8
  tcb_status :: task_status
  tcb_context :: task_context

datatype scheduler_error = SchedulerLayoutError | MemoryAllocationError

datatype sleep_entry = SleepEntry (wake_time: usize) (sleep_task: nat)

instantiation sleep_entry :: linorder
begin

definition less_eq_sleep_entry :: "sleep_entry \<Rightarrow> sleep_entry \<Rightarrow> bool" where
  "less_eq_sleep_entry x y \<longleftrightarrow>
     wake_time x < wake_time y \<or> (wake_time x = wake_time y \<and> sleep_task x \<le> sleep_task y)"

definition less_sleep_entry :: "sleep_entry \<Rightarrow> sleep_entry \<Rightarrow> bool" where
  "less_sleep_entry x y \<longleftrightarrow>
     wake_time x < wake_time y \<or> (wake_time x = wake_time y \<and> sleep_task x < sleep_task y)"

instance
  by standard (auto simp: less_eq_sleep_entry_def less_sleep_entry_def sleep_entry.expand)

end

record scheduler =
  current_task_id :: "nat option"
  ready_queue :: "nat list"
  task_list :: "task_control_block option list"
  zombie_queue :: "nat list"
  blocked_queue :: "sleep_entry list"

type_synonym sched_state = "scheduler \<times> buddy_state"

definition scheduler_new :: scheduler where
  "scheduler_new = \<lparr>current_task_id = None, ready_queue = [], task_list = [], zombie_queue = [], blocked_queue = []\<rparr>"

definition get_current_task_id :: "scheduler \<Rightarrow> nat res" where
  "get_current_task_id s = unwrap (current_task_id s)"

section \<open>Operations\<close>

text \<open>Creation of a task. \<open>entry\<close> is the fat pointer of the boxed closure, \<open>trampoline\<close> the address of its caller.\<close>

definition free_slot :: "task_control_block option list \<Rightarrow> nat" where
  "free_slot ts = length (takeWhile (\<lambda>t. t \<noteq> None) ts)"

definition new_context :: "usize \<Rightarrow> usize \<times> usize \<Rightarrow> usize \<Rightarrow> task_context" where
  "new_context trampoline entry stack_top = task_context_zero\<lparr>ctx_sp := stack_top, ctx_ra := trampoline,
     ctx_a0 := fst entry, ctx_a1 := snd entry, ctx_sepc := trampoline\<rparr>"

definition spawn :: "usize \<Rightarrow> sched_state \<Rightarrow> usize \<times> usize \<Rightarrow> usize \<Rightarrow> u8 \<Rightarrow> ((unit, scheduler_error) result \<times> sched_state) res" where
  "spawn trampoline st entry stack_size priority = (case st of (s, b) \<Rightarrow>
     (let task_id = free_slot (task_list s);
          pages = (stack_size + PAGE_SIZE - 1) div PAGE_SIZE
      in if pages = 0 then Inr (Err MemoryAllocationError, st)
         else rbind (buddy_alloc b pages) (\<lambda>(stack_ppn, b').
           case stack_ppn of
             None \<Rightarrow> Inr (Err MemoryAllocationError, (s, b'))
           | Some ppn \<Rightarrow>
               let stack_base_va = phys_to_virt (pa_val (pa_from_ppn ppn));
                   stack_top = stack_base_va + pages * PAGE_SIZE;
                   tcb = \<lparr>tcb_task_id = task_id, tcb_entry_point = entry, tcb_stack_base = stack_base_va,
                     tcb_page_count = pages, tcb_priority = priority, tcb_status = Ready,
                     tcb_context = new_context trampoline entry stack_top\<rparr>
               in require (stack_base_va \<noteq> 0) Unwrap_none
                 (Inr (Ok (), (s\<lparr>task_list := (if task_id = length (task_list s) then task_list s @ [Some tcb]
                                               else (task_list s)[task_id := Some tcb]),
                                ready_queue := ready_queue s @ [task_id]\<rparr>, b'))))))"

text \<open>The choice of the next task, the same in three places: the front of the queue, task 0 only when nothing else is ready.\<close>

definition pop_next :: "nat list \<Rightarrow> nat \<times> nat list" where
  "pop_next q = (let (next_id, q1) = (case q of [] \<Rightarrow> (0, []) | x # xs \<Rightarrow> (x, xs))
     in case q1 of [] \<Rightarrow> (next_id, q1) | y # ys \<Rightarrow> if next_id = 0 then (y, ys @ [0]) else (next_id, q1))"

definition set_status :: "task_control_block option list \<Rightarrow> nat \<Rightarrow> task_control_block \<Rightarrow> task_status \<Rightarrow> task_control_block option list" where
  "set_status ts i tcb st = ts[i := Some (tcb\<lparr>tcb_status := st\<rparr>)]"

definition run_next :: "scheduler \<Rightarrow> (nat \<times> scheduler) res" where
  "run_next s = (let (next_id, q) = pop_next (ready_queue s) in
     rbind (index (task_list s) next_id) (\<lambda>slot. case slot of
         None \<Rightarrow> Inl (Panicked ''next task missing'')
       | Some tcb \<Rightarrow> Inr (next_id, s\<lparr>ready_queue := q, task_list := set_status (task_list s) next_id tcb Running,
                                   current_task_id := Some next_id\<rparr>)))"

text \<open>The running task, or \<open>unreachable!()\<close>.\<close>

definition with_running :: "scheduler \<Rightarrow> (nat \<Rightarrow> task_control_block \<Rightarrow> 'a res) \<Rightarrow> 'a res" where
  "with_running s k = (case current_task_id s of
       None \<Rightarrow> Inl Unreachable
     | Some cur \<Rightarrow> rbind (index (task_list s) cur) (\<lambda>slot. case slot of
           None \<Rightarrow> Inl Unreachable
         | Some tcb \<Rightarrow> if tcb_status tcb = Running then k cur tcb else Inl Unreachable))"

definition set_current_task_sleep :: "scheduler \<Rightarrow> usize \<Rightarrow> (nat \<times> scheduler) res" where
  "set_current_task_sleep s wake = with_running s (\<lambda>cur tcb.
     run_next (s\<lparr>task_list := set_status (task_list s) cur tcb Blocked,
                 blocked_queue := insort (SleepEntry wake cur) (blocked_queue s)\<rparr>))"

definition block_current_task :: "scheduler \<Rightarrow> (nat \<times> scheduler) res" where
  "block_current_task s = with_running s (\<lambda>cur tcb.
     run_next (s\<lparr>task_list := set_status (task_list s) cur tcb Blocked\<rparr>))"

definition set_task_ready :: "scheduler \<Rightarrow> nat \<Rightarrow> scheduler res" where
  "set_task_ready s task_id = rbind (index (task_list s) task_id) (\<lambda>slot. case slot of
       None \<Rightarrow> Inr s
     | Some tcb \<Rightarrow> if tcb_status tcb = Blocked
         then Inr (s\<lparr>task_list := set_status (task_list s) task_id tcb Ready, ready_queue := ready_queue s @ [task_id]\<rparr>)
         else Inr s)"

definition wake_up_task_with_result :: "scheduler \<Rightarrow> nat \<Rightarrow> u8 \<Rightarrow> scheduler res" where
  "wake_up_task_with_result s task_id r = rbind (index (task_list s) task_id) (\<lambda>slot. case slot of
       None \<Rightarrow> Inr s
     | Some tcb \<Rightarrow> if tcb_status tcb = Blocked
         then Inr (s\<lparr>task_list := (task_list s)[task_id :=
                       Some (tcb\<lparr>tcb_status := Ready, tcb_context := (tcb_context tcb)\<lparr>ctx_a0 := ucast r\<rparr>\<rparr>)],
                     ready_queue := ready_queue s @ [task_id]\<rparr>)
         else Inr s)"

fun finish_sleep_loop :: "usize \<Rightarrow> sleep_entry list \<Rightarrow> scheduler \<Rightarrow> scheduler res" where
  "finish_sleep_loop now [] s = Inr (s\<lparr>blocked_queue := []\<rparr>)"
| "finish_sleep_loop now (e # es) s =
     (if now < wake_time e then Inr (s\<lparr>blocked_queue := e # es\<rparr>)
      else rbind (set_task_ready s (sleep_task e)) (finish_sleep_loop now es))"

definition finish_sleep :: "scheduler \<Rightarrow> usize \<Rightarrow> scheduler res" where
  "finish_sleep s current_mtime = finish_sleep_loop current_mtime (blocked_queue s) s"

text \<open>The zombie loop: at most \<open>n\<close> exited tasks are removed, newest first, up to the current one.\<close>

definition reap :: "nat \<Rightarrow> sched_state \<Rightarrow> sched_state res" where
  "reap zombie_id st = (case st of (s, b) \<Rightarrow>
     (let s1 = s\<lparr>ready_queue := filter (\<lambda>tid. tid \<noteq> zombie_id) (ready_queue s)\<rparr> in
      if zombie_id < length (task_list s)
      then case task_list s ! zombie_id of
          None \<Rightarrow> Inr (s1, b)
        | Some tcb \<Rightarrow>
            rbind (ppn_from_pa (PhysAddr (virt_to_phys (tcb_stack_base tcb)))) (\<lambda>stack_ppn.
            require (tcb_page_count tcb \<noteq> 0) Unwrap_none
              (rbind (buddy_dealloc b stack_ppn (tcb_page_count tcb)) (\<lambda>b'.
                 Inr (s1\<lparr>task_list := (task_list s)[zombie_id := None]\<rparr>, b'))))
      else Inr (s1, b)))"

fun reap_loop :: "nat \<Rightarrow> sched_state \<Rightarrow> sched_state res" where
  "reap_loop 0 st = Inr st"
| "reap_loop (Suc n) st = (case st of (s, b) \<Rightarrow>
     (case rev (zombie_queue s) of
        [] \<Rightarrow> reap_loop n st
      | z # zs \<Rightarrow> if Some z = current_task_id s then Inr st
          else rbind (reap z (s\<lparr>zombie_queue := rev zs\<rparr>, b)) (reap_loop n)))"

definition requeue_current :: "scheduler \<Rightarrow> scheduler res" where
  "requeue_current s = (case current_task_id s of
       None \<Rightarrow> Inr s
     | Some cur \<Rightarrow> rbind (index (task_list s) cur) (\<lambda>slot. case slot of
           None \<Rightarrow> Inr s
         | Some tcb \<Rightarrow> if tcb_status tcb = Running
             then Inr (s\<lparr>task_list := set_status (task_list s) cur tcb Ready, ready_queue := ready_queue s @ [cur]\<rparr>)
             else Inr s))"

definition prepare_next_task :: "sched_state \<Rightarrow> (nat \<times> sched_state) res" where
  "prepare_next_task st =
     rbind (reap_loop (length (zombie_queue (fst st))) st) (\<lambda>(s, b).
     rbind (requeue_current s) (\<lambda>s1.
     rbind (run_next s1) (\<lambda>(next_id, s2). Inr (next_id, (s2, b)))))"

definition mark_current_running :: "scheduler \<Rightarrow> scheduler res" where
  "mark_current_running s = (case current_task_id s of
       None \<Rightarrow> Inr s
     | Some cur \<Rightarrow> rbind (index (task_list s) cur) (\<lambda>slot. case slot of
           None \<Rightarrow> Inr s
         | Some tcb \<Rightarrow> Inr (s\<lparr>task_list := set_status (task_list s) cur tcb Running\<rparr>)))"

text \<open>\<open>exit_current_task\<close> of \<open>src/syslib/syscall.rs\<close>, which works on the scheduler only.\<close>

definition exit_current_task :: "scheduler \<Rightarrow> scheduler res" where
  "exit_current_task s = rbind (get_current_task_id s) (\<lambda>cur.
     rbind (index (task_list s) cur) (\<lambda>slot. case slot of
         None \<Rightarrow> Inr s
       | Some tcb \<Rightarrow> Inr (s\<lparr>task_list := set_status (task_list s) cur tcb Terminated,
                            zombie_queue := zombie_queue s @ [cur]\<rparr>)))"

section \<open>Invariant\<close>

definition status_of :: "task_control_block option list \<Rightarrow> nat \<Rightarrow> task_status option" where
  "status_of ts i = (if i < length ts then map_option tcb_status (ts ! i) else None)"

text \<open>
  Queues against states: the ready queue holds exactly the ready tasks, the zombie queue exactly
  the terminated ones, each once; task 0 is never blocked and never exits.
\<close>

definition queues_ok :: "nat list \<Rightarrow> nat list \<Rightarrow> (nat \<Rightarrow> task_status option) \<Rightarrow> bool" where
  "queues_ok rq zq f \<longleftrightarrow> distinct rq \<and> (\<forall>i. i \<in> set rq \<longleftrightarrow> f i = Some Ready)
     \<and> distinct zq \<and> (\<forall>i. i \<in> set zq \<longleftrightarrow> f i = Some Terminated) \<and> (f 0 = Some Ready \<or> f 0 = Some Running)"

text \<open>At most one task runs: the current one, unless it has just exited.\<close>

definition current_ok :: "nat option \<Rightarrow> (nat \<Rightarrow> task_status option) \<Rightarrow> bool" where
  "current_ok cur f \<longleftrightarrow> (\<forall>i. f i = Some Running \<longrightarrow> cur = Some i)
     \<and> (\<forall>i. cur = Some i \<longrightarrow> f i = Some Running \<or> f i = Some Terminated)"

definition stack_of :: "task_control_block \<Rightarrow> phys_page_num \<times> usize" where
  "stack_of tcb = (pa_floor (PhysAddr (virt_to_phys (tcb_stack_base tcb))), tcb_page_count tcb)"

definition tcb_ok :: "nat \<Rightarrow> task_control_block \<Rightarrow> bool" where
  "tcb_ok i tcb \<longleftrightarrow> tcb_task_id tcb = i \<and> tcb_page_count tcb \<noteq> 0
     \<and> tcb_stack_base tcb = phys_to_virt (pa_val (pa_from_ppn (fst (stack_of tcb))))"

definition tasks_ok :: "task_control_block option list \<Rightarrow> bool" where
  "tasks_ok ts \<longleftrightarrow> (\<forall>i tcb. i < length ts \<longrightarrow> ts ! i = Some tcb \<longrightarrow> tcb_ok i tcb)"

definition sleepers_ok :: "sleep_entry list \<Rightarrow> nat \<Rightarrow> bool" where
  "sleepers_ok es n \<longleftrightarrow> sorted es \<and> (\<forall>e \<in> set es. sleep_task e < n)"

definition sched_inv :: "scheduler \<Rightarrow> bool" where
  "sched_inv s \<longleftrightarrow> queues_ok (ready_queue s) (zombie_queue s) (status_of (task_list s))
     \<and> tasks_ok (task_list s) \<and> sleepers_ok (blocked_queue s) (length (task_list s))"

text \<open>The stacks of the tasks, as allocations of the buddy allocator.\<close>

definition stacks :: "task_control_block option list \<Rightarrow> (phys_page_num \<times> usize) list" where
  "stacks ts = concat (map (\<lambda>t. case t of None \<Rightarrow> [] | Some tcb \<Rightarrow> [stack_of tcb]) ts)"

definition stacks_owned :: "nat set \<Rightarrow> (phys_page_num \<times> usize) list \<Rightarrow> sched_state \<Rightarrow> bool" where
  "stacks_owned F0 others st \<longleftrightarrow>
     (\<exists>F. has_free (snd st) F \<and> frames.partition F0 F (stacks (task_list (fst st)) @ others))"

text \<open>
  Between two operations the invariant is \<open>sched_ok\<close>. \<open>F0\<close> are the pages the allocator manages, \<open>others\<close>
  its allocations outside the scheduler.
\<close>

definition sched_ok :: "nat set \<Rightarrow> (phys_page_num \<times> usize) list \<Rightarrow> sched_state \<Rightarrow> bool" where
  "sched_ok F0 others st \<longleftrightarrow> sched_inv (fst st) \<and> current_ok (current_task_id (fst st)) (status_of (task_list (fst st)))
     \<and> stacks_owned F0 others st"

section \<open>The choice of the next task\<close>

lemma pop_next_simps:
  "pop_next [] = (0, [])" "pop_next [x] = (x, [])" "x \<noteq> 0 \<Longrightarrow> pop_next (x # xs) = (x, xs)"
  "pop_next (0 # y # ys) = (y, ys @ [0])"
  by (simp_all add: pop_next_def split: list.splits)

lemma pop_next_cases:
  obtains (empty) "q = []" "pop_next q = (0, [])" | (idle) "q = [0]" "pop_next q = (0, [])"
  | (task) x xs where "q = x # xs" "x \<noteq> 0" "pop_next q = (x, xs)"
  | (skip) y ys where "q = 0 # y # ys" "pop_next q = (y, ys @ [0])"
proof (cases q)
  case (Cons x xs)
  then show thesis using idle task skip pop_next_simps by (cases "x = 0"; cases xs) simp_all
qed (simp add: empty pop_next_simps)

lemma pop_next_ok:
  assumes "distinct q" and "0 \<in> set q" and "pop_next q = (n, q')"
  shows "n \<in> set q" "distinct q'" "set q' = set q - {n}" "n = 0 \<longleftrightarrow> set q = {0}"
proof -
  have "n \<in> set q \<and> distinct q' \<and> set q' = set q - {n} \<and> (n = 0 \<longleftrightarrow> set q = {0})"
  proof (cases q rule: pop_next_cases)
    case (skip y ys)
    then have "n = y" "q' = ys @ [0]" "y \<noteq> 0" using assms by auto
    with skip assms(1) show ?thesis by auto
  qed (use assms in auto)
  then show "n \<in> set q" "distinct q'" "set q' = set q - {n}" "n = 0 \<longleftrightarrow> set q = {0}" by simp_all
qed

text \<open>A ready task moves towards the front at every choice until it is chosen.\<close>

lemma pop_next_progress:
  assumes "pop_next q = (n, q')" and "t \<noteq> 0" and "k < length q" and "q ! k = t" and "n \<noteq> t"
  shows "\<exists>j < k. j < length q' \<and> q' ! j = t"
proof (cases q rule: pop_next_cases)
  case (task x xs)
  then obtain j where "k = Suc j" using assms by (cases k) auto
  with task assms show ?thesis by auto
next
  case (skip y ys)
  have "k \<noteq> 0" using skip(1) assms(2,4) by (intro notI) simp
  moreover have "k \<noteq> 1" using skip assms(1,4,5) by (intro notI) simp
  ultimately obtain j where "k = Suc (Suc j)" by (metis One_nat_def not0_implies_Suc)
  with skip assms show ?thesis by (intro exI [of _ j]) (auto simp: nth_append)
qed (use assms in auto)

section \<open>Updates of the task list\<close>

lemma length_set_status [simp]: "length (set_status ts i tcb st) = length ts"
  by (simp add: set_status_def)

lemma status_of_update:
  "i < length ts \<Longrightarrow> status_of (ts[i := t]) = (status_of ts)(i := map_option tcb_status t)"
  by (auto simp: status_of_def fun_eq_iff)

lemma status_of_set_status [simp]: "i < length ts \<Longrightarrow> status_of (set_status ts i tcb st) = (status_of ts)(i := Some st)"
  by (simp add: set_status_def status_of_update)

lemma status_of_append: "status_of (ts @ [t]) = (status_of ts)(length ts := map_option tcb_status t)"
  by (auto simp: status_of_def fun_eq_iff nth_append)

lemma status_of_Some: "status_of ts i = Some st \<longleftrightarrow> i < length ts \<and> (\<exists>tcb. ts ! i = Some tcb \<and> tcb_status tcb = st)"
  by (auto simp: status_of_def)

lemma mset_stacks_update:
  assumes "i < length ts"
  shows "mset (stacks (ts[i := t])) + mset (stacks [ts ! i]) = mset (stacks ts) + mset (stacks [t])"
proof -
  have "ts[i := t] = take i ts @ t # drop (Suc i) ts" "ts = take i ts @ ts ! i # drop (Suc i) ts"
    using assms by (simp_all add: upd_conv_take_nth_drop id_take_nth_drop)
  moreover have "mset (stacks (xs @ y # ys)) = mset (stacks xs) + mset (stacks [y]) + mset (stacks ys)" for xs y ys
    by (simp add: stacks_def)
  ultimately have "mset (stacks (ts[i := t])) = mset (stacks (take i ts)) + mset (stacks [t]) + mset (stacks (drop (Suc i) ts))"
    "mset (stacks ts) = mset (stacks (take i ts)) + mset (stacks [ts ! i]) + mset (stacks (drop (Suc i) ts))" by metis+
  then show ?thesis by (simp add: ac_simps)
qed

lemma stacks_append: "stacks (ts @ us) = stacks ts @ stacks us"
  by (simp add: stacks_def)

lemma stacks_single: "stacks [None] = []" "stacks [Some tcb] = [stack_of tcb]"
  by (simp_all add: stacks_def)

lemma tcb_ok_update [simp]:
  "tcb_ok i (tcb\<lparr>tcb_status := st\<rparr>) = tcb_ok i tcb" "tcb_ok i (tcb\<lparr>tcb_status := st, tcb_context := c\<rparr>) = tcb_ok i tcb"
  "tcb_ok i (tcb\<lparr>tcb_context := c\<rparr>) = tcb_ok i tcb"
  by (simp_all add: tcb_ok_def stack_of_def)

lemma stack_of_update [simp]:
  "stack_of (tcb\<lparr>tcb_status := st\<rparr>) = stack_of tcb" "stack_of (tcb\<lparr>tcb_status := st, tcb_context := c\<rparr>) = stack_of tcb"
  "stack_of (tcb\<lparr>tcb_context := c\<rparr>) = stack_of tcb"
  by (simp_all add: stack_of_def)

lemma tasks_ok_update: "tasks_ok ts \<Longrightarrow> (\<And>tcb. t = Some tcb \<Longrightarrow> tcb_ok i tcb) \<Longrightarrow> tasks_ok (ts[i := t])"
  by (cases "i < length ts") (auto simp: tasks_ok_def nth_list_update split: if_splits)

lemma tasks_okD: "tasks_ok ts \<Longrightarrow> i < length ts \<Longrightarrow> ts ! i = Some tcb \<Longrightarrow> tcb_ok i tcb"
  by (simp add: tasks_ok_def)

text \<open>Updates that keep the stack of a task, as all do but creation and removal.\<close>

lemma same_stack_update:
  assumes "i < length ts" and "ts ! i = Some tcb" and "stack_of tcb' = stack_of tcb"
  shows "mset (stacks (ts[i := Some tcb'])) = mset (stacks ts)"
  using mset_stacks_update [OF assms(1), of "Some tcb'"] assms(2,3) by (simp add: stacks_single)

context page_allocator
begin

lemma partition_mset: "partition F0 F live \<Longrightarrow> mset live = mset live' \<Longrightarrow> partition F0 F live'"
proof (induction live' arbitrary: live F)
  case (Cons x live')
  obtain p n where x: "x = (p, n)" by (cases x)
  have mem: "(p, n) \<in> set live" using Cons.prems(2) x by (metis list.set_intros(1) set_mset_mset)
  from partition_remove [OF Cons.prems(1) mem]
  have r: "owned p n" "run p n \<inter> F = {}" "partition F0 (F \<union> run p n) (remove1 (p, n) live)" by simp_all
  have "mset (remove1 (p, n) live) = mset live'" using Cons.prems(2) x by simp
  from Cons.IH [OF r(3) this] have "partition F0 (F \<union> run p n) live'" .
  moreover have "run p n \<subseteq> F0" using Cons.prems(1) mem by (auto simp: partition_def)
  ultimately show ?case using r(1,2) x by (simp add: partition_Cons)
qed simp

end

lemma stacks_owned_cong:
  assumes "stacks_owned F0 others (s, b)" and "mset (stacks (task_list s')) = mset (stacks (task_list s))"
  shows "stacks_owned F0 others (s', b)"
proof -
  from assms(1) obtain F where "has_free b F" "frames.partition F0 F (stacks (task_list s) @ others)"
    by (auto simp: stacks_owned_def)
  then show ?thesis using assms(2) frames.partition_mset [of F0 F "stacks (task_list s) @ others" "stacks (task_list s') @ others"]
    by (auto simp: stacks_owned_def)
qed

text \<open>One task changes its state and keeps its stack.\<close>

definition retask :: "scheduler \<Rightarrow> nat \<Rightarrow> task_control_block \<Rightarrow> bool" where
  "retask s i tcb' \<longleftrightarrow> i < length (task_list s) \<and> (\<exists>tcb. task_list s ! i = Some tcb \<and> stack_of tcb' = stack_of tcb) \<and> tcb_ok i tcb'"

lemma retask_ok:
  assumes "sched_inv s" and "stacks_owned F0 others (s, b)" and "retask s i tcb'"
    and "task_list s' = (task_list s)[i := Some tcb']" and "sleepers_ok (blocked_queue s') (length (task_list s))"
    and "queues_ok (ready_queue s') (zombie_queue s') ((status_of (task_list s))(i := Some (tcb_status tcb')))"
  shows "sched_inv s'" and "stacks_owned F0 others (s', b)"
    and "status_of (task_list s') = (status_of (task_list s))(i := Some (tcb_status tcb'))"
proof -
  obtain tcb where i: "i < length (task_list s)" "task_list s ! i = Some tcb" "stack_of tcb' = stack_of tcb" "tcb_ok i tcb'"
    using assms(3) by (auto simp: retask_def)
  show st: "status_of (task_list s') = (status_of (task_list s))(i := Some (tcb_status tcb'))"
    using assms(4) i(1) by (simp add: status_of_update)
  have "tasks_ok (task_list s')" unfolding assms(4) using assms(1) i(4) by (intro tasks_ok_update) (auto simp: sched_inv_def)
  then show "sched_inv s'" using assms(4-6) st by (simp add: sched_inv_def)
  show "stacks_owned F0 others (s', b)"
    by (rule stacks_owned_cong [OF assms(2)]) (simp add: assms(4) same_stack_update [OF i(1-3)])
qed

lemma retask_status:
  assumes "sched_inv s" and "status_of (task_list s) i = Some st"
  obtains tcb where "i < length (task_list s)" "task_list s ! i = Some tcb" "tcb_status tcb = st" "tcb_ok i tcb"
    "\<And>st'. retask s i (tcb\<lparr>tcb_status := st'\<rparr>)" "\<And>st' c. retask s i (tcb\<lparr>tcb_status := st', tcb_context := c\<rparr>)"
proof -
  from assms(2) obtain tcb where t: "i < length (task_list s)" "task_list s ! i = Some tcb" "tcb_status tcb = st"
    by (auto simp: status_of_Some)
  moreover have "tcb_ok i tcb" using assms(1) t by (intro tasks_okD) (simp_all add: sched_inv_def)
  ultimately show thesis by (intro that) (auto simp: retask_def)
qed

section \<open>Correctness of the operations\<close>

lemma run_next_ok:
  assumes inv: "sched_inv s" and own: "stacks_owned F0 others (s, b)" and nr: "\<forall>i. status_of (task_list s) i \<noteq> Some Running"
  obtains n s' where "run_next s = Inr (n, s')" "sched_ok F0 others (s', b)" "current_task_id s' = Some n"
    "pop_next (ready_queue s) = (n, ready_queue s')" "n \<in> set (ready_queue s)" "zombie_queue s' = zombie_queue s"
    "blocked_queue s' = blocked_queue s" "status_of (task_list s') = (status_of (task_list s))(n := Some Running)"
proof -
  let ?f = "status_of (task_list s)"
  have q: "queues_ok (ready_queue s) (zombie_queue s) ?f" using inv by (simp add: sched_inv_def)
  then have z: "?f 0 = Some Ready" "0 \<in> set (ready_queue s)" using nr by (auto simp: queues_ok_def)
  obtain n q' where pn: "pop_next (ready_queue s) = (n, q')" by (cases "pop_next (ready_queue s)")
  have d: "distinct (ready_queue s)" using q by (simp add: queues_ok_def)
  note po = pop_next_ok [OF d z(2) pn]
  have fn: "?f n = Some Ready" using q po(1) by (simp add: queues_ok_def)
  from retask_status [OF inv fn] obtain tcb where t: "n < length (task_list s)" "task_list s ! n = Some tcb"
    "retask s n (tcb\<lparr>tcb_status := Running\<rparr>)" by metis
  define s' where "s' = s\<lparr>ready_queue := q', task_list := set_status (task_list s) n tcb Running, current_task_id := Some n\<rparr>"
  have r: "run_next s = Inr (n, s')" using pn t(1,2) by (simp add: run_next_def s'_def index_def)
  have tl: "task_list s' = (task_list s)[n := Some (tcb\<lparr>tcb_status := Running\<rparr>)]" by (simp add: s'_def set_status_def)
  have qk: "queues_ok (ready_queue s') (zombie_queue s') (?f(n := Some (tcb_status (tcb\<lparr>tcb_status := Running\<rparr>))))"
    using q po fn z by (auto simp: queues_ok_def s'_def)
  have sl: "sleepers_ok (blocked_queue s') (length (task_list s))" using inv by (simp add: s'_def sched_inv_def)
  note ro = retask_ok [OF inv own t(3) tl sl qk]
  have "current_ok (current_task_id s') (status_of (task_list s'))" using ro(3) nr by (auto simp: current_ok_def s'_def)
  then have "sched_ok F0 others (s', b)" using ro by (simp add: sched_ok_def)
  with r pn po(1) ro(3) show thesis by (intro that [of n s']) (simp_all add: s'_def)
qed

lemma with_running_eq:
  "current_task_id s = Some cur \<Longrightarrow> cur < length (task_list s) \<Longrightarrow> task_list s ! cur = Some tcb \<Longrightarrow> tcb_status tcb = Running \<Longrightarrow>
   with_running s k = k cur tcb"
  by (simp add: with_running_def index_def)

lemma current_unique:
  assumes "current_ok (Some cur) f"
  shows "\<forall>i. f i = Some Running \<longrightarrow> i = cur"
  using assms by (auto simp: current_ok_def)

lemma block_then_run:
  assumes "sched_ok F0 others (s, b)" and cur: "current_task_id s = Some cur" "status_of (task_list s) cur = Some Running" "cur \<noteq> 0"
    and "retask s cur (tcb\<lparr>tcb_status := Blocked\<rparr>)" and "sleepers_ok es (length (task_list s))"
  obtains n s' where
    "run_next (s\<lparr>task_list := set_status (task_list s) cur tcb Blocked, blocked_queue := es\<rparr>) = Inr (n, s')" "sched_ok F0 others (s', b)"
    "current_task_id s' = Some n" "n \<noteq> cur" "pop_next (ready_queue s) = (n, ready_queue s')" "blocked_queue s' = es"
    "zombie_queue s' = zombie_queue s"
    "status_of (task_list s') = (status_of (task_list s))(cur := Some Blocked, n := Some Running)"
proof -
  let ?s1 = "s\<lparr>task_list := set_status (task_list s) cur tcb Blocked, blocked_queue := es\<rparr>"
  let ?f = "status_of (task_list s)"
  have inv: "sched_inv s" "stacks_owned F0 others (s, b)" "current_ok (Some cur) ?f" using assms(1) cur(1) by (simp_all add: sched_ok_def)
  have q: "queues_ok (ready_queue s) (zombie_queue s) ?f" using inv(1) by (simp add: sched_inv_def)
  have "queues_ok (ready_queue ?s1) (zombie_queue ?s1) (?f(cur := Some (tcb_status (tcb\<lparr>tcb_status := Blocked\<rparr>))))"
    using q cur by (auto simp: queues_ok_def)
  from retask_ok [OF inv(1,2) assms(5) _ _ this] assms(6)
  have r: "sched_inv ?s1" "stacks_owned F0 others (?s1, b)" "status_of (task_list ?s1) = ?f(cur := Some Blocked)"
    by (simp_all add: set_status_def)
  have "\<forall>i. status_of (task_list ?s1) i \<noteq> Some Running" unfolding r(3) using current_unique [OF inv(3)] by auto
  from run_next_ok [OF r(1,2) this] obtain n s' where n: "run_next ?s1 = Inr (n, s')" "sched_ok F0 others (s', b)"
    "current_task_id s' = Some n" "pop_next (ready_queue s) = (n, ready_queue s')" "n \<in> set (ready_queue s)"
    "zombie_queue s' = zombie_queue s" "blocked_queue s' = es" "status_of (task_list s') = (status_of (task_list ?s1))(n := Some Running)"
    by auto
  moreover have "n \<noteq> cur" using n(5) q cur(2) by (auto simp: queues_ok_def)
  ultimately show thesis using r(3) by (intro that [of n s']) simp_all
qed

lemma sleep_ok:
  assumes "sched_ok F0 others (s, b)" and cur: "current_task_id s = Some cur" "status_of (task_list s) cur = Some Running" "cur \<noteq> 0"
  obtains n s' where "set_current_task_sleep s w = Inr (n, s')" "sched_ok F0 others (s', b)"
    "current_task_id s' = Some n" "n \<noteq> cur" "pop_next (ready_queue s) = (n, ready_queue s')"
    "blocked_queue s' = insort (SleepEntry w cur) (blocked_queue s)" "zombie_queue s' = zombie_queue s"
    "status_of (task_list s') = (status_of (task_list s))(cur := Some Blocked, n := Some Running)"
proof -
  have inv: "sched_inv s" using assms(1) by (simp add: sched_ok_def)
  from retask_status [OF inv cur(2)] obtain tcb where t: "cur < length (task_list s)" "task_list s ! cur = Some tcb"
    "tcb_status tcb = Running" "retask s cur (tcb\<lparr>tcb_status := Blocked\<rparr>)" by metis
  have sl: "sleepers_ok (insort (SleepEntry w cur) (blocked_queue s)) (length (task_list s))"
    using inv t(1) by (simp add: sched_inv_def sleepers_ok_def sorted_insort set_insort_key)
  have eq: "set_current_task_sleep s w = run_next (s\<lparr>task_list := set_status (task_list s) cur tcb Blocked,
      blocked_queue := insort (SleepEntry w cur) (blocked_queue s)\<rparr>)"
    unfolding set_current_task_sleep_def with_running_eq [OF cur(1) t(1-3)] ..
  show thesis by (rule block_then_run [OF assms t(4) sl], rule that, unfold eq) assumption+
qed

lemma block_ok:
  assumes "sched_ok F0 others (s, b)" and cur: "current_task_id s = Some cur" "status_of (task_list s) cur = Some Running" "cur \<noteq> 0"
  obtains n s' where "block_current_task s = Inr (n, s')" "sched_ok F0 others (s', b)"
    "current_task_id s' = Some n" "n \<noteq> cur" "pop_next (ready_queue s) = (n, ready_queue s')"
    "blocked_queue s' = blocked_queue s" "zombie_queue s' = zombie_queue s"
    "status_of (task_list s') = (status_of (task_list s))(cur := Some Blocked, n := Some Running)"
proof -
  have inv: "sched_inv s" using assms(1) by (simp add: sched_ok_def)
  from retask_status [OF inv cur(2)] obtain tcb where t: "cur < length (task_list s)" "task_list s ! cur = Some tcb"
    "tcb_status tcb = Running" "retask s cur (tcb\<lparr>tcb_status := Blocked\<rparr>)" by metis
  have sl: "sleepers_ok (blocked_queue s) (length (task_list s))" using inv by (simp add: sched_inv_def)
  have eq: "block_current_task s = run_next (s\<lparr>task_list := set_status (task_list s) cur tcb Blocked, blocked_queue := blocked_queue s\<rparr>)"
    unfolding block_current_task_def with_running_eq [OF cur(1) t(1-3)] by simp
  show thesis by (rule block_then_run [OF assms t(4) sl], rule that, unfold eq) assumption+
qed

text \<open>Waking a task: effective exactly when it is blocked.\<close>

lemma wake_ok:
  assumes ok: "sched_ok F0 others (s, b)" and "status_of (task_list s) i = Some Blocked" and "retask s i tcb'" and "tcb_status tcb' = Ready"
    and "s' = s\<lparr>task_list := (task_list s)[i := Some tcb'], ready_queue := ready_queue s @ [i]\<rparr>"
  shows "sched_ok F0 others (s', b)" "status_of (task_list s') = (status_of (task_list s))(i := Some Ready)"
proof -
  let ?f = "status_of (task_list s)"
  have inv: "sched_inv s" "stacks_owned F0 others (s, b)" "current_ok (current_task_id s) ?f" using ok by (simp_all add: sched_ok_def)
  have "queues_ok (ready_queue s') (zombie_queue s') (?f(i := Some (tcb_status tcb')))"
    using inv(1) assms(2,4,5) by (auto simp: queues_ok_def sched_inv_def)
  from retask_ok [OF inv(1,2) assms(3) _ _ this] inv(1)
  have r: "sched_inv s'" "stacks_owned F0 others (s', b)" "status_of (task_list s') = ?f(i := Some Ready)"
    using assms(4,5) by (simp_all add: sched_inv_def)
  then show "status_of (task_list s') = ?f(i := Some Ready)" by simp
  have "current_ok (current_task_id s') (status_of (task_list s'))"
    unfolding r(3) using inv(3) assms(2,5) by (auto simp: current_ok_def)
  with r show "sched_ok F0 others (s', b)" by (simp add: sched_ok_def)
qed

text \<open>The effect of waking the tasks \<open>W\<close>, all of them blocked before.\<close>

definition wakes :: "scheduler \<Rightarrow> scheduler \<Rightarrow> nat list \<Rightarrow> bool" where
  "wakes s s' W \<longleftrightarrow> (\<forall>i \<in> set W. status_of (task_list s) i = Some Blocked) \<and> distinct W
     \<and> ready_queue s' = ready_queue s @ W
     \<and> status_of (task_list s') = (\<lambda>i. if i \<in> set W then Some Ready else status_of (task_list s) i)
     \<and> current_task_id s' = current_task_id s \<and> zombie_queue s' = zombie_queue s \<and> length (task_list s') = length (task_list s)"

lemma wakes_Nil [simp]: "wakes s s []"
  by (simp add: wakes_def)

lemma wakes_trans: "wakes s s1 V \<Longrightarrow> wakes s1 s2 W \<Longrightarrow> wakes s s2 (V @ W)"
  unfolding wakes_def by (auto simp: fun_eq_iff split: if_splits)

lemma set_task_ready_ok:
  assumes ok: "sched_ok F0 others (s, b)" and "i < length (task_list s)"
  obtains s' where "set_task_ready s i = Inr s'" "sched_ok F0 others (s', b)" "blocked_queue s' = blocked_queue s"
    "wakes s s' (if status_of (task_list s) i = Some Blocked then [i] else [])"
proof (cases "status_of (task_list s) i = Some Blocked")
  case True
  have inv: "sched_inv s" using ok by (simp add: sched_ok_def)
  from retask_status [OF inv True] obtain tcb where t: "i < length (task_list s)" "task_list s ! i = Some tcb"
    "tcb_status tcb = Blocked" "retask s i (tcb\<lparr>tcb_status := Ready\<rparr>)" by metis
  let ?s' = "s\<lparr>task_list := (task_list s)[i := Some (tcb\<lparr>tcb_status := Ready\<rparr>)], ready_queue := ready_queue s @ [i]\<rparr>"
  have r: "set_task_ready s i = Inr ?s'" using t by (simp add: set_task_ready_def index_def set_status_def)
  have k: "sched_ok F0 others (?s', b)" "status_of (task_list ?s') = (status_of (task_list s))(i := Some Ready)"
    by (rule wake_ok [OF ok True t(4)]; simp)+
  have "wakes s ?s' [i]" unfolding wakes_def k(2) using True by (auto simp: fun_eq_iff)
  with r k(1) True show thesis by (intro that [of ?s']) simp_all
next
  case False
  then have "set_task_ready s i = Inr s"
    using assms(2) by (auto simp: set_task_ready_def index_def status_of_def split: option.splits)
  with ok False show thesis by (intro that [of s]) simp_all
qed

lemma wake_up_ok:
  assumes ok: "sched_ok F0 others (s, b)" and "i < length (task_list s)"
  obtains s' where "wake_up_task_with_result s i r = Inr s'" "sched_ok F0 others (s', b)" "blocked_queue s' = blocked_queue s"
    "wakes s s' (if status_of (task_list s) i = Some Blocked then [i] else [])"
    "status_of (task_list s) i = Some Blocked \<Longrightarrow> \<exists>tcb tcb'. task_list s ! i = Some tcb \<and> task_list s' = (task_list s)[i := Some tcb']
       \<and> tcb_context tcb' = (tcb_context tcb)\<lparr>ctx_a0 := ucast r\<rparr>"
    "status_of (task_list s) i \<noteq> Some Blocked \<Longrightarrow> s' = s"
proof (cases "status_of (task_list s) i = Some Blocked")
  case True
  have inv: "sched_inv s" using ok by (simp add: sched_ok_def)
  from retask_status [OF inv True] obtain tcb where t: "i < length (task_list s)" "task_list s ! i = Some tcb"
    "tcb_status tcb = Blocked" "\<And>st c. retask s i (tcb\<lparr>tcb_status := st, tcb_context := c\<rparr>)" by metis
  let ?tcb = "tcb\<lparr>tcb_status := Ready, tcb_context := (tcb_context tcb)\<lparr>ctx_a0 := ucast r\<rparr>\<rparr>"
  let ?s' = "s\<lparr>task_list := (task_list s)[i := Some ?tcb], ready_queue := ready_queue s @ [i]\<rparr>"
  have e: "wake_up_task_with_result s i r = Inr ?s'" using t(1-3) by (simp add: wake_up_task_with_result_def index_def)
  have k: "sched_ok F0 others (?s', b)" "status_of (task_list ?s') = (status_of (task_list s))(i := Some Ready)"
    by (rule wake_ok [OF ok True t(4)]; simp)+
  have "wakes s ?s' [i]" unfolding wakes_def k(2) using True by (auto simp: fun_eq_iff)
  with e k(1) t(2) True show thesis by (intro that [of ?s']) auto
next
  case False
  then have "wake_up_task_with_result s i r = Inr s"
    using assms(2) by (auto simp: wake_up_task_with_result_def index_def status_of_def split: option.splits)
  with ok False show thesis by (intro that [of s]) simp_all
qed

lemma finish_sleep_loop_ok:
  assumes "sched_ok F0 others (s, b)" and "sleepers_ok es (length (task_list s))"
  shows "\<exists>s' W. finish_sleep_loop now es s = Inr s' \<and> sched_ok F0 others (s', b) \<and> wakes s s' W
    \<and> set W = {i. status_of (task_list s) i = Some Blocked \<and> (\<exists>e \<in> set es. sleep_task e = i \<and> wake_time e \<le> now)}
    \<and> blocked_queue s' = filter (\<lambda>e. now < wake_time e) es"
  using assms
proof (induction es arbitrary: s)
  case Nil
  then have "sched_ok F0 others (s\<lparr>blocked_queue := []\<rparr>, b)" by (simp add: sched_ok_def sched_inv_def stacks_owned_def sleepers_ok_def)
  moreover have "wakes s (s\<lparr>blocked_queue := []\<rparr>) []" by (simp add: wakes_def)
  ultimately show ?case by (intro exI [of _ "s\<lparr>blocked_queue := []\<rparr>"] exI [of _ "[]"]) simp
next
  case (Cons e es)
  have es: "sleepers_ok es (length (task_list s))" "sleep_task e < length (task_list s)" "\<forall>x \<in> set es. e \<le> x"
    using Cons.prems(2) by (simp_all add: sleepers_ok_def)
  show ?case
  proof (cases "now < wake_time e")
    case True
    have later: "\<forall>x \<in> set (e # es). now < wake_time x" using True es(3) by (auto simp: less_eq_sleep_entry_def)
    let ?s' = "s\<lparr>blocked_queue := e # es\<rparr>"
    have "sched_ok F0 others (?s', b)" using Cons.prems by (simp add: sched_ok_def sched_inv_def stacks_owned_def)
    moreover have "wakes s ?s' []" by (simp add: wakes_def)
    moreover have "filter (\<lambda>e. now < wake_time e) (e # es) = e # es" using later by (simp add: filter_id_conv)
    moreover have "finish_sleep_loop now (e # es) s = Inr ?s'" using True by simp
    ultimately show ?thesis using later by (intro exI [of _ ?s'] exI [of _ "[]"]) (auto simp: not_le)
  next
    case False
    let ?V = "if status_of (task_list s) (sleep_task e) = Some Blocked then [sleep_task e] else []"
    from set_task_ready_ok [OF Cons.prems(1) es(2)] obtain s1 where
      s1: "set_task_ready s (sleep_task e) = Inr s1" "sched_ok F0 others (s1, b)" "wakes s s1 ?V" by metis
    then have "sleepers_ok es (length (task_list s1))" using es(1) by (simp add: wakes_def)
    from Cons.IH [OF s1(2) this] obtain s2 W where s2: "finish_sleep_loop now es s1 = Inr s2" "sched_ok F0 others (s2, b)"
      "wakes s1 s2 W" "set W = {i. status_of (task_list s1) i = Some Blocked \<and> (\<exists>e \<in> set es. sleep_task e = i \<and> wake_time e \<le> now)}"
      "blocked_queue s2 = filter (\<lambda>e. now < wake_time e) es" by blast
    have st1: "status_of (task_list s1) = (\<lambda>i. if i \<in> set ?V then Some Ready else status_of (task_list s) i)"
      using s1(3) by (simp add: wakes_def)
    have "set (?V @ W) = {i. status_of (task_list s) i = Some Blocked \<and> (\<exists>x \<in> set (e # es). sleep_task x = i \<and> wake_time x \<le> now)}"
      unfolding set_append s2(4) st1 using False by (auto split: if_splits)
    then show ?thesis using False s1(1) s2 wakes_trans [OF s1(3) s2(3)] by (intro exI [of _ s2] exI [of _ "?V @ W"]) simp
  qed
qed

lemma exit_ok:
  assumes ok: "sched_ok F0 others (s, b)" and cur: "current_task_id s = Some cur" "status_of (task_list s) cur = Some Running" "cur \<noteq> 0"
  obtains s' where "exit_current_task s = Inr s'" "sched_ok F0 others (s', b)" "current_task_id s' = Some cur"
    "ready_queue s' = ready_queue s" "blocked_queue s' = blocked_queue s" "zombie_queue s' = zombie_queue s @ [cur]"
    "status_of (task_list s') = (status_of (task_list s))(cur := Some Terminated)"
proof -
  let ?f = "status_of (task_list s)"
  have inv: "sched_inv s" "stacks_owned F0 others (s, b)" "current_ok (Some cur) ?f" using ok cur(1) by (simp_all add: sched_ok_def)
  from retask_status [OF inv(1) cur(2)] obtain tcb where t: "cur < length (task_list s)" "task_list s ! cur = Some tcb"
    "retask s cur (tcb\<lparr>tcb_status := Terminated\<rparr>)" by metis
  let ?s' = "s\<lparr>task_list := set_status (task_list s) cur tcb Terminated, zombie_queue := zombie_queue s @ [cur]\<rparr>"
  have r: "exit_current_task s = Inr ?s'" using t(1,2) cur(1) by (simp add: exit_current_task_def get_current_task_id_def index_def)
  have "queues_ok (ready_queue ?s') (zombie_queue ?s') (?f(cur := Some (tcb_status (tcb\<lparr>tcb_status := Terminated\<rparr>))))"
    using inv(1) cur by (auto simp: queues_ok_def sched_inv_def)
  from retask_ok [OF inv(1,2) t(3) _ _ this] inv(1)
  have k: "sched_inv ?s'" "stacks_owned F0 others (?s', b)" "status_of (task_list ?s') = ?f(cur := Some Terminated)"
    by (simp_all add: set_status_def sched_inv_def)
  have "current_ok (current_task_id ?s') (status_of (task_list ?s'))"
    unfolding k(3) using inv(3) cur(1) by (auto simp: current_ok_def)
  then have "sched_ok F0 others (?s', b)" using k by (simp add: sched_ok_def)
  with r k(3) cur(1) show thesis by (intro that [of ?s']) simp_all
qed

lemma tcb_ok_stack: "tcb_ok i tcb \<Longrightarrow> ppn_from_pa (PhysAddr (virt_to_phys (tcb_stack_base tcb))) = Inr (fst (stack_of tcb))"
proof -
  assume "tcb_ok i tcb"
  then have "virt_to_phys (tcb_stack_base tcb) = pa_val (pa_from_ppn (fst (stack_of tcb)))" by (simp add: tcb_ok_def)
  moreover have "pa_page_offset (pa_from_ppn p) = 0" for p
    unfolding pa_page_offset_def page_size_mask pa_from_ppn_def phys_addr.sel shl_def PAGE_SIZE_BITS_def
    by (rule bit_word_eqI) (simp add: bit_simps)
  ultimately have "pa_page_offset (PhysAddr (virt_to_phys (tcb_stack_base tcb))) = 0" by (metis phys_addr.collapse)
  then show ?thesis unfolding ppn_from_pa_def by (simp only: stack_of_def fst_conv require_simps simp_thms)
qed

lemma reap_ok:
  assumes ok: "sched_ok F0 others (s, b)" and z: "zombie_queue s = zs @ [z]" "current_task_id s \<noteq> Some z"
  obtains s' b' where "reap z (s\<lparr>zombie_queue := zs\<rparr>, b) = Inr (s', b')" "sched_ok F0 others (s', b')" "ready_queue s' = ready_queue s"
    "current_task_id s' = current_task_id s" "blocked_queue s' = blocked_queue s" "zombie_queue s' = zs"
    "length (task_list s') = length (task_list s)" "status_of (task_list s') = (status_of (task_list s))(z := None)"
proof -
  let ?f = "status_of (task_list s)"
  have inv: "sched_inv s" "current_ok (current_task_id s) ?f" using ok by (simp_all add: sched_ok_def)
  then have q: "queues_ok (ready_queue s) (zs @ [z]) ?f" using z(1) by (simp add: sched_inv_def)
  then have fz: "?f z = Some Terminated" unfolding queues_ok_def by (metis in_set_conv_decomp)
  from retask_status [OF inv(1) fz] obtain tcb where t: "z < length (task_list s)" "task_list s ! z = Some tcb" "tcb_ok z tcb"
    "tcb_status tcb = Terminated" by metis
  obtain F where F: "has_free b F" "frames.partition F0 F (stacks (task_list s) @ others)"
    using ok by (auto simp: sched_ok_def stacks_owned_def)
  obtain p n where pn: "stack_of tcb = (p, n)" by (cases "stack_of tcb")
  let ?ts = "(task_list s)[z := None]"
  have ms: "mset (stacks (task_list s)) = add_mset (p, n) (mset (stacks ?ts))"
    using mset_stacks_update [OF t(1), of None] t(2) pn by (simp add: stacks_single)
  then have mem: "(p, n) \<in> set (stacks (task_list s) @ others)" by (metis Un_iff set_append set_mset_add_mset_insert insertI1 set_mset_mset)
  from frames.dealloc_step [OF F mem] obtain b' where b': "buddy_dealloc b p n = Inr b'" "has_free b' (F \<union> buddy_run p n)"
    "frames.partition F0 (F \<union> buddy_run p n) (remove1 (p, n) (stacks (task_list s) @ others))" by blast
  have "mset (remove1 (p, n) (stacks (task_list s) @ others)) = mset (stacks ?ts @ others)" using ms by simp
  from frames.partition_mset [OF b'(3) this] have part: "frames.partition F0 (F \<union> buddy_run p n) (stacks ?ts @ others)" .
  let ?s' = "s\<lparr>zombie_queue := zs, task_list := ?ts\<rparr>"
  have nz: "z \<notin> set (ready_queue s)" using q fz by (simp add: queues_ok_def)
  then have flt: "filter (\<lambda>tid. tid \<noteq> z) (ready_queue s) = ready_queue s" by (intro filter_True) auto
  have n0: "n \<noteq> 0" "tcb_page_count tcb = n" using t(3) pn by (auto simp: tcb_ok_def stack_of_def)
  have r: "reap z (s\<lparr>zombie_queue := zs\<rparr>, b) = Inr (?s', b')"
    using t(1,2) flt b'(1) n0 tcb_ok_stack [OF t(3)] pn by (simp add: reap_def Let_def)
  have st: "status_of ?ts = ?f(z := None)" using t(1) by (simp add: status_of_update)
  have "z \<noteq> 0" using q fz unfolding queues_ok_def by (intro notI) simp
  then have "queues_ok (ready_queue s) zs (?f(z := None))" using q fz nz by (auto simp: queues_ok_def)
  moreover have "tasks_ok ?ts" using inv(1) by (intro tasks_ok_update) (auto simp: sched_inv_def)
  ultimately have "sched_inv ?s'" using inv(1) st by (simp add: sched_inv_def)
  moreover have "current_ok (current_task_id s) (?f(z := None))" using inv(2) z(2) by (auto simp: current_ok_def)
  ultimately have "sched_ok F0 others (?s', b')" using st b'(2) part by (auto simp: sched_ok_def stacks_owned_def)
  with r st show thesis by (intro that [of ?s' b']) simp_all
qed

lemma reap_loop_ok:
  assumes "sched_ok F0 others (s, b)"
  shows "\<exists>s' b' R. reap_loop n (s, b) = Inr (s', b') \<and> sched_ok F0 others (s', b') \<and> ready_queue s' = ready_queue s
    \<and> current_task_id s' = current_task_id s \<and> blocked_queue s' = blocked_queue s \<and> length (task_list s') = length (task_list s)
    \<and> zombie_queue s = zombie_queue s' @ R \<and> status_of (task_list s') = (\<lambda>i. if i \<in> set R then None else status_of (task_list s) i)
    \<and> (length (zombie_queue s) \<le> n \<longrightarrow> zombie_queue s' = [] \<or> current_task_id s = Some (last (zombie_queue s')))"
  using assms
proof (induction n arbitrary: s b)
  case 0
  then show ?case by (intro exI [of _ s] exI [of _ b] exI [of _ "[]"]) simp
next
  case (Suc n)
  show ?case
  proof (cases "zombie_queue s" rule: rev_cases)
    case Nil
    with Suc.IH [OF Suc.prems] show ?thesis by simp
  next
    case (snoc zs z)
    show ?thesis
    proof (cases "current_task_id s = Some z")
      case True
      then have "reap_loop (Suc n) (s, b) = Inr (s, b)" using snoc by simp
      then show ?thesis using Suc.prems True snoc by (intro exI [of _ s] exI [of _ b] exI [of _ "[]"]) simp
    next
      case False
      from reap_ok [OF Suc.prems snoc False] obtain s1 b1 where s1: "reap z (s\<lparr>zombie_queue := zs\<rparr>, b) = Inr (s1, b1)"
        "sched_ok F0 others (s1, b1)" "ready_queue s1 = ready_queue s" "current_task_id s1 = current_task_id s"
        "blocked_queue s1 = blocked_queue s" "zombie_queue s1 = zs" "length (task_list s1) = length (task_list s)"
        "status_of (task_list s1) = (status_of (task_list s))(z := None)" by metis
      from Suc.IH [OF s1(2)] obtain s2 b2 R where s2: "reap_loop n (s1, b1) = Inr (s2, b2)" "sched_ok F0 others (s2, b2)"
        "ready_queue s2 = ready_queue s" "current_task_id s2 = current_task_id s" "blocked_queue s2 = blocked_queue s"
        "length (task_list s2) = length (task_list s)" "zs = zombie_queue s2 @ R"
        "status_of (task_list s2) = (\<lambda>i. if i \<in> set R then None else status_of (task_list s1) i)"
        "length zs \<le> n \<longrightarrow> zombie_queue s2 = [] \<or> current_task_id s = Some (last (zombie_queue s2))"
        unfolding s1(3-7) by blast
      have "reap_loop (Suc n) (s, b) = Inr (s2, b2)" using snoc False s1(1) s2(1) by simp
      moreover have "status_of (task_list s2) = (\<lambda>i. if i \<in> set (R @ [z]) then None else status_of (task_list s) i)"
        unfolding s2(8) s1(8) by (auto simp: fun_eq_iff)
      ultimately show ?thesis using s2 snoc by (intro exI [of _ s2] exI [of _ b2] exI [of _ "R @ [z]"]) simp
    qed
  qed
qed

lemma requeue_ok:
  assumes ok: "sched_ok F0 others (s, b)"
  obtains s' where "requeue_current s = Inr s'" "sched_inv s'" "stacks_owned F0 others (s', b)"
    "\<forall>i. status_of (task_list s') i \<noteq> Some Running" "zombie_queue s' = zombie_queue s" "blocked_queue s' = blocked_queue s"
    "ready_queue s' = ready_queue s @ filter (\<lambda>i. status_of (task_list s) i = Some Running) (case current_task_id s of None \<Rightarrow> [] | Some c \<Rightarrow> [c])"
    "status_of (task_list s') = (\<lambda>i. if status_of (task_list s) i = Some Running then Some Ready else status_of (task_list s) i)"
proof -
  let ?f = "status_of (task_list s)"
  have inv: "sched_inv s" "stacks_owned F0 others (s, b)" "current_ok (current_task_id s) ?f" using ok by (simp_all add: sched_ok_def)
  show thesis
  proof (cases "\<exists>cur. current_task_id s = Some cur \<and> ?f cur = Some Running")
    case True
    then obtain cur where cur: "current_task_id s = Some cur" "?f cur = Some Running" by blast
    from retask_status [OF inv(1) cur(2)] obtain tcb where t: "cur < length (task_list s)" "task_list s ! cur = Some tcb"
      "tcb_status tcb = Running" "retask s cur (tcb\<lparr>tcb_status := Ready\<rparr>)" by metis
    let ?s' = "s\<lparr>task_list := set_status (task_list s) cur tcb Ready, ready_queue := ready_queue s @ [cur]\<rparr>"
    have r: "requeue_current s = Inr ?s'" using t(1-3) cur(1) by (simp add: requeue_current_def index_def)
    have u: "\<forall>i. ?f i = Some Running \<longrightarrow> i = cur" by (rule current_unique) (use inv(3) cur(1) in simp)
    have "queues_ok (ready_queue ?s') (zombie_queue ?s') (?f(cur := Some (tcb_status (tcb\<lparr>tcb_status := Ready\<rparr>))))"
    proof -
      have q: "queues_ok (ready_queue s) (zombie_queue s) ?f" using inv(1) by (simp add: sched_inv_def)
      then have "cur \<notin> set (ready_queue s)" "cur \<notin> set (zombie_queue s)" using cur(2) by (simp_all add: queues_ok_def)
      moreover have "?f 0 \<noteq> Some Terminated" using q unfolding queues_ok_def by (elim conjE disjE) simp_all
      ultimately show ?thesis using q by (simp add: queues_ok_def)
    qed
    from retask_ok [OF inv(1,2) t(4) _ _ this] inv(1)
    have k: "sched_inv ?s'" "stacks_owned F0 others (?s', b)" "status_of (task_list ?s') = ?f(cur := Some Ready)"
      by (simp_all add: set_status_def sched_inv_def)
    have st: "status_of (task_list ?s') = (\<lambda>i. if ?f i = Some Running then Some Ready else ?f i)"
    proof (rule ext)
      show "status_of (task_list ?s') i = (if ?f i = Some Running then Some Ready else ?f i)" for i
        unfolding k(3) using u [rule_format, of i] cur(2) by (cases "i = cur") auto
    qed
    show thesis
    proof (rule that [OF r k(1,2)])
      show "\<forall>i. status_of (task_list ?s') i \<noteq> Some Running" unfolding st by simp
      show "status_of (task_list ?s') = (\<lambda>i. if ?f i = Some Running then Some Ready else ?f i)" by (rule st)
      show "ready_queue ?s' = ready_queue s @ filter (\<lambda>i. ?f i = Some Running) (case current_task_id s of None \<Rightarrow> [] | Some c \<Rightarrow> [c])"
        using cur by simp
    qed simp_all
  next
    case False
    then have nr: "\<forall>i. ?f i \<noteq> Some Running" using inv(3) unfolding current_ok_def by blast
    have "requeue_current s = Inr s"
    proof (cases "current_task_id s")
      case (Some cur)
      then have "?f cur = Some Terminated" using inv(3) nr unfolding current_ok_def by blast
      then show ?thesis using Some by (auto simp: requeue_current_def index_def status_of_Some)
    qed (simp add: requeue_current_def)
    then show thesis using inv(1,2) nr by (intro that [of s]) (simp_all split: option.splits)
  qed
qed

lemma prepare_next_ok:
  assumes ok: "sched_ok F0 others (s, b)"
  obtains n s' b' where "prepare_next_task (s, b) = Inr (n, (s', b'))" "sched_ok F0 others (s', b')" "current_task_id s' = Some n"
    "status_of (task_list s') n = Some Running" "blocked_queue s' = blocked_queue s"
    "pop_next (ready_queue s @ filter (\<lambda>i. status_of (task_list s) i = Some Running) (case current_task_id s of None \<Rightarrow> [] | Some c \<Rightarrow> [c]))
       = (n, ready_queue s')"
    "zombie_queue s' = [] \<or> current_task_id s = Some (last (zombie_queue s'))"
    "length (task_list s') = length (task_list s)"
proof -
  from reap_loop_ok [OF ok, of "length (zombie_queue s)"] obtain s1 b1 R where
    s1: "reap_loop (length (zombie_queue s)) (s, b) = Inr (s1, b1)" "sched_ok F0 others (s1, b1)" "ready_queue s1 = ready_queue s"
    "current_task_id s1 = current_task_id s" "blocked_queue s1 = blocked_queue s" "length (task_list s1) = length (task_list s)"
    "zombie_queue s = zombie_queue s1 @ R" "status_of (task_list s1) = (\<lambda>i. if i \<in> set R then None else status_of (task_list s) i)"
    "length (zombie_queue s) \<le> length (zombie_queue s) \<longrightarrow> zombie_queue s1 = [] \<or> current_task_id s = Some (last (zombie_queue s1))"
    by blast
  have "queues_ok (ready_queue s) (zombie_queue s) (status_of (task_list s))" using ok by (simp add: sched_ok_def sched_inv_def)
  then have "status_of (task_list s) i = Some Terminated" if "i \<in> set R" for i
    using that s1(7) unfolding queues_ok_def by (metis Un_iff set_append)
  then have run: "status_of (task_list s1) i = Some Running \<longleftrightarrow> status_of (task_list s) i = Some Running" for i
    unfolding s1(8) by auto
  from requeue_ok [OF s1(2)] obtain s2 where s2: "requeue_current s1 = Inr s2" "sched_inv s2" "stacks_owned F0 others (s2, b1)"
    "\<forall>i. status_of (task_list s2) i \<noteq> Some Running" "zombie_queue s2 = zombie_queue s1" "blocked_queue s2 = blocked_queue s"
    "ready_queue s2 = ready_queue s @ filter (\<lambda>i. status_of (task_list s) i = Some Running) (case current_task_id s of None \<Rightarrow> [] | Some c \<Rightarrow> [c])"
    unfolding run s1(3,4,5) by blast
  from run_next_ok [OF s2(2,3,4)] obtain n s3 where s3: "run_next s2 = Inr (n, s3)" "sched_ok F0 others (s3, b1)"
    "current_task_id s3 = Some n" "pop_next (ready_queue s2) = (n, ready_queue s3)" "zombie_queue s3 = zombie_queue s2"
    "blocked_queue s3 = blocked_queue s2" "status_of (task_list s3) = (status_of (task_list s2))(n := Some Running)" by metis
  have "length (task_list s2) = length (task_list s1)"
    using s2(1) by (auto simp: requeue_current_def index_def split: option.splits if_splits)
  moreover have "length (task_list s3) = length (task_list s2)"
    using s3(1) by (auto simp: run_next_def index_def split: prod.splits option.splits if_splits)
  moreover have "prepare_next_task (s, b) = Inr (n, (s3, b1))" using s1(1) s2(1) s3(1) by (simp add: prepare_next_task_def)
  ultimately show thesis using s3 s2(5-7) s1(6,9) by (intro that [of n s3 b1]) simp_all
qed

lemma free_slot_facts:
  "free_slot ts \<le> length ts" "free_slot ts < length ts \<Longrightarrow> ts ! free_slot ts = None"
proof -
  show "free_slot ts \<le> length ts" by (simp add: free_slot_def length_takeWhile_le)
  show "ts ! free_slot ts = None" if "free_slot ts < length ts"
    using nth_length_takeWhile [of "\<lambda>t. t \<noteq> None" ts] that by (simp add: free_slot_def)
qed

text \<open>Filling a free slot.\<close>

definition fill_slot :: "task_control_block option list \<Rightarrow> task_control_block \<Rightarrow> task_control_block option list" where
  "fill_slot ts tcb = (if free_slot ts = length ts then ts @ [Some tcb] else ts[free_slot ts := Some tcb])"

lemma fill_slot_ok:
  assumes "tasks_ok ts" and "tcb_ok (free_slot ts) tcb"
  shows "status_of (fill_slot ts tcb) = (status_of ts)(free_slot ts := Some (tcb_status tcb))"
    and "mset (stacks (fill_slot ts tcb)) = add_mset (stack_of tcb) (mset (stacks ts))"
    and "tasks_ok (fill_slot ts tcb)" and "length ts \<le> length (fill_slot ts tcb)" and "status_of ts (free_slot ts) = None"
    and "free_slot ts < length (fill_slot ts tcb)" and "fill_slot ts tcb ! free_slot ts = Some tcb"
proof -
  have "(status_of (fill_slot ts tcb) = (status_of ts)(free_slot ts := Some (tcb_status tcb)))
    \<and> mset (stacks (fill_slot ts tcb)) = add_mset (stack_of tcb) (mset (stacks ts))
    \<and> tasks_ok (fill_slot ts tcb) \<and> length ts \<le> length (fill_slot ts tcb) \<and> status_of ts (free_slot ts) = None
    \<and> free_slot ts < length (fill_slot ts tcb) \<and> fill_slot ts tcb ! free_slot ts = Some tcb"
  proof (cases "free_slot ts = length ts")
    case True
    then show ?thesis using assms
      by (auto simp: fill_slot_def status_of_append stacks_append stacks_single tasks_ok_def nth_append status_of_def less_Suc_eq)
  next
    case False
    then have lt: "free_slot ts < length ts" using free_slot_facts(1) [of ts] by linarith
    note none = free_slot_facts(2) [OF lt]
    have "mset (stacks (ts[free_slot ts := Some tcb])) = add_mset (stack_of tcb) (mset (stacks ts))"
      using mset_stacks_update [OF lt, of "Some tcb"] none by (simp add: stacks_single)
    moreover have "tasks_ok (ts[free_slot ts := Some tcb])" using assms by (intro tasks_ok_update) auto
    ultimately show ?thesis using False lt none by (simp add: fill_slot_def status_of_update status_of_def)
  qed
  then show "status_of (fill_slot ts tcb) = (status_of ts)(free_slot ts := Some (tcb_status tcb))"
    "mset (stacks (fill_slot ts tcb)) = add_mset (stack_of tcb) (mset (stacks ts))"
    "tasks_ok (fill_slot ts tcb)" "length ts \<le> length (fill_slot ts tcb)" "status_of ts (free_slot ts) = None"
    "free_slot ts < length (fill_slot ts tcb)" "fill_slot ts tcb ! free_slot ts = Some tcb" by simp_all
qed

text \<open>The first task may be created on the empty scheduler, whose invariant lacks only task 0.\<close>

definition sched_start :: "nat set \<Rightarrow> (phys_page_num \<times> usize) list \<Rightarrow> sched_state \<Rightarrow> bool" where
  "sched_start F0 others st \<longleftrightarrow> sched_ok F0 others st \<or> fst st = scheduler_new \<and> stacks_owned F0 others st"

lemma sched_start_parts:
  assumes "sched_start F0 others (s, b)"
  shows "tasks_ok (task_list s)" "sleepers_ok (blocked_queue s) (length (task_list s))" "stacks_owned F0 others (s, b)"
    "current_ok (current_task_id s) (status_of (task_list s))"
    "status_of (task_list s) i = None \<Longrightarrow> (task_list s = [] \<longrightarrow> i = 0) \<Longrightarrow>
       queues_ok (ready_queue s @ [i]) (zombie_queue s) ((status_of (task_list s))(i := Some Ready))"
proof -
  have "tasks_ok (task_list s) \<and> sleepers_ok (blocked_queue s) (length (task_list s)) \<and> stacks_owned F0 others (s, b)
    \<and> current_ok (current_task_id s) (status_of (task_list s))"
    using assms unfolding sched_start_def sched_ok_def sched_inv_def
    by (auto simp: scheduler_new_def tasks_ok_def sleepers_ok_def current_ok_def status_of_def)
  then show "tasks_ok (task_list s)" "sleepers_ok (blocked_queue s) (length (task_list s))" "stacks_owned F0 others (s, b)"
    "current_ok (current_task_id s) (status_of (task_list s))" by simp_all
  assume i: "status_of (task_list s) i = None" "task_list s = [] \<longrightarrow> i = 0"
  show "queues_ok (ready_queue s @ [i]) (zombie_queue s) ((status_of (task_list s))(i := Some Ready))"
  proof (cases "s = scheduler_new")
    case True
    then show ?thesis using i by (auto simp: queues_ok_def scheduler_new_def status_of_def)
  next
    case False
    then have "queues_ok (ready_queue s) (zombie_queue s) (status_of (task_list s))"
      using assms by (auto simp: sched_start_def sched_ok_def sched_inv_def)
    moreover from this have "i \<notin> set (ready_queue s)" "i \<notin> set (zombie_queue s)" using i(1) by (simp_all add: queues_ok_def)
    moreover from calculation(1) have "status_of (task_list s) 0 \<noteq> Some Terminated" by (auto simp: queues_ok_def)
    ultimately show ?thesis by (simp add: queues_ok_def)
  qed
qed

text \<open>The stack and the context a new task is given.\<close>

definition new_task :: "usize \<Rightarrow> nat \<Rightarrow> usize \<times> usize \<Rightarrow> usize \<Rightarrow> u8 \<Rightarrow> phys_page_num \<Rightarrow> task_control_block" where
  "new_task trampoline i entry pgs priority p =
     (let va = phys_to_virt (pa_val (pa_from_ppn p)) in
      \<lparr>tcb_task_id = i, tcb_entry_point = entry, tcb_stack_base = va, tcb_page_count = pgs, tcb_priority = priority,
       tcb_status = Ready, tcb_context = new_context trampoline entry (va + pgs * PAGE_SIZE)\<rparr>)"

lemma new_task_ok:
  assumes "unat (ppn_val p) < 2 ^ 52" and "pgs \<noteq> 0"
  shows "tcb_ok i (new_task tr i entry pgs priority p)" "stack_of (new_task tr i entry pgs priority p) = (p, pgs)"
    "tcb_status (new_task tr i entry pgs priority p) = Ready"
proof -
  have "pa_floor (pa_from_ppn p) = p" using assms(1) by (intro phys_page_num.expand) (simp add: word_unat_eq_iff)
  then show so: "stack_of (new_task tr i entry pgs priority p) = (p, pgs)" by (simp add: stack_of_def new_task_def Let_def)
  show "tcb_ok i (new_task tr i entry pgs priority p)" unfolding tcb_ok_def so
    using assms(2) by (simp add: new_task_def Let_def)
  show "tcb_status (new_task tr i entry pgs priority p) = Ready" by (simp add: new_task_def Let_def)
qed

lemma spawn_ok:
  assumes st: "sched_start F0 others (s, b)" and low: "F0 \<subseteq> {..<2 ^ 20}"
    and pgs: "pgs = (stack_size + PAGE_SIZE - 1) div PAGE_SIZE"
  obtains (fails) "spawn tr (s, b) entry stack_size prio = Inr (Err MemoryAllocationError, (s, b))"
  | (works) p b' where "pgs \<noteq> 0"
    "spawn tr (s, b) entry stack_size prio = Inr (Ok (), (s\<lparr>task_list := fill_slot (task_list s) (new_task tr (free_slot (task_list s)) entry pgs prio p),
       ready_queue := ready_queue s @ [free_slot (task_list s)]\<rparr>, b'))"
    "sched_ok F0 others (s\<lparr>task_list := fill_slot (task_list s) (new_task tr (free_slot (task_list s)) entry pgs prio p),
       ready_queue := ready_queue s @ [free_slot (task_list s)]\<rparr>, b')"
    "buddy_owned p pgs"
proof (cases "pgs = 0")
  case True
  then show thesis using fails pgs by (simp add: spawn_def Let_def)
next
  case n0: False
  obtain F where F: "has_free b F" "frames.partition F0 F (stacks (task_list s) @ others)"
    using sched_start_parts(3) [OF st] by (auto simp: stacks_owned_def)
  from frames.alloc_total [OF F(1) n0] obtain r b' where al: "buddy_alloc b pgs = Inr (r, b')" by blast
  show thesis
  proof (cases r)
    case None
    then have "b' = b" using frames.alloc_none [OF F(1) n0] al by simp
    then show thesis using fails None al n0 pgs by (simp add: spawn_def Let_def)
  next
    case (Some p)
    note a = frames.alloc_some [OF F(1) n0 al [unfolded Some]] and step = frames.alloc_step [OF F n0 al [unfolded Some]]
    let ?i = "free_slot (task_list s)" and ?tcb = "new_task tr (free_slot (task_list s)) entry pgs prio p"
    let ?s' = "s\<lparr>task_list := fill_slot (task_list s) ?tcb, ready_queue := ready_queue s @ [?i]\<rparr>"
    have "unat (ppn_val p) \<in> buddy_run p pgs" by (simp add: buddy_run_def)
    then have p: "unat (ppn_val p) < 2 ^ 20" using a low F(2) by (auto simp: frames.partition_def)
    then have p52: "unat (ppn_val p) < 2 ^ 52" by simp
    have "unat (pa_val (pa_from_ppn p)) < 2 ^ 32" using p p52 by simp
    then have "phys_to_virt (pa_val (pa_from_ppn p)) \<noteq> 0" by (rule phys_to_virt_nonzero)
    then have r: "spawn tr (s, b) entry stack_size prio = Inr (Ok (), (?s', b'))"
      using al Some n0 pgs by (simp add: spawn_def Let_def fill_slot_def new_task_def)
    note nt = new_task_ok [OF p52 n0, where i = ?i and tr = tr and entry = entry and priority = prio]
    note fs = fill_slot_ok [OF sched_start_parts(1) [OF st] nt(1)]
    have "task_list s = [] \<longrightarrow> ?i = 0" by (simp add: free_slot_def)
    from sched_start_parts(5) [OF st fs(5) this]
    have "queues_ok (ready_queue ?s') (zombie_queue ?s') (status_of (task_list ?s'))" using fs(1) nt(3) by simp
    moreover have "sleepers_ok (blocked_queue s) (length (fill_slot (task_list s) ?tcb))"
      using sched_start_parts(2) [OF st] fs(4) by (auto simp: sleepers_ok_def)
    ultimately have "sched_inv ?s'" using fs(3) by (simp add: sched_inv_def)
    moreover have "current_ok (current_task_id ?s') (status_of (task_list ?s'))"
      using sched_start_parts(4) [OF st] fs(1,5) nt(3) by (auto simp: current_ok_def)
    moreover have "mset ((p, pgs) # stacks (task_list s) @ others) = mset (stacks (task_list ?s') @ others)" using fs(2) nt(2) by simp
    then have "stacks_owned F0 others (?s', b')"
      using step frames.partition_mset unfolding stacks_owned_def fst_conv snd_conv by blast
    ultimately have "sched_ok F0 others (?s', b')" by (simp add: sched_ok_def)
    then show thesis using works r n0 a by blast
  qed
qed

section \<open>Histories\<close>

text \<open>
  The operations as the trap handler composes them: a timer tick ends the sleeps that are due and
  schedules, a yield schedules, an exit marks the task and schedules. Blocking and exiting are
  requests of the running task, which is never the idle task 0.
\<close>

datatype sched_op =
    Op_spawn "usize \<times> usize" usize u8
  | Op_tick usize
  | Op_yield
  | Op_sleep usize
  | Op_block
  | Op_wake nat u8
  | Op_exit

definition sched_exec :: "usize \<Rightarrow> sched_op \<Rightarrow> sched_state \<Rightarrow> sched_state res" where
  "sched_exec tr op st = (case op of
       Op_spawn entry stack_size priority \<Rightarrow> rbind (spawn tr st entry stack_size priority) (\<lambda>(_, st'). Inr st')
     | Op_tick now \<Rightarrow> rbind (finish_sleep (fst st) now) (\<lambda>s. rbind (prepare_next_task (s, snd st)) (\<lambda>(_, st'). Inr st'))
     | Op_yield \<Rightarrow> rbind (prepare_next_task st) (\<lambda>(_, st'). Inr st')
     | Op_sleep w \<Rightarrow> rbind (set_current_task_sleep (fst st) w) (\<lambda>(_, s). Inr (s, snd st))
     | Op_block \<Rightarrow> rbind (block_current_task (fst st)) (\<lambda>(_, s). Inr (s, snd st))
     | Op_wake i r \<Rightarrow> rbind (wake_up_task_with_result (fst st) i r) (\<lambda>s. Inr (s, snd st))
     | Op_exit \<Rightarrow> rbind (exit_current_task (fst st)) (\<lambda>s. rbind (prepare_next_task (s, snd st)) (\<lambda>(_, st'). Inr st')))"

definition user_running :: "scheduler \<Rightarrow> bool" where
  "user_running s \<longleftrightarrow> (case current_task_id s of None \<Rightarrow> False
     | Some cur \<Rightarrow> cur \<noteq> 0 \<and> status_of (task_list s) cur = Some Running)"

definition op_enabled :: "sched_op \<Rightarrow> scheduler \<Rightarrow> bool" where
  "op_enabled op s = (case op of
       Op_sleep _ \<Rightarrow> user_running s | Op_block \<Rightarrow> user_running s | Op_exit \<Rightarrow> user_running s
     | Op_wake i _ \<Rightarrow> i < length (task_list s) | _ \<Rightarrow> True)"

definition decides :: "sched_op \<Rightarrow> bool" where
  "decides op = (case op of Op_spawn _ _ _ \<Rightarrow> False | Op_wake _ _ \<Rightarrow> False | _ \<Rightarrow> True)"

definition at_pos :: "nat \<Rightarrow> nat list \<Rightarrow> nat \<Rightarrow> bool" where
  "at_pos t q k \<longleftrightarrow> k < length q \<and> q ! k = t"

lemma at_pos_append: "at_pos t q k \<Longrightarrow> at_pos t (q @ xs) k"
  by (simp add: at_pos_def nth_append)

lemma at_pos_pop: "at_pos t q k \<Longrightarrow> t \<noteq> 0 \<Longrightarrow> pop_next q = (n, q') \<Longrightarrow> n = t \<or> (\<exists>j < k. at_pos t q' j)"
  using pop_next_progress [of q n q' t k] by (auto simp: at_pos_def)

lemma user_running_cases:
  assumes "user_running s"
  obtains cur where "current_task_id s = Some cur" "status_of (task_list s) cur = Some Running" "cur \<noteq> 0"
  using assms by (auto simp: user_running_def split: option.splits)

text \<open>What every operation does: it succeeds, keeps the invariant, and a ready task advances or is chosen.\<close>

definition advances :: "bool \<Rightarrow> scheduler \<Rightarrow> scheduler \<Rightarrow> bool" where
  "advances d s s' \<longleftrightarrow> (\<forall>t k. t \<noteq> 0 \<longrightarrow> at_pos t (ready_queue s) k \<longrightarrow>
     (if d then current_task_id s' = Some t \<or> (\<exists>j < k. at_pos t (ready_queue s') j) else at_pos t (ready_queue s') k))"

lemma advances_pop:
  "pop_next (ready_queue s @ xs) = (n, ready_queue s') \<Longrightarrow> current_task_id s' = Some n \<Longrightarrow> advances True s s'"
  unfolding advances_def if_True
proof (intro allI impI)
  fix t k
  assume "pop_next (ready_queue s @ xs) = (n, ready_queue s')" "current_task_id s' = Some n" "t \<noteq> 0" "at_pos t (ready_queue s) k"
  then show "current_task_id s' = Some t \<or> (\<exists>j < k. at_pos t (ready_queue s') j)"
    using at_pos_pop [OF at_pos_append] by blast
qed

lemma advances_append: "ready_queue s' = ready_queue s @ xs \<Longrightarrow> advances False s s'"
  by (simp add: advances_def at_pos_append)

lemma advances_after: "ready_queue s1 = ready_queue s @ xs \<Longrightarrow> advances True s1 s' \<Longrightarrow> advances True s s'"
  by (simp add: advances_def at_pos_append)

lemma prepare_advances:
  assumes "sched_ok F0 others (s, b)"
  obtains n s' b' where "prepare_next_task (s, b) = Inr (n, (s', b'))" "sched_ok F0 others (s', b')" "advances True s s'"
  by (rule prepare_next_ok [OF assms]) (rule that, assumption, assumption, rule advances_pop)

lemma sched_exec_ok:
  assumes ok: "sched_ok F0 others (s, b)" and low: "F0 \<subseteq> {..<2 ^ 20}" and en: "op_enabled op s"
  shows "\<exists>s' b'. sched_exec tr op (s, b) = Inr (s', b') \<and> sched_ok F0 others (s', b') \<and> advances (decides op) s s'"
proof (cases op)
  case (Op_spawn entry sz pr)
  have start: "sched_start F0 others (s, b)" using ok by (simp add: sched_start_def)
  show ?thesis
  proof (cases rule: spawn_ok [OF start low refl, where tr = tr and entry = entry and stack_size = sz and prio = pr, case_names fails works])
    case fails
    moreover have "advances False s s" by (rule advances_append [of _ _ "[]"]) simp
    ultimately show ?thesis using ok Op_spawn by (simp add: sched_exec_def decides_def)
  next
    case (works p b')
    let ?s' = "s\<lparr>task_list := fill_slot (task_list s) (new_task tr (free_slot (task_list s)) entry ((sz + PAGE_SIZE - 1) div PAGE_SIZE) pr p),
       ready_queue := ready_queue s @ [free_slot (task_list s)]\<rparr>"
    have "advances False s ?s'" by (rule advances_append) simp
    moreover have "sched_exec tr op (s, b) = Inr (?s', b')" using works(2) Op_spawn by (simp add: sched_exec_def)
    ultimately show ?thesis using works(3) Op_spawn by (auto simp: decides_def)
  qed
next
  case (Op_tick now)
  have "sleepers_ok (blocked_queue s) (length (task_list s))" using ok by (simp add: sched_ok_def sched_inv_def)
  from finish_sleep_loop_ok [OF ok this, of now] obtain s1 W where
    s1: "finish_sleep s now = Inr s1" "sched_ok F0 others (s1, b)" "ready_queue s1 = ready_queue s @ W"
    unfolding finish_sleep_def wakes_def by blast
  obtain n s' b' where p: "prepare_next_task (s1, b) = Inr (n, (s', b'))" "sched_ok F0 others (s', b')" "advances True s1 s'"
    by (rule prepare_advances [OF s1(2)])
  from s1(3) p(3) have "advances True s s'" by (rule advances_after)
  then show ?thesis using Op_tick s1(1) p by (simp add: sched_exec_def decides_def)
next
  case Op_yield
  obtain n s' b' where p: "prepare_next_task (s, b) = Inr (n, (s', b'))" "sched_ok F0 others (s', b')" "advances True s s'"
    by (rule prepare_advances [OF ok])
  then show ?thesis using Op_yield by (simp add: sched_exec_def decides_def)
next
  case (Op_sleep w)
  then obtain cur where c: "current_task_id s = Some cur" "status_of (task_list s) cur = Some Running" "cur \<noteq> 0"
    using en by (auto simp: op_enabled_def elim: user_running_cases)
  from sleep_ok [OF ok c, of w] obtain n s' where "set_current_task_sleep s w = Inr (n, s')" "sched_ok F0 others (s', b)"
    "current_task_id s' = Some n" "pop_next (ready_queue s) = (n, ready_queue s')" by metis
  then show ?thesis using Op_sleep advances_pop [of s "[]" n s'] by (simp add: sched_exec_def decides_def)
next
  case Op_block
  then obtain cur where c: "current_task_id s = Some cur" "status_of (task_list s) cur = Some Running" "cur \<noteq> 0"
    using en by (auto simp: op_enabled_def elim: user_running_cases)
  from block_ok [OF ok c] obtain n s' where "block_current_task s = Inr (n, s')" "sched_ok F0 others (s', b)"
    "current_task_id s' = Some n" "pop_next (ready_queue s) = (n, ready_queue s')" by metis
  then show ?thesis using Op_block advances_pop [of s "[]" n s'] by (simp add: sched_exec_def decides_def)
next
  case (Op_wake i r)
  then have "i < length (task_list s)" using en by (simp add: op_enabled_def)
  from wake_up_ok [OF ok this, of r] obtain s' W where "wake_up_task_with_result s i r = Inr s'" "sched_ok F0 others (s', b)"
    "wakes s s' W" by metis
  moreover from this have "advances False s s'" by (intro advances_append) (simp add: wakes_def)
  ultimately show ?thesis using Op_wake by (simp add: sched_exec_def decides_def)
next
  case Op_exit
  then obtain cur where c: "current_task_id s = Some cur" "status_of (task_list s) cur = Some Running" "cur \<noteq> 0"
    using en by (auto simp: op_enabled_def elim: user_running_cases)
  from exit_ok [OF ok c] obtain s1 where s1: "exit_current_task s = Inr s1" "sched_ok F0 others (s1, b)"
    "ready_queue s1 = ready_queue s" by metis
  obtain n s' b' where p: "prepare_next_task (s1, b) = Inr (n, (s', b'))" "sched_ok F0 others (s', b')" "advances True s1 s'"
    by (rule prepare_advances [OF s1(2)])
  have "ready_queue s1 = ready_queue s @ []" using s1(3) by simp
  from this p(3) have "advances True s s'" by (rule advances_after)
  then show ?thesis using Op_exit s1(1) p by (simp add: sched_exec_def decides_def)
qed

text \<open>Reachable states: \<open>Scheduler::init\<close> on the empty scheduler, then any enabled operations.\<close>

inductive sched_reach :: "usize \<Rightarrow> nat set \<Rightarrow> (phys_page_num \<times> usize) list \<Rightarrow> sched_state \<Rightarrow> bool" for tr F0 others where
  init: "stacks_owned F0 others (scheduler_new, b) \<Longrightarrow> spawn tr (scheduler_new, b) idle 4096 0 = Inr (Ok (), st) \<Longrightarrow>
    sched_reach tr F0 others st"
| step: "sched_reach tr F0 others st \<Longrightarrow> op_enabled op (fst st) \<Longrightarrow> sched_exec tr op st = Inr st' \<Longrightarrow> sched_reach tr F0 others st'"

text \<open>A history from a given state, with the states it passes.\<close>

inductive sched_path :: "usize \<Rightarrow> sched_state \<Rightarrow> sched_op list \<Rightarrow> sched_state list \<Rightarrow> bool" for tr where
  Nil: "sched_path tr st [] []"
| Cons: "op_enabled op (fst st) \<Longrightarrow> sched_exec tr op st = Inr st' \<Longrightarrow> sched_path tr st' ops sts \<Longrightarrow>
    sched_path tr st (op # ops) (st' # sts)"

inductive_cases sched_path_ConsE: "sched_path tr st (op # ops) sts"

lemma sched_reach_ok:
  assumes "F0 \<subseteq> {..<2 ^ 20}"
  shows "sched_reach tr F0 others st \<Longrightarrow> sched_ok F0 others st"
proof (induction rule: sched_reach.induct)
  case (init b idle st)
  then have start: "sched_start F0 others (scheduler_new, b)" by (simp add: sched_start_def)
  show ?case
    by (rule spawn_ok [OF start assms refl, where tr = tr and entry = idle and stack_size = 4096 and prio = 0]) (use init in auto)
next
  case (step st op st')
  obtain s b where st: "st = (s, b)" by (cases st)
  have "\<exists>s' b'. sched_exec tr op (s, b) = Inr (s', b') \<and> sched_ok F0 others (s', b') \<and> advances (decides op) s s'"
    by (rule sched_exec_ok) (use step assms st in auto)
  with step.hyps(3) st show ?case by auto
qed

lemma sched_path_progress:
  assumes "F0 \<subseteq> {..<2 ^ 20}" and "t \<noteq> 0"
  shows "sched_path tr st ops sts \<Longrightarrow> sched_ok F0 others st \<Longrightarrow> at_pos t (ready_queue (fst st)) k \<Longrightarrow> k < length (filter decides ops)
    \<Longrightarrow> \<exists>st' \<in> set sts. current_task_id (fst st') = Some t"
proof (induction arbitrary: k rule: sched_path.induct)
  case (Cons op st st' ops sts)
  obtain s b where st: "st = (s, b)" by (cases st)
  have "\<exists>s' b'. sched_exec tr op (s, b) = Inr (s', b') \<and> sched_ok F0 others (s', b') \<and> advances (decides op) s s'"
    by (rule sched_exec_ok) (use Cons.prems(1) Cons.hyps(1) assms st in auto)
  then have ok: "sched_ok F0 others st'" and adv: "advances (decides op) s (fst st')" using Cons.hyps(2) st by auto
  have pos: "at_pos t (ready_queue s) k" using Cons.prems(2) st by simp
  show ?case
  proof (cases "decides op \<and> current_task_id (fst st') = Some t")
    case False
    then obtain j where j: "at_pos t (ready_queue (fst st')) j" "decides op \<longrightarrow> j < k" "\<not> decides op \<longrightarrow> j = k"
      using adv pos assms(2) by (cases "decides op") (auto simp: advances_def)
    then have "j < length (filter decides ops)" using Cons.prems(3) by (cases "decides op") auto
    with Cons.IH [OF ok j(1)] show ?thesis by auto
  qed auto
qed simp

text \<open>Running histories exist: with a free page the idle task and a second one can be created.\<close>

lemma spawn_one_page:
  assumes start: "sched_start F0 others (s, b)" and low: "F0 \<subseteq> {..<2 ^ 20}"
    and avail: "\<not> F0 \<subseteq> (\<Union>(p, n) \<in> set (stacks (task_list s) @ others). buddy_run p n)"
  shows "\<exists>st. spawn tr (s, b) entry 4096 prio = Inr (Ok (), st) \<and> sched_ok F0 others st
    \<and> ready_queue (fst st) = ready_queue s @ [free_slot (task_list s)]
    \<and> (\<exists>p. task_list (fst st) = fill_slot (task_list s) (new_task tr (free_slot (task_list s)) entry 1 prio p) \<and> unat (ppn_val p) < 2 ^ 52)"
proof -
  have pg: "((4096 :: usize) + PAGE_SIZE - 1) div PAGE_SIZE = 1" by (simp add: PAGE_SIZE_def)
  obtain F where F: "has_free b F" "frames.partition F0 F (stacks (task_list s) @ others)"
    using sched_start_parts(3) [OF start] by (auto simp: stacks_owned_def)
  then have "F \<noteq> {}" using avail unfolding frames.partition_def by blast
  then obtain p b' where al: "buddy_alloc b 1 = Inr (Some p, b')" using one_page [OF F(1)] by blast
  show ?thesis
  proof (rule spawn_ok [OF start low refl, where tr = tr and entry = entry and stack_size = 4096 and prio = prio], goal_cases)
    case 1
    then show ?case using al by (simp add: spawn_def PAGE_SIZE_def Let_def require_def split: if_splits)
  next
    case (2 p b')
    then have "unat (ppn_val p) < 2 ^ 52" unfolding pg buddy_owned_def by (simp add: order_one)
    with 2 show ?case unfolding pg by force
  qed
qed

abbreviation boot_pages :: "nat set" where
  "boot_pages \<equiv> {0x80200 ..< 0x88000}"

lemma sched_example:
  "\<exists>st. sched_reach tr boot_pages [] st \<and> ready_queue (fst st) = [0, 1] \<and> current_task_id (fst st) = None \<and> length (task_list (fst st)) = 2"
proof -
  obtain b where b: "has_free b boot_pages" using boot_free by blast
  have low: "boot_pages \<subseteq> {..<2 ^ 20}" by auto
  have own: "stacks_owned boot_pages [] (scheduler_new, b)"
    using b by (auto simp: stacks_owned_def scheduler_new_def stacks_def frames.partition_def)
  have s0: "sched_start boot_pages [] (scheduler_new, b)" using own by (simp add: sched_start_def)
  have "\<not> boot_pages \<subseteq> (\<Union>(p, n) \<in> set (stacks (task_list scheduler_new) @ []). buddy_run p n)"
    by (simp add: scheduler_new_def stacks_def)
  from spawn_one_page [OF s0 low this, of tr "(0, 0)" 0] obtain s1 b1 p1 where
    s1: "spawn tr (scheduler_new, b) (0, 0) 4096 0 = Inr (Ok (), (s1, b1))" "sched_ok boot_pages [] (s1, b1)" "ready_queue s1 = [0]"
      "task_list s1 = [Some (new_task tr 0 (0, 0) 1 0 p1)]" "unat (ppn_val p1) < 2 ^ 52"
    by (auto simp: scheduler_new_def free_slot_def fill_slot_def)
  have r1: "sched_reach tr boot_pages [] (s1, b1)" by (rule sched_reach.init [OF own s1(1)])
  have so: "stack_of (new_task tr 0 (0, 0) 1 0 p1) = (p1, 1)" by (rule new_task_ok(2) [OF s1(5)]) simp
  have "\<not> boot_pages \<subseteq> buddy_run p1 1"
  proof
    assume "boot_pages \<subseteq> buddy_run p1 1"
    then have "0x80200 \<in> buddy_run p1 1" "0x80201 \<in> buddy_run p1 1" by auto
    then show False by (auto simp: buddy_run_def order_one)
  qed
  then have av: "\<not> boot_pages \<subseteq> (\<Union>(p, n) \<in> set (stacks (task_list s1) @ []). buddy_run p n)"
    unfolding s1(4) stacks_single so by simp
  have st1: "sched_start boot_pages [] (s1, b1)" using s1(2) by (simp add: sched_start_def)
  have f1: "free_slot (task_list s1) = 1" unfolding s1(4) by (simp add: free_slot_def)
  from spawn_one_page [OF st1 low av, of tr "(0, 0)" 1] obtain s2 b2 p2 where
    s2: "spawn tr (s1, b1) (0, 0) 4096 1 = Inr (Ok (), (s2, b2))" "ready_queue s2 = [0, 1]"
      "task_list s2 = fill_slot (task_list s1) (new_task tr 1 (0, 0) 1 1 p2)" unfolding f1 s1(3) by auto
  have e: "sched_exec tr (Op_spawn (0, 0) 4096 1) (s1, b1) = Inr (s2, b2)" using s2(1) by (simp add: sched_exec_def)
  have r2: "sched_reach tr boot_pages [] (s2, b2)" by (rule sched_reach.step [OF r1 _ e]) (simp add: op_enabled_def)
  have c1: "current_task_id s1 = None" using s1(1)
    by (auto simp: spawn_def scheduler_new_def Let_def require_def split: if_splits option.splits sum.splits prod.splits)
  have "current_task_id s2 = current_task_id s1" using s2(1)
    by (auto simp: spawn_def Let_def require_def split: if_splits option.splits sum.splits prod.splits)
  moreover have "length (task_list s2) = 2" unfolding s2(3) fill_slot_def f1 unfolding s1(4) by simp
  ultimately show ?thesis using r2 s2(2) c1 by (intro exI [of _ "(s2, b2)"]) simp
qed

section \<open>Properties\<close>



text \<open>C11. No ready task starves: a task other than idle that stands at position \<open>k\<close> of the ready queue becomes
  the current task within the next \<open>k + 1\<close> scheduling decisions (timer ticks, yields, sleeps, blocking
  reads and exits), whatever else happens in between.\<close>

theorem no_starvation:
  assumes "F0 \<subseteq> {..<2 ^ 20}" and "sched_ok F0 others st" and "t \<noteq> 0" and "at_pos t (ready_queue (fst st)) k"
    and "sched_path tr st ops sts" and "k < length (filter decides ops)"
  shows "\<exists>st' \<in> set sts. current_task_id (fst st') = Some t"
  by (rule sched_path_progress [OF assms(1,3,5,2,4,6)])

theorem no_starvation_witness:
  "\<exists>st st1 st2. sched_reach 0x80210000 boot_pages [] st \<and> sched_path 0x80210000 st [Op_yield, Op_yield] [st1, st2]
     \<and> (current_task_id (fst st1) = Some 1 \<or> current_task_id (fst st2) = Some 1)"
proof -
  obtain s b where r: "sched_reach 0x80210000 boot_pages [] (s, b)" and q: "ready_queue s = [0, 1]"
    using sched_example by (metis fst_conv prod.collapse)
  have low: "boot_pages \<subseteq> {..<2 ^ 20}" by auto
  note ok = sched_reach_ok [OF low r]
  obtain s1 b1 where s1: "sched_exec 0x80210000 Op_yield (s, b) = Inr (s1, b1)" "sched_ok boot_pages [] (s1, b1)"
    using sched_exec_ok [OF ok low, of Op_yield "0x80210000"] by (auto simp: op_enabled_def)
  obtain s2 b2 where s2: "sched_exec 0x80210000 Op_yield (s1, b1) = Inr (s2, b2)"
    using sched_exec_ok [OF s1(2) low, of Op_yield "0x80210000"] by (auto simp: op_enabled_def)
  have p: "sched_path 0x80210000 (s, b) [Op_yield, Op_yield] [(s1, b1), (s2, b2)]"
    using s1(1) s2 by (intro sched_path.intros) (simp_all add: op_enabled_def)
  have "at_pos 1 (ready_queue (fst (s, b))) 1" using q by (simp add: at_pos_def)
  from no_starvation [OF low ok _ this p] have "current_task_id s1 = Some 1 \<or> current_task_id s2 = Some 1"
    by (simp add: decides_def)
  with r p show ?thesis by (metis fst_conv)
qed

text \<open>C29. The choice of the next task: \<open>prepare_next_task\<close> succeeds, puts the running task at the back of the
  queue, removes the exited tasks (all of them, or those newer than the current one if that one has
  just exited), and runs the front of the queue; the idle task is chosen only when no other task is ready
  or running.\<close>

theorem prepare_next_correct:
  assumes "sched_ok F0 others (s, b)"
  shows "\<exists>n s' b'. prepare_next_task (s, b) = Inr (n, (s', b')) \<and> sched_ok F0 others (s', b')
    \<and> current_task_id s' = Some n \<and> status_of (task_list s') n = Some Running
    \<and> pop_next (ready_queue s @ (case current_task_id s of None \<Rightarrow> []
         | Some c \<Rightarrow> if status_of (task_list s) c = Some Running then [c] else [])) = (n, ready_queue s')
    \<and> (n = 0 \<longleftrightarrow> (\<forall>i. status_of (task_list s) i = Some Ready \<or> status_of (task_list s) i = Some Running \<longrightarrow> i = 0))
    \<and> (zombie_queue s' = [] \<or> current_task_id s = Some (last (zombie_queue s')))"
proof -
  let ?f = "status_of (task_list s)" and ?c = "case current_task_id s of None \<Rightarrow> [] | Some c \<Rightarrow> [c]"
  let ?q = "ready_queue s @ filter (\<lambda>i. ?f i = Some Running) ?c"
  have q: "queues_ok (ready_queue s) (zombie_queue s) ?f" "current_ok (current_task_id s) ?f" using assms by (simp_all add: sched_ok_def sched_inv_def)
  have flt: "filter (\<lambda>i. ?f i = Some Running) ?c = (case current_task_id s of None \<Rightarrow> [] | Some c \<Rightarrow> if ?f c = Some Running then [c] else [])"
    by (simp split: option.splits)
  have mem: "i \<in> set ?q \<longleftrightarrow> ?f i = Some Ready \<or> ?f i = Some Running" for i
  proof -
    have cur: "?f i = Some Running \<longrightarrow> current_task_id s = Some i" using q(2) unfolding current_ok_def by blast
    have "i \<in> set (filter (\<lambda>i. ?f i = Some Running) ?c) \<longleftrightarrow> ?f i = Some Running"
    proof (cases "current_task_id s")
      case (Some c)
      then show ?thesis using cur by (cases "i = c") simp_all
    qed (use cur in simp)
    moreover have "i \<in> set (ready_queue s) \<longleftrightarrow> ?f i = Some Ready" using q(1) by (simp add: queues_ok_def)
    ultimately show ?thesis by simp
  qed
  have "set (filter (\<lambda>i. ?f i = Some Running) ?c) \<inter> set (ready_queue s) = {}" using q(1) by (auto simp: queues_ok_def)
  moreover have "distinct ?c" "distinct (ready_queue s)" using q(1) by (simp_all add: queues_ok_def split: option.splits)
  ultimately have d: "distinct ?q" by (simp add: inf_commute)
  have z: "0 \<in> set ?q" unfolding mem using q(1) by (simp add: queues_ok_def)
  obtain n s' b' where p: "prepare_next_task (s, b) = Inr (n, (s', b'))" "sched_ok F0 others (s', b')" "current_task_id s' = Some n"
    "status_of (task_list s') n = Some Running" "pop_next ?q = (n, ready_queue s')"
    "zombie_queue s' = [] \<or> current_task_id s = Some (last (zombie_queue s'))"
    by (rule prepare_next_ok [OF assms])
  have "n = 0 \<longleftrightarrow> (\<forall>i. i \<in> set ?q \<longrightarrow> i = 0)" using pop_next_ok(4) [OF d z p(5)] z by blast
  then have idle: "n = 0 \<longleftrightarrow> (\<forall>i. ?f i = Some Ready \<or> ?f i = Some Running \<longrightarrow> i = 0)" unfolding mem .
  show ?thesis by (intro exI conjI; fact p(1) p(2) p(3) p(4) p(5) [unfolded flt] idle p(6))
qed

theorem prepare_next_correct_witness:
  "\<exists>s b s' b'. sched_reach 0x80210000 boot_pages [] (s, b) \<and> prepare_next_task (s, b) = Inr (1, (s', b')) \<and> ready_queue s' = [0]"
proof -
  obtain s b where r: "sched_reach 0x80210000 boot_pages [] (s, b)" and q: "ready_queue s = [0, 1]" "current_task_id s = None"
    using sched_example by (metis fst_conv prod.collapse)
  have low: "boot_pages \<subseteq> {..<2 ^ 20}" by auto
  from prepare_next_correct [OF sched_reach_ok [OF low r]] obtain n s' b' where
    p: "prepare_next_task (s, b) = Inr (n, (s', b'))" "pop_next [0, 1] = (n, ready_queue s')" using q by auto
  then have "n = 1" "ready_queue s' = [0]" by (simp_all add: pop_next_simps)
  with p(1) r show ?thesis by blast
qed

text \<open>C30. At every timer tick \<open>finish_sleep\<close> makes exactly those blocked tasks ready that have an entry in the
  timer heap with a wake time up to now, appends them to the ready queue, removes exactly the entries that are
  due, and never panics.\<close>

theorem finish_sleep_correct:
  assumes "sched_ok F0 others (s, b)"
  shows "\<exists>s' W. finish_sleep s now = Inr s' \<and> sched_ok F0 others (s', b) \<and> ready_queue s' = ready_queue s @ W
    \<and> set W = {i. status_of (task_list s) i = Some Blocked \<and> (\<exists>e \<in> set (blocked_queue s). sleep_task e = i \<and> wake_time e \<le> now)}
    \<and> status_of (task_list s') = (\<lambda>i. if i \<in> set W then Some Ready else status_of (task_list s) i)
    \<and> blocked_queue s' = filter (\<lambda>e. now < wake_time e) (blocked_queue s)"
proof -
  have "sleepers_ok (blocked_queue s) (length (task_list s))" using assms by (simp add: sched_ok_def sched_inv_def)
  from finish_sleep_loop_ok [OF assms this, of now] show ?thesis unfolding finish_sleep_def wakes_def by blast
qed

theorem finish_sleep_correct_witness:
  "\<exists>st s'. sched_reach 0x80210000 boot_pages [] st \<and> finish_sleep (fst st) 5 = Inr s'"
proof -
  obtain s b where r: "sched_reach 0x80210000 boot_pages [] (s, b)" using sched_example by (metis prod.collapse)
  have low: "boot_pages \<subseteq> {..<2 ^ 20}" by auto
  from finish_sleep_correct [OF sched_reach_ok [OF low r], of 5] obtain s' where "finish_sleep s 5 = Inr s'" by blast
  with r show ?thesis by (intro exI [of _ "(s, b)"] exI [of _ s']) simp
qed

section \<open>Entries that outlive their sleep\<close>




end
