(* ===== verification/Trap.thy ===== *)
theory Trap
  imports Scheduler Ring_Buffer
begin

text \<open>
  The trap handler: causes and dispatch (\<open>src/trap/mod.rs\<close>, \<open>src/trap/interrupts/mod.rs\<close>), the PLIC
  (\<open>src/driver/plic.rs\<close>), the UART service (\<open>src/trap/interrupts/service/uart_service.rs\<close>) and the system calls
  (\<open>src/syslib/syscall.rs\<close>). The state is one record of the statics these files share. A context pointer
  is a task index or the static \<open>KERNEL_INIT_CONTEXT\<close>; the \<open>&mut TaskContext\<close> argument of the handler
  aliases the context inside the task list, as in the source. Values read from devices and from
  the clock are the record \<open>trap_env\<close>, writes to devices and SBI calls are appended to \<open>dev_log\<close>. Diagnostic output
  is left out.
\<close>

section \<open>Causes\<close>

datatype interrupt_cause = SupervisorTimerInterrupt | SupervisorExternalInterrupt | Unknown_interrupt

datatype exception_cause = UserEcall | Unknown_exception

datatype trap_cause = Interrupt interrupt_cause | Exception exception_cause

definition interrupt_from_code :: "usize \<Rightarrow> interrupt_cause" where
  "interrupt_from_code code = (if code = 5 then SupervisorTimerInterrupt
     else if code = 9 then SupervisorExternalInterrupt else Unknown_interrupt)"

definition exception_from_code :: "usize \<Rightarrow> exception_cause" where
  "exception_from_code code = (if code = 8 then UserEcall else Unknown_exception)"

definition INTERRUPT_BIT :: usize where
  "INTERRUPT_BIT = shl 1 63"

definition parse_trap_cause :: "usize \<Rightarrow> trap_cause" where
  "parse_trap_cause scause =
     (let is_interrupt = (scause AND INTERRUPT_BIT \<noteq> 0);
          code = scause AND NOT INTERRUPT_BIT
      in if is_interrupt then Interrupt (interrupt_from_code code) else Exception (exception_from_code code))"

section \<open>State\<close>

datatype ctx_ptr = Kernel_init | Task_ctx nat

datatype dev_op = Thr_write u8 | Ier_write u8 | Lsr_read | Plic_complete u32 | Console_putchar u8 | Set_timer usize | System_reset

record kernel =
  k_sched :: scheduler
  k_buddy :: buddy_state
  init_context :: task_context
  receive_buffer :: "u8 ring_buffer"
  transmit_buffer :: "u8 ring_buffer"
  wait_queue :: "nat list"
  sscratch :: ctx_ptr
  dev_log :: "dev_op list"

record trap_env =
  env_time :: usize
  env_time2 :: usize
  env_irq :: u32
  env_isr :: u8
  env_rhr :: u8
  env_ier :: u8
  env_reset_error :: usize

definition emit :: "kernel \<Rightarrow> dev_op \<Rightarrow> kernel" where
  "emit k d = k\<lparr>dev_log := dev_log k @ [d]\<rparr>"

definition task_ctx :: "scheduler \<Rightarrow> nat \<Rightarrow> task_context option" where
  "task_ctx s i = (if i < length (task_list s) then map_option tcb_context (task_list s ! i) else None)"

definition get_ctx :: "kernel \<Rightarrow> ctx_ptr \<Rightarrow> task_context res" where
  "get_ctx k p = (case p of
       Kernel_init \<Rightarrow> Inr (init_context k)
     | Task_ctx i \<Rightarrow> (case task_ctx (k_sched k) i of None \<Rightarrow> Inl Undefined_behaviour | Some c \<Rightarrow> Inr c))"

definition set_ctx :: "kernel \<Rightarrow> ctx_ptr \<Rightarrow> task_context \<Rightarrow> kernel" where
  "set_ctx k p c = (case p of
       Kernel_init \<Rightarrow> k\<lparr>init_context := c\<rparr>
     | Task_ctx i \<Rightarrow> k\<lparr>k_sched := (k_sched k)\<lparr>task_list :=
         (task_list (k_sched k))[i := map_option (\<lambda>tcb. tcb\<lparr>tcb_context := c\<rparr>) (task_list (k_sched k) ! i)]\<rparr>\<rparr>)"

text \<open>\<open>csrw sscratch\<close> with the context of the chosen task; the result is its \<open>sepc\<close>.\<close>

definition resume_task :: "nat \<Rightarrow> kernel \<Rightarrow> (usize \<times> kernel) res" where
  "resume_task n k = rbind (get_ctx k (Task_ctx n)) (\<lambda>c. Inr (ctx_sepc c, k\<lparr>sscratch := Task_ctx n\<rparr>))"

definition schedule_on_interrupt :: "kernel \<Rightarrow> (usize \<times> kernel) res" where
  "schedule_on_interrupt k = rbind (prepare_next_task (k_sched k, k_buddy k)) (\<lambda>(n, s, b).
     resume_task n (k\<lparr>k_sched := s, k_buddy := b\<rparr>))"

text \<open>\<open>first_switch_to\<close> loads \<open>sscratch\<close> and \<open>sepc\<close> from the context it is given; the registers follow in the theory
  of contexts.\<close>

definition run_scheduler :: "kernel \<Rightarrow> (usize \<times> kernel) res" where
  "run_scheduler k = rbind (prepare_next_task (k_sched k, k_buddy k)) (\<lambda>(n, s, b).
     resume_task n (k\<lparr>k_sched := s, k_buddy := b\<rparr>))"

section \<open>System calls\<close>

definition RISCV_ACLINT_DEFAULT_TIMEBASE_FREQ :: usize where
  "RISCV_ACLINT_DEFAULT_TIMEBASE_FREQ = 10000000"

definition ONE_MS_CYCLES :: usize where
  "ONE_MS_CYCLES = RISCV_ACLINT_DEFAULT_TIMEBASE_FREQ div 1000"

definition TEN_MS_CYCLES :: usize where
  "TEN_MS_CYCLES = RISCV_ACLINT_DEFAULT_TIMEBASE_FREQ div 100"

definition USIZE_MAX :: usize where
  "USIZE_MAX = 0xFFFFFFFFFFFFFFFF"

text \<open>Every call that returns to its caller or to a later point first steps over the \<open>ecall\<close>.\<close>

definition step_sepc :: "kernel \<Rightarrow> ctx_ptr \<Rightarrow> (task_context \<times> kernel) res" where
  "step_sepc k p = rbind (get_ctx k p) (\<lambda>c.
     let c' = c\<lparr>ctx_sepc := ctx_sepc c + 4\<rparr> in Inr (c', set_ctx k p c'))"

definition schedule :: "ctx_ptr \<Rightarrow> kernel \<Rightarrow> (usize \<times> kernel) res" where
  "schedule p k = rbind (step_sepc k p) (\<lambda>(c, k1). schedule_on_interrupt k1)"

definition sleep :: "trap_env \<Rightarrow> ctx_ptr \<Rightarrow> kernel \<Rightarrow> (usize \<times> kernel) res" where
  "sleep env p k = rbind (step_sepc k p) (\<lambda>(c, k1).
     let target_time = env_time env + ctx_a0 c * ONE_MS_CYCLES in
     rbind (set_current_task_sleep (k_sched k1) target_time) (\<lambda>(n, s). resume_task n (k1\<lparr>k_sched := s\<rparr>)))"

definition return_char :: "ctx_ptr \<Rightarrow> task_context \<Rightarrow> u8 \<Rightarrow> kernel \<Rightarrow> (usize \<times> kernel) res" where
  "return_char p c ch k =
     Inr (ctx_sepc c, set_ctx k p (c\<lparr>ctx_a0 := (if ch \<ge> 0x80 then USIZE_MAX else ucast ch)\<rparr>))"

definition uart_read :: "trap_env \<Rightarrow> ctx_ptr \<Rightarrow> kernel \<Rightarrow> (usize \<times> kernel) res" where
  "uart_read env p k = rbind (step_sepc k p) (\<lambda>(c, k1).
     let timeout_ms = ctx_a0 c in
     rbind (rb_pop 4096 (receive_buffer k1)) (\<lambda>(r, rb).
       case r of
         Some ch \<Rightarrow> return_char p c ch (k1\<lparr>receive_buffer := rb\<rparr>)
       | None \<Rightarrow>
         if timeout_ms = 0
         then Inr (ctx_sepc c, set_ctx (k1\<lparr>receive_buffer := rb\<rparr>) p (c\<lparr>ctx_a0 := USIZE_MAX\<rparr>))
         else rbind (get_current_task_id (k_sched k1)) (\<lambda>task_id.
           let k2 = k1\<lparr>receive_buffer := rb, wait_queue := wait_queue k1 @ [task_id]\<rparr> in
           if \<not> rb_is_empty (receive_buffer k2)
           then rbind (rb_pop 4096 (receive_buffer k2)) (\<lambda>(r2, rb2). rbind (unwrap r2) (\<lambda>ch.
                  return_char p c ch (k2\<lparr>wait_queue := butlast (wait_queue k2), receive_buffer := rb2\<rparr>)))
           else
             let k3 = set_ctx k2 p (c\<lparr>ctx_a0 := USIZE_MAX\<rparr>) in
             if timeout_ms < USIZE_MAX
             then let wake = env_time env + timeout_ms * ONE_MS_CYCLES in
               rbind (set_current_task_sleep (k_sched k3) wake) (\<lambda>(n, s). resume_task n (k3\<lparr>k_sched := s\<rparr>))
             else rbind (block_current_task (k_sched k3)) (\<lambda>(n, s). resume_task n (k3\<lparr>k_sched := s\<rparr>)))))"

definition uart_write_byte :: "ctx_ptr \<Rightarrow> kernel \<Rightarrow> (usize \<times> kernel) res" where
  "uart_write_byte p k = rbind (step_sepc k p) (\<lambda>(c, k1).
     Inr (ctx_sepc c, set_ctx (emit k1 (Console_putchar (ucast (ctx_a0 c AND 0xFF)))) p (c\<lparr>ctx_a0 := 0\<rparr>)))"

definition system_quit :: "trap_env \<Rightarrow> kernel \<Rightarrow> (usize \<times> kernel) res" where
  "system_quit env k = Inr (env_reset_error env, emit k System_reset)"

definition exit_task :: "ctx_ptr \<Rightarrow> kernel \<Rightarrow> (usize \<times> kernel) res" where
  "exit_task p k = rbind (exit_current_task (k_sched k)) (\<lambda>s. schedule p (k\<lparr>k_sched := s\<rparr>))"

definition syscall :: "trap_env \<Rightarrow> ctx_ptr \<Rightarrow> kernel \<Rightarrow> (usize \<times> kernel) res" where
  "syscall env p k = rbind (get_ctx k p) (\<lambda>c.
     let code = ctx_a7 c in
     if code = 1 then uart_write_byte p k
     else if code = 7 then schedule p k
     else if code = 9 then exit_task p k
     else if code = 10 then system_quit env k
     else if code = 17 then sleep env p k
     else if code = 27 then uart_read env p k
     else Inr (ctx_sepc c, k))"

section \<open>Interrupts\<close>

definition UART_FIFO_CAPACITY :: nat where "UART_FIFO_CAPACITY = 16"
definition ISR_CAUSE_MASK :: u8 where "ISR_CAUSE_MASK = 0xE"
definition ISR_RX_AVAILABLE :: u8 where "ISR_RX_AVAILABLE = 4"
definition ISR_TX_EMPTY :: u8 where "ISR_TX_EMPTY = 2"
definition ISR_LINE_STATUS :: u8 where "ISR_LINE_STATUS = 6"

text \<open>The software buffer is drained into the FIFO; the transmit interrupt stays on while bytes are left.\<close>

definition send_data :: "trap_env \<Rightarrow> kernel \<Rightarrow> kernel res" where
  "send_data env k = rbind (pop_upto (rb_pop 4096) UART_FIFO_CAPACITY (transmit_buffer k)) (\<lambda>(cs, tr).
     let k1 = k\<lparr>transmit_buffer := tr, dev_log := dev_log k @ map Thr_write cs\<rparr> in
     if rb_is_empty tr then Inr (emit k1 (Ier_write (env_ier env AND NOT 2))) else Inr k1)"

definition receive_char :: "u8 \<Rightarrow> kernel \<Rightarrow> kernel res" where
  "receive_char ch k = (if ch \<ge> 0x80 then Inr k
     else case rev (wait_queue k) of
         task_id # rest \<Rightarrow> rbind (wake_up_task_with_result (k_sched k) task_id ch) (\<lambda>s.
           Inr (k\<lparr>wait_queue := rev rest, k_sched := s\<rparr>))
       | [] \<Rightarrow> rbind (rb_push 4096 (receive_buffer k) ch) (\<lambda>(_, rb). Inr (k\<lparr>receive_buffer := rb\<rparr>)))"

definition uart_interrupt_handler :: "trap_env \<Rightarrow> kernel \<Rightarrow> kernel res" where
  "uart_interrupt_handler env k = (if env_isr env AND 1 = 1 then Inr k
     else let cause = env_isr env AND ISR_CAUSE_MASK in
       if cause = ISR_TX_EMPTY then send_data env k
       else if cause = ISR_RX_AVAILABLE then receive_char (env_rhr env) k
       else if cause = ISR_LINE_STATUS then Inr (emit k Lsr_read)
       else Inr k)"

datatype interrupt_request = UART | UNKNOWN

definition num_to_irq :: "u32 \<Rightarrow> interrupt_request" where
  "num_to_irq num = (if num = 10 then UART else UNKNOWN)"

definition irq_to_num :: "interrupt_request \<Rightarrow> u32" where
  "irq_to_num irq = (case irq of UART \<Rightarrow> 10 | UNKNOWN \<Rightarrow> 717)"

definition plic_handler :: "trap_env \<Rightarrow> kernel \<Rightarrow> kernel res" where
  "plic_handler env k = (let irq = num_to_irq (env_irq env) in
     rbind (case irq of UART \<Rightarrow> uart_interrupt_handler env k | UNKNOWN \<Rightarrow> Inr k) (\<lambda>k1.
       Inr (emit k1 (Plic_complete (irq_to_num irq)))))"

definition set_next_timer_tick :: "trap_env \<Rightarrow> kernel \<Rightarrow> kernel" where
  "set_next_timer_tick env k = emit k (Set_timer (env_time2 env + TEN_MS_CYCLES))"

definition timer_handler :: "trap_env \<Rightarrow> kernel \<Rightarrow> (usize \<times> kernel) res" where
  "timer_handler env k = rbind (finish_sleep (k_sched k) (env_time env)) (\<lambda>s.
     schedule_on_interrupt (set_next_timer_tick env (k\<lparr>k_sched := s\<rparr>)))"

definition trap_handler :: "trap_env \<Rightarrow> ctx_ptr \<Rightarrow> usize \<Rightarrow> kernel \<Rightarrow> (usize \<times> kernel) res" where
  "trap_handler env p scause k = (case parse_trap_cause scause of
       Interrupt SupervisorTimerInterrupt \<Rightarrow> timer_handler env k
     | Interrupt SupervisorExternalInterrupt \<Rightarrow>
         rbind (plic_handler env k) (\<lambda>k1. rbind (get_ctx k1 p) (\<lambda>c. Inr (ctx_sepc c, k1)))
     | Interrupt Unknown_interrupt \<Rightarrow> rbind (get_ctx k p) (\<lambda>c. Inr (ctx_sepc c, k))
     | Exception UserEcall \<Rightarrow> syscall env p k
     | Exception Unknown_exception \<Rightarrow> rbind (get_ctx k p) (\<lambda>c. Inr (ctx_sepc c, k)))"

section \<open>Invariant\<close>

definition uart_ok :: "kernel \<Rightarrow> bool" where
  "uart_ok k \<longleftrightarrow> rb_inv 4096 (receive_buffer k) \<and> rb_inv 4096 (transmit_buffer k)
     \<and> (\<forall>i \<in> set (wait_queue k). i < length (task_list (k_sched k)))"

text \<open>\<open>sscratch\<close> points to the context of the running task, or to the initial one before the first task runs; a
  timer interrupt may then find a current task that has been chosen but not entered.\<close>

definition scratch_ok :: "kernel \<Rightarrow> bool" where
  "scratch_ok k \<longleftrightarrow> (case sscratch k of
       Kernel_init \<Rightarrow> True
     | Task_ctx i \<Rightarrow> current_task_id (k_sched k) = Some i \<and> status_of (task_list (k_sched k)) i = Some Running)"

definition kernel_ok :: "nat set \<Rightarrow> (phys_page_num \<times> usize) list \<Rightarrow> kernel \<Rightarrow> bool" where
  "kernel_ok F0 others k \<longleftrightarrow> sched_ok F0 others (k_sched k, k_buddy k) \<and> uart_ok k \<and> scratch_ok k"

text \<open>A result that lets \<open>trap_entry\<close> continue: the returned address is that of the selected context.\<close>

definition returns_ok :: "nat set \<Rightarrow> (phys_page_num \<times> usize) list \<Rightarrow> (usize \<times> kernel) res \<Rightarrow> bool" where
  "returns_ok F0 others r \<longleftrightarrow> (\<exists>pc k c. r = Inr (pc, k) \<and> kernel_ok F0 others k \<and> get_ctx k (sscratch k) = Inr c \<and> ctx_sepc c = pc)"

lemma emit_simps [simp]:
  "k_sched (emit k d) = k_sched k" "k_buddy (emit k d) = k_buddy k" "receive_buffer (emit k d) = receive_buffer k"
  "transmit_buffer (emit k d) = transmit_buffer k" "wait_queue (emit k d) = wait_queue k" "sscratch (emit k d) = sscratch k"
  "init_context (emit k d) = init_context k" "dev_log (emit k d) = dev_log k @ [d]"
  by (simp_all add: emit_def)

lemma kernel_ok_emit [simp]: "kernel_ok F0 others (emit k d) = kernel_ok F0 others k"
  by (simp add: kernel_ok_def uart_ok_def scratch_ok_def split: ctx_ptr.splits)

lemma get_ctx_emit [simp]: "get_ctx (emit k d) p = get_ctx k p"
  by (simp add: get_ctx_def split: ctx_ptr.splits)

section \<open>Contexts of tasks\<close>

text \<open>The status of a task and its context exist together.\<close>

lemma task_ctx_iff: "task_ctx s i \<noteq> None \<longleftrightarrow> status_of (task_list s) i \<noteq> None"
  by (simp add: task_ctx_def status_of_def)

lemma scratch_ctx:
  assumes "scratch_ok k"
  shows "\<exists>c. get_ctx k (sscratch k) = Inr c"
proof (cases "sscratch k")
  case (Task_ctx i)
  then have "task_ctx (k_sched k) i \<noteq> None" using assms unfolding task_ctx_iff by (simp add: scratch_ok_def)
  then show ?thesis using Task_ctx by (auto simp: get_ctx_def)
qed (simp add: get_ctx_def)

lemma set_ctx_simps [simp]:
  "k_buddy (set_ctx k p c) = k_buddy k" "receive_buffer (set_ctx k p c) = receive_buffer k"
  "transmit_buffer (set_ctx k p c) = transmit_buffer k" "wait_queue (set_ctx k p c) = wait_queue k"
  "sscratch (set_ctx k p c) = sscratch k" "dev_log (set_ctx k p c) = dev_log k"
  "length (task_list (k_sched (set_ctx k p c))) = length (task_list (k_sched k))"
  "current_task_id (k_sched (set_ctx k p c)) = current_task_id (k_sched k)"
  "ready_queue (k_sched (set_ctx k p c)) = ready_queue (k_sched k)"
  "zombie_queue (k_sched (set_ctx k p c)) = zombie_queue (k_sched k)"
  "blocked_queue (k_sched (set_ctx k p c)) = blocked_queue (k_sched k)"
  by (simp_all add: set_ctx_def split: ctx_ptr.splits)

lemma status_set_ctx [simp]: "status_of (task_list (k_sched (set_ctx k p c))) = status_of (task_list (k_sched k))"
proof (cases p)
  case (Task_ctx i)
  let ?ts = "task_list (k_sched k)" and ?u = "map_option (\<lambda>tcb. tcb\<lparr>tcb_context := c\<rparr>)"
  have "status_of (?ts[i := ?u (?ts ! i)]) = status_of ?ts"
  proof (cases "i < length ?ts")
    case True
    then have e: "status_of ?ts i = map_option tcb_status (?ts ! i)" by (simp add: status_of_def)
    from True have "status_of (?ts[i := ?u (?ts ! i)]) = (status_of ?ts)(i := map_option tcb_status (?ts ! i))"
      by (simp add: status_of_update option.map_comp comp_def)
    then show ?thesis unfolding e [symmetric] by simp
  qed (simp add: list_update_beyond not_less)
  then show ?thesis using Task_ctx by (simp add: set_ctx_def)
qed (simp add: set_ctx_def)

lemma get_set_ctx:
  assumes "get_ctx k p = Inr c0"
  shows "get_ctx (set_ctx k p c) p = Inr c" and "p \<noteq> q \<Longrightarrow> get_ctx (set_ctx k p c) q = get_ctx k q"
proof -
  show "get_ctx (set_ctx k p c) p = Inr c"
    using assms by (auto simp: get_ctx_def set_ctx_def task_ctx_def split: ctx_ptr.splits option.splits if_splits)
  show "get_ctx (set_ctx k p c) q = get_ctx k q" if "p \<noteq> q"
    using that by (cases p; cases q) (simp_all add: get_ctx_def set_ctx_def task_ctx_def)
qed

lemma sched_ok_same_stacks:
  assumes "sched_ok F0 others (s, b)" and "status_of (task_list s') = status_of (task_list s)" and "length (task_list s') = length (task_list s)"
    and "tasks_ok (task_list s')" and "mset (stacks (task_list s')) = mset (stacks (task_list s))"
    and "current_task_id s' = current_task_id s" "ready_queue s' = ready_queue s" "zombie_queue s' = zombie_queue s"
      "blocked_queue s' = blocked_queue s"
  shows "sched_ok F0 others (s', b)"
  using assms stacks_owned_cong [of F0 others s b s'] by (simp add: sched_ok_def sched_inv_def)

lemma set_ctx_ok:
  assumes "sched_ok F0 others (k_sched k, b)"
  shows "sched_ok F0 others (k_sched (set_ctx k p c), b)"
proof (cases p)
  case (Task_ctx i)
  let ?ts = "task_list (k_sched k)" and ?u = "map_option (\<lambda>tcb. tcb\<lparr>tcb_context := c\<rparr>)"
  have ts: "task_list (k_sched (set_ctx k p c)) = ?ts[i := ?u (?ts ! i)]" using Task_ctx by (simp add: set_ctx_def)
  have tk: "tasks_ok ?ts" using assms by (simp add: sched_ok_def sched_inv_def)
  have "tasks_ok (?ts[i := ?u (?ts ! i)]) \<and> mset (stacks (?ts[i := ?u (?ts ! i)])) = mset (stacks ?ts)"
  proof (cases "i < length ?ts")
    case True
    then have "tasks_ok (?ts[i := ?u (?ts ! i)])" using tasks_okD [OF tk True] by (intro tasks_ok_update [OF tk]) auto
    moreover have "mset (stacks (?ts[i := ?u (?ts ! i)])) = mset (stacks ?ts)"
      using mset_stacks_update [OF True, of "?u (?ts ! i)"] by (cases "?ts ! i") (simp_all add: stacks_single)
    ultimately show ?thesis by simp
  qed (use tk in \<open>simp add: list_update_beyond not_less\<close>)
  then show ?thesis unfolding ts [symmetric] by (intro sched_ok_same_stacks [OF assms]) simp_all
qed (use assms in \<open>simp add: set_ctx_def\<close>)

lemma kernel_ok_set_ctx [simp]:
  assumes "kernel_ok F0 others k"
  shows "kernel_ok F0 others (set_ctx k p c)"
  using assms set_ctx_ok [of F0 others k "k_buddy k" p c]
  by (simp add: kernel_ok_def uart_ok_def scratch_ok_def split: ctx_ptr.splits)

lemma step_sepc_ok:
  assumes "kernel_ok F0 others k"
  obtains c where "get_ctx k (sscratch k) = Inr c"
    "step_sepc k (sscratch k) = Inr (c\<lparr>ctx_sepc := ctx_sepc c + 4\<rparr>, set_ctx k (sscratch k) (c\<lparr>ctx_sepc := ctx_sepc c + 4\<rparr>))"
proof -
  have "scratch_ok k" using assms by (simp add: kernel_ok_def)
  then obtain c where "get_ctx k (sscratch k) = Inr c" using scratch_ctx by blast
  then show thesis by (intro that) (simp_all add: step_sepc_def Let_def)
qed

section \<open>What the scheduler does to contexts\<close>

text \<open>\<open>same_tasks s s'\<close>: no task appears or disappears and no context changes.\<close>

definition same_tasks :: "scheduler \<Rightarrow> scheduler \<Rightarrow> bool" where
  "same_tasks s s' \<longleftrightarrow> length (task_list s') = length (task_list s) \<and> task_ctx s' = task_ctx s"

lemmas tasks_simps = same_tasks_def task_ctx_def set_status_def fun_eq_iff nth_list_update

lemma same_tasks_trans: "same_tasks s s1 \<Longrightarrow> same_tasks s1 s2 \<Longrightarrow> same_tasks s s2"
  by (simp add: same_tasks_def)

lemma same_tasks_status:
  "i < length (task_list s) \<Longrightarrow> task_list s ! i = Some tcb \<Longrightarrow> task_list s' = set_status (task_list s) i tcb st \<Longrightarrow> same_tasks s s'"
  by (auto simp: tasks_simps)

lemma same_tasks_eq: "task_list s' = task_list s \<Longrightarrow> same_tasks s s'"
  by (simp add: tasks_simps)

lemma run_next_tasks: "run_next s = Inr (n, s') \<Longrightarrow> same_tasks s s'"
  by (auto simp: run_next_def index_def tasks_simps split: prod.splits option.splits if_splits)

lemma with_running_tasks:
  assumes "with_running s (\<lambda>cur tcb. run_next (s\<lparr>task_list := set_status (task_list s) cur tcb Blocked, blocked_queue := f cur\<rparr>)) = Inr (n, s')"
  shows "same_tasks s s'"
proof -
  from assms obtain cur tcb where c: "cur < length (task_list s)" "task_list s ! cur = Some tcb"
    "run_next (s\<lparr>task_list := set_status (task_list s) cur tcb Blocked, blocked_queue := f cur\<rparr>) = Inr (n, s')"
    by (auto simp: with_running_def index_def split: option.splits if_splits)
  have "same_tasks s (s\<lparr>task_list := set_status (task_list s) cur tcb Blocked, blocked_queue := f cur\<rparr>)"
    by (rule same_tasks_status [OF c(1,2)]) simp
  from this run_next_tasks [OF c(3)] show ?thesis by (rule same_tasks_trans)
qed

lemma sleep_tasks: "set_current_task_sleep s w = Inr (n, s') \<Longrightarrow> same_tasks s s'"
  unfolding set_current_task_sleep_def by (rule with_running_tasks)

lemma block_tasks:
  assumes "block_current_task s = Inr (n, s')"
  shows "same_tasks s s'"
  by (rule with_running_tasks [where f = "\<lambda>_. blocked_queue s"]) (use assms in \<open>simp add: block_current_task_def\<close>)

lemma set_task_ready_tasks:
  assumes "set_task_ready s i = Inr s'"
  shows "same_tasks s s'"
proof (cases "\<exists>tcb. task_list s ! i = Some tcb \<and> tcb_status tcb = Blocked")
  case True
  then obtain tcb where t: "task_list s ! i = Some tcb" "tcb_status tcb = Blocked" by blast
  with assms have i: "i < length (task_list s)" and s': "task_list s' = set_status (task_list s) i tcb Ready"
    by (auto simp: set_task_ready_def index_def split: if_splits)
  show ?thesis by (rule same_tasks_status [OF i t(1) s'])
next
  case False
  with assms have "s' = s"
    by (cases "task_list s ! i") (simp_all add: set_task_ready_def index_def split: if_splits)
  then show ?thesis by (simp add: same_tasks_eq)
qed

lemma finish_sleep_tasks: "finish_sleep s now = Inr s' \<Longrightarrow> same_tasks s s'"
proof -
  have "finish_sleep_loop now es s = Inr s' \<Longrightarrow> same_tasks s s'" for es
  proof (induction es arbitrary: s)
    case (Cons e es)
    show ?case
    proof (cases "now < wake_time e")
      case False
      with Cons.prems obtain s1 where "set_task_ready s (sleep_task e) = Inr s1" "finish_sleep_loop now es s1 = Inr s'" by auto
      then show ?thesis using Cons.IH set_task_ready_tasks same_tasks_trans by blast
    qed (use Cons.prems in \<open>auto intro: same_tasks_eq\<close>)
  qed (auto intro: same_tasks_eq)
  then show "finish_sleep s now = Inr s' \<Longrightarrow> same_tasks s s'" by (simp add: finish_sleep_def)
qed

lemma exit_tasks: "exit_current_task s = Inr s' \<Longrightarrow> same_tasks s s'"
  by (auto simp: exit_current_task_def get_current_task_id_def index_def tasks_simps split: option.splits if_splits)

lemma requeue_tasks:
  assumes "requeue_current s = Inr s'"
  shows "same_tasks s s'"
proof (cases "\<exists>cur tcb. current_task_id s = Some cur \<and> task_list s ! cur = Some tcb \<and> tcb_status tcb = Running")
  case True
  then obtain cur tcb where t: "current_task_id s = Some cur" "task_list s ! cur = Some tcb" "tcb_status tcb = Running" by blast
  with assms have i: "cur < length (task_list s)" and s': "task_list s' = set_status (task_list s) cur tcb Ready"
    by (auto simp: requeue_current_def index_def split: if_splits)
  show ?thesis by (rule same_tasks_status [OF i t(2) s'])
next
  case False
  have "s' = s"
  proof (cases "current_task_id s")
    case (Some cur)
    then show ?thesis using False assms
      by (cases "task_list s ! cur") (simp_all add: requeue_current_def index_def split: if_splits)
  qed (use assms in \<open>simp add: requeue_current_def\<close>)
  then show ?thesis by (simp add: same_tasks_eq)
qed

text \<open>Reaping removes exited tasks and touches no other context.\<close>

definition fewer_tasks :: "nat set \<Rightarrow> scheduler \<Rightarrow> scheduler \<Rightarrow> bool" where
  "fewer_tasks Z s s' \<longleftrightarrow> length (task_list s') = length (task_list s)
     \<and> (\<forall>i. task_ctx s' i = task_ctx s i \<or> i \<in> Z \<and> task_ctx s' i = None)"

lemma fewer_tasks_trans: "fewer_tasks Z s s1 \<Longrightarrow> same_tasks s1 s2 \<Longrightarrow> fewer_tasks Z s s2"
  by (simp add: fewer_tasks_def same_tasks_def)

lemma task_ctx_zombies [simp]: "task_ctx (s\<lparr>zombie_queue := zs\<rparr>) = task_ctx s"
  by (simp add: task_ctx_def fun_eq_iff)

lemma reap_tasks:
  "reap z (s, b) = Inr (s', b') \<Longrightarrow> fewer_tasks {z} s s' \<and> zombie_queue s' = zombie_queue s \<and> current_task_id s' = current_task_id s"
  by (auto simp: reap_def Let_def fewer_tasks_def task_ctx_def nth_list_update split: option.splits if_splits)

abbreviation reapable :: "scheduler \<Rightarrow> nat set" where
  "reapable s \<equiv> set (zombie_queue s) - set_option (current_task_id s)"

lemma reap_loop_tasks: "reap_loop n (s, b) = Inr (s', b') \<Longrightarrow> fewer_tasks (reapable s) s s'"
proof (induction n arbitrary: s b)
  case 0
  then show ?case by (simp add: fewer_tasks_def)
next
  case (Suc n)
  show ?case
  proof (cases "zombie_queue s" rule: rev_cases)
    case Nil
    then show ?thesis using Suc.IH [of s b] Suc.prems by simp
  next
    case (snoc zs z)
    show ?thesis
    proof (cases "Some z = current_task_id s")
      case True
      with Suc.prems snoc show ?thesis by (simp add: fewer_tasks_def)
    next
      case False
      with Suc.prems snoc obtain s1 b1 where s1: "reap z (s\<lparr>zombie_queue := zs\<rparr>, b) = Inr (s1, b1)" "reap_loop n (s1, b1) = Inr (s', b')"
        by auto
      note r = reap_tasks [OF s1(1)] and l = Suc.IH [OF s1(2)]
      have a: "length (task_list s') = length (task_list s)" using r l by (simp add: fewer_tasks_def)
      have "task_ctx s' i = task_ctx s i \<or> i \<in> reapable s \<and> task_ctx s' i = None" for i
      proof -
        have "task_ctx s' i = task_ctx s1 i \<or> i \<in> set zs - set_option (current_task_id s) \<and> task_ctx s' i = None"
          using l r unfolding fewer_tasks_def by simp
        moreover have "task_ctx s1 i = task_ctx s i \<or> i = z \<and> task_ctx s1 i = None"
          using r unfolding fewer_tasks_def by simp
        ultimately show ?thesis using snoc False by auto
      qed
      with a show ?thesis by (simp add: fewer_tasks_def)
    qed
  qed
qed

lemma prepare_tasks:
  assumes "prepare_next_task (s, b) = Inr (n, (s', b'))"
  shows "fewer_tasks (reapable s) s s'"
proof -
  from assms obtain s1 b1 s2 where p: "reap_loop (length (zombie_queue s)) (s, b) = Inr (s1, b1)"
    "requeue_current s1 = Inr s2" "run_next s2 = Inr (n, s')"
    by (auto simp: prepare_next_task_def)
  from reap_loop_tasks [OF p(1)] same_tasks_trans [OF requeue_tasks [OF p(2)] run_next_tasks [OF p(3)]]
  show ?thesis by (rule fewer_tasks_trans)
qed

section \<open>Safety of the handlers\<close>

lemma resume_ok:
  assumes "sched_ok F0 others (s, b)" and "current_task_id s = Some n" and "status_of (task_list s) n = Some Running"
    and "rb_inv 4096 (receive_buffer k)" "rb_inv 4096 (transmit_buffer k)" "\<forall>i \<in> set (wait_queue k). i < length (task_list s)"
    and "k_sched k = s" "k_buddy k = b"
  shows "returns_ok F0 others (resume_task n k)"
proof -
  let ?k = "k\<lparr>sscratch := Task_ctx n\<rparr>"
  have ok: "kernel_ok F0 others ?k" using assms by (simp add: kernel_ok_def uart_ok_def scratch_ok_def)
  then obtain c where c: "get_ctx ?k (Task_ctx n) = Inr c" using scratch_ctx [of ?k] by (auto simp: kernel_ok_def)
  then have "resume_task n k = Inr (ctx_sepc c, ?k)" by (simp add: resume_task_def get_ctx_def)
  with ok c show ?thesis by (auto simp: returns_ok_def)
qed

lemma uart_ok_mono: "uart_ok k \<Longrightarrow> length (task_list (k_sched k)) = length (task_list s) \<Longrightarrow>
    rb_inv 4096 (receive_buffer k) \<and> rb_inv 4096 (transmit_buffer k) \<and> (\<forall>i \<in> set (wait_queue k). i < length (task_list s))"
  by (simp add: uart_ok_def)

lemma schedule_on_interrupt_ok:
  assumes "sched_ok F0 others (k_sched k, k_buddy k)" and "uart_ok k"
  shows "returns_ok F0 others (schedule_on_interrupt k)"
proof -
  obtain n s b where p: "prepare_next_task (k_sched k, k_buddy k) = Inr (n, (s, b))" "sched_ok F0 others (s, b)"
    "current_task_id s = Some n" "status_of (task_list s) n = Some Running" "length (task_list s) = length (task_list (k_sched k))"
    by (rule prepare_next_ok [OF assms(1)])
  have "returns_ok F0 others (resume_task n (k\<lparr>k_sched := s, k_buddy := b\<rparr>))"
    using uart_ok_mono [OF assms(2), of s] p(5) by (intro resume_ok [OF p(2-4)]) simp_all
  then show ?thesis using p(1) by (simp add: schedule_on_interrupt_def)
qed

lemma timer_handler_ok:
  assumes "kernel_ok F0 others k"
  shows "returns_ok F0 others (timer_handler env k)"
proof -
  have ok: "sched_ok F0 others (k_sched k, k_buddy k)" "uart_ok k" using assms by (simp_all add: kernel_ok_def)
  then have sl: "sleepers_ok (blocked_queue (k_sched k)) (length (task_list (k_sched k)))" by (simp add: sched_ok_def sched_inv_def)
  obtain s where s: "finish_sleep (k_sched k) (env_time env) = Inr s" "sched_ok F0 others (s, k_buddy k)"
    "length (task_list s) = length (task_list (k_sched k))"
    using finish_sleep_loop_ok [OF ok(1) sl, of "env_time env"] unfolding finish_sleep_def wakes_def by blast
  let ?k1 = "set_next_timer_tick env (k\<lparr>k_sched := s\<rparr>)"
  have "returns_ok F0 others (schedule_on_interrupt ?k1)"
    using s ok(2) by (intro schedule_on_interrupt_ok) (simp_all add: set_next_timer_tick_def uart_ok_def)
  then show ?thesis using s(1) by (simp add: timer_handler_def)
qed

text \<open>Blocking calls: the running task gives up the hart.\<close>

lemma sleep_resume_ok:
  assumes "kernel_ok F0 others k" and "user_running (k_sched k)"
  shows "returns_ok F0 others (rbind (set_current_task_sleep (k_sched k) w) (\<lambda>(n, s). resume_task n (k\<lparr>k_sched := s\<rparr>)))"
proof -
  have ok: "sched_ok F0 others (k_sched k, k_buddy k)" "uart_ok k" using assms(1) by (simp_all add: kernel_ok_def)
  obtain cur where cur: "current_task_id (k_sched k) = Some cur" "status_of (task_list (k_sched k)) cur = Some Running" "cur \<noteq> 0"
    by (rule user_running_cases [OF assms(2)])
  obtain n s where s: "set_current_task_sleep (k_sched k) w = Inr (n, s)" "sched_ok F0 others (s, k_buddy k)"
    "current_task_id s = Some n" "status_of (task_list s) = (status_of (task_list (k_sched k)))(cur := Some Blocked, n := Some Running)"
    by (rule sleep_ok [OF ok(1) cur])
  have "length (task_list s) = length (task_list (k_sched k))" using sleep_tasks [OF s(1)] by (simp add: same_tasks_def)
  then have "returns_ok F0 others (resume_task n (k\<lparr>k_sched := s\<rparr>))"
    using uart_ok_mono [OF ok(2), of s] s(4) by (intro resume_ok [OF s(2,3)]) simp_all
  then show ?thesis using s(1) by simp
qed

lemma block_resume_ok:
  assumes "kernel_ok F0 others k" and "user_running (k_sched k)"
  shows "returns_ok F0 others (rbind (block_current_task (k_sched k)) (\<lambda>(n, s). resume_task n (k\<lparr>k_sched := s\<rparr>)))"
proof -
  have ok: "sched_ok F0 others (k_sched k, k_buddy k)" "uart_ok k" using assms(1) by (simp_all add: kernel_ok_def)
  obtain cur where cur: "current_task_id (k_sched k) = Some cur" "status_of (task_list (k_sched k)) cur = Some Running" "cur \<noteq> 0"
    by (rule user_running_cases [OF assms(2)])
  obtain n s where s: "block_current_task (k_sched k) = Inr (n, s)" "sched_ok F0 others (s, k_buddy k)"
    "current_task_id s = Some n" "status_of (task_list s) = (status_of (task_list (k_sched k)))(cur := Some Blocked, n := Some Running)"
    by (rule block_ok [OF ok(1) cur])
  have "length (task_list s) = length (task_list (k_sched k))" using block_tasks [OF s(1)] by (simp add: same_tasks_def)
  then have "returns_ok F0 others (resume_task n (k\<lparr>k_sched := s\<rparr>))"
    using uart_ok_mono [OF ok(2), of s] s(4) by (intro resume_ok [OF s(2,3)]) simp_all
  then show ?thesis using s(1) by simp
qed

lemma user_running_set_ctx [simp]: "user_running (k_sched (set_ctx k p c)) = user_running (k_sched k)"
  by (simp add: user_running_def split: option.splits)

lemma uart_ok_set_ctx [simp]: "uart_ok (set_ctx k p c) = uart_ok k"
  by (simp add: uart_ok_def)

lemma schedule_ok:
  assumes "sched_ok F0 others (k_sched k, k_buddy k)" and "uart_ok k" and "get_ctx k p = Inr c"
  shows "returns_ok F0 others (schedule p k)"
proof -
  have "returns_ok F0 others (schedule_on_interrupt (set_ctx k p (c\<lparr>ctx_sepc := ctx_sepc c + 4\<rparr>)))"
    by (rule schedule_on_interrupt_ok) (use set_ctx_ok [OF assms(1)] assms(2) in simp_all)
  then show ?thesis using assms(3) by (simp add: schedule_def step_sepc_def Let_def)
qed

lemma return_ok:
  assumes "kernel_ok F0 others k" and "ctx_sepc c' = ctx_sepc c"
  shows "returns_ok F0 others (Inr (ctx_sepc c, set_ctx k (sscratch k) c'))"
proof -
  obtain c0 where "get_ctx k (sscratch k) = Inr c0" using assms(1) scratch_ctx by (auto simp: kernel_ok_def)
  then have "get_ctx (set_ctx k (sscratch k) c') (sscratch k) = Inr c'" by (rule get_set_ctx(1))
  with assms show ?thesis by (simp add: returns_ok_def)
qed

lemma uart_write_byte_ok:
  assumes "kernel_ok F0 others k"
  shows "returns_ok F0 others (uart_write_byte (sscratch k) k)"
proof -
  obtain c where s: "step_sepc k (sscratch k) = Inr (c\<lparr>ctx_sepc := ctx_sepc c + 4\<rparr>, set_ctx k (sscratch k) (c\<lparr>ctx_sepc := ctx_sepc c + 4\<rparr>))"
    by (rule step_sepc_ok [OF assms])
  let ?c = "c\<lparr>ctx_sepc := ctx_sepc c + 4\<rparr>"
  let ?k = "emit (set_ctx k (sscratch k) ?c) (Console_putchar (ucast (ctx_a0 ?c AND 0xFF)))"
  have "returns_ok F0 others (Inr (ctx_sepc ?c, set_ctx ?k (sscratch ?k) (?c\<lparr>ctx_a0 := 0\<rparr>)))"
    by (rule return_ok) (use assms in simp_all)
  then show ?thesis using s by (simp add: uart_write_byte_def)
qed

lemma sleep_call_ok:
  assumes "kernel_ok F0 others k" and "user_running (k_sched k)"
  shows "returns_ok F0 others (sleep env (sscratch k) k)"
proof -
  obtain c where s: "step_sepc k (sscratch k) = Inr (c\<lparr>ctx_sepc := ctx_sepc c + 4\<rparr>, set_ctx k (sscratch k) (c\<lparr>ctx_sepc := ctx_sepc c + 4\<rparr>))"
    by (rule step_sepc_ok [OF assms(1)])
  let ?k = "set_ctx k (sscratch k) (c\<lparr>ctx_sepc := ctx_sepc c + 4\<rparr>)"
  have "kernel_ok F0 others ?k" "user_running (k_sched ?k)" using assms by simp_all
  from sleep_resume_ok [OF this] show ?thesis unfolding sleep_def s by (simp add: Let_def)
qed

lemma exit_task_ok:
  assumes "kernel_ok F0 others k" and "user_running (k_sched k)"
  shows "returns_ok F0 others (exit_task (sscratch k) k)"
proof -
  have ok: "sched_ok F0 others (k_sched k, k_buddy k)" "uart_ok k" "scratch_ok k" using assms(1) by (simp_all add: kernel_ok_def)
  obtain cur where cur: "current_task_id (k_sched k) = Some cur" "status_of (task_list (k_sched k)) cur = Some Running" "cur \<noteq> 0"
    by (rule user_running_cases [OF assms(2)])
  obtain s where s: "exit_current_task (k_sched k) = Inr s" "sched_ok F0 others (s, k_buddy k)" by (rule exit_ok [OF ok(1) cur])
  note st = exit_tasks [OF s(1), unfolded same_tasks_def]
  obtain c where "get_ctx k (sscratch k) = Inr c" using scratch_ctx [OF ok(3)] by blast
  then have "get_ctx (k\<lparr>k_sched := s\<rparr>) (sscratch k) = Inr c" using st by (simp add: get_ctx_def split: ctx_ptr.splits)
  then have "returns_ok F0 others (schedule (sscratch k) (k\<lparr>k_sched := s\<rparr>))"
    using s(2) ok(2) st by (intro schedule_ok) (simp_all add: uart_ok_def)
  then show ?thesis using s(1) by (simp add: exit_task_def)
qed

text \<open>The three outcomes of \<open>uart_read\<close>; the second test of the buffer never succeeds, since nothing runs in between.\<close>

lemma uart_read_cases:
  assumes "kernel_ok F0 others k" and "get_ctx k (sscratch k) = Inr c" and "c1 = c\<lparr>ctx_sepc := ctx_sepc c + 4\<rparr>"
    and "k1 = set_ctx k (sscratch k) c1"
  obtains (char) ch rest rb where "rb_list 4096 (receive_buffer k) = ch # rest" "rb_inv 4096 rb" "rb_list 4096 rb = rest"
      "uart_read env (sscratch k) k = return_char (sscratch k) c1 ch (k1\<lparr>receive_buffer := rb\<rparr>)"
  | (none) "rb_list 4096 (receive_buffer k) = []" "ctx_a0 c = 0"
      "uart_read env (sscratch k) k = Inr (ctx_sepc c1, set_ctx k1 (sscratch k) (c1\<lparr>ctx_a0 := USIZE_MAX\<rparr>))"
  | (wait) k3 where "rb_list 4096 (receive_buffer k) = []" "ctx_a0 c \<noteq> 0"
      "current_task_id (k_sched k) = None \<longrightarrow> uart_read env (sscratch k) k = Inl Unwrap_none"
      "\<And>cur. current_task_id (k_sched k) = Some cur \<Longrightarrow>
         k3 = set_ctx (k1\<lparr>wait_queue := wait_queue k @ [cur]\<rparr>) (sscratch k) (c1\<lparr>ctx_a0 := USIZE_MAX\<rparr>)
         \<and> uart_read env (sscratch k) k = (if ctx_a0 c < USIZE_MAX
             then rbind (set_current_task_sleep (k_sched k3) (env_time env + ctx_a0 c * ONE_MS_CYCLES)) (\<lambda>(n, s). resume_task n (k3\<lparr>k_sched := s\<rparr>))
             else rbind (block_current_task (k_sched k3)) (\<lambda>(n, s). resume_task n (k3\<lparr>k_sched := s\<rparr>)))"
proof -
  have inv: "rb_inv 4096 (receive_buffer k)" using assms(1) by (simp add: kernel_ok_def uart_ok_def)
  have s: "step_sepc k (sscratch k) = Inr (c1, k1)" using assms(2-4) by (simp add: step_sepc_def Let_def)
  have a0: "ctx_a0 c1 = ctx_a0 c" using assms(3) by simp
  have rb: "receive_buffer k1 = receive_buffer k" "wait_queue k1 = wait_queue k" "current_task_id (k_sched k1) = current_task_id (k_sched k)"
    using assms(4) by simp_all
  show thesis
  proof (cases "rb_list 4096 (receive_buffer k)")
    case (Cons ch rest)
    from uart_buf.pop_ok [OF inv Cons] obtain q where q: "rb_pop 4096 (receive_buffer k) = Inr (Some ch, q)" "rb_inv 4096 q" "rb_list 4096 q = rest"
      by blast
    have "uart_read env (sscratch k) k = return_char (sscratch k) c1 ch (k1\<lparr>receive_buffer := q\<rparr>)"
      unfolding uart_read_def s using q(1) rb(1) by (simp add: Let_def)
    then show thesis using char Cons q(2,3) by blast
  next
    case Nil
    then have pop: "rb_pop 4096 (receive_buffer k) = Inr (None, receive_buffer k)" and em: "rb_is_empty (receive_buffer k)"
      using uart_buf.pop_empty [OF inv] uart_buf.is_empty_iff [OF inv] by simp_all
    have same: "k1\<lparr>receive_buffer := receive_buffer k\<rparr> = k1" using rb(1) by simp
    show thesis
    proof (cases "ctx_a0 c = 0")
      case True
      then have "uart_read env (sscratch k) k = Inr (ctx_sepc c1, set_ctx k1 (sscratch k) (c1\<lparr>ctx_a0 := USIZE_MAX\<rparr>))"
        unfolding uart_read_def s using pop rb(1) a0 by (simp add: Let_def same)
      then show thesis using none Nil True by blast
    next
      case False
      show thesis
      proof (cases "current_task_id (k_sched k)")
        case None
        then have "uart_read env (sscratch k) k = Inl Unwrap_none"
          unfolding uart_read_def s using pop rb False a0 by (simp add: Let_def get_current_task_id_def)
        then show thesis using wait [of k] Nil False None by simp
      next
        case (Some cur)
        let ?k2 = "k1\<lparr>receive_buffer := receive_buffer k, wait_queue := wait_queue k @ [cur]\<rparr>"
        have k2: "?k2 = k1\<lparr>wait_queue := wait_queue k @ [cur]\<rparr>" using rb(1) by simp
        let ?k3 = "set_ctx (k1\<lparr>wait_queue := wait_queue k @ [cur]\<rparr>) (sscratch k) (c1\<lparr>ctx_a0 := USIZE_MAX\<rparr>)"
        have "uart_read env (sscratch k) k = (if ctx_a0 c < USIZE_MAX
             then rbind (set_current_task_sleep (k_sched ?k3) (env_time env + ctx_a0 c * ONE_MS_CYCLES)) (\<lambda>(n, s). resume_task n (?k3\<lparr>k_sched := s\<rparr>))
             else rbind (block_current_task (k_sched ?k3)) (\<lambda>(n, s). resume_task n (?k3\<lparr>k_sched := s\<rparr>)))"
          unfolding uart_read_def s using pop rb False a0 em Some by (simp add: Let_def get_current_task_id_def k2)
        then show thesis using wait [of ?k3] Nil False Some by simp
      qed
    qed
  qed
qed

end
