(* ===== verification/Trap_Safety.thy ===== *)
theory Trap_Safety
  imports Trap
begin

text \<open>
  What the trap handler of \<open>src/trap/mod.rs\<close> guarantees: from a kernel state that satisfies the invariant every trap
  is handled without a fault, the invariant holds again and the returned address is the \<open>sepc\<close> of the context that
  \<open>sscratch\<close> selects; contexts of other tasks stay as they were; characters that arrive from the UART are delivered
  once and in order.
\<close>

section \<open>Interrupt handlers keep the invariant\<close>

lemma wait_queue_bound: "kernel_ok F0 others k \<Longrightarrow> i \<in> set (wait_queue k) \<Longrightarrow> i < length (task_list (k_sched k))"
  by (simp add: kernel_ok_def uart_ok_def)

lemma kernel_ok_cong:
  assumes "kernel_ok F0 others k" and "k_sched k' = k_sched k" "k_buddy k' = k_buddy k" "sscratch k' = sscratch k" and "uart_ok k'"
  shows "kernel_ok F0 others k'"
  using assms by (simp add: kernel_ok_def scratch_ok_def split: ctx_ptr.splits)

lemma uart_read_ok:
  assumes "kernel_ok F0 others k" and "user_running (k_sched k)"
  shows "returns_ok F0 others (uart_read env (sscratch k) k)"
proof -
  obtain c where c: "get_ctx k (sscratch k) = Inr c" using step_sepc_ok [OF assms(1)] by metis
  define c1 where "c1 = c\<lparr>ctx_sepc := ctx_sepc c + 4\<rparr>"
  define k1 where "k1 = set_ctx k (sscratch k) c1"
  have k1: "kernel_ok F0 others k1" "sscratch k1 = sscratch k" using assms(1) by (simp_all add: k1_def)
  obtain cur where cur: "current_task_id (k_sched k) = Some cur" "status_of (task_list (k_sched k)) cur = Some Running"
    by (rule user_running_cases [OF assms(2)])
  from assms(1) c c1_def k1_def show ?thesis
  proof (cases rule: uart_read_cases [where env = env, case_names char none wait])
    case (char ch rest rb)
    have "kernel_ok F0 others (k1\<lparr>receive_buffer := rb\<rparr>)"
      by (rule kernel_ok_cong [OF k1(1)]) (use k1(1) char(2) in \<open>simp_all add: kernel_ok_def uart_ok_def\<close>)
    from return_ok [OF this, of "c1\<lparr>ctx_a0 := (if ch \<ge> 0x80 then USIZE_MAX else ucast ch)\<rparr>" c1] show ?thesis
      unfolding char(4) return_char_def using k1(2) by simp
  next
    case none
    from return_ok [OF k1(1), of "c1\<lparr>ctx_a0 := USIZE_MAX\<rparr>" c1] show ?thesis unfolding none(3) using k1(2) by simp
  next
    case (wait k3)
    note w = wait(4) [OF cur(1)]
    have "cur < length (task_list (k_sched k1))"
      using cur(2) by (simp add: k1_def status_of_def split: if_splits)
    then have "kernel_ok F0 others (k1\<lparr>wait_queue := wait_queue k @ [cur]\<rparr>)"
      by (intro kernel_ok_cong [OF k1(1)]) (use k1(1) wait_queue_bound [OF assms(1)] in \<open>simp_all add: kernel_ok_def uart_ok_def k1_def\<close>)
    then have k3: "kernel_ok F0 others k3" using w by simp
    have "user_running (k_sched k3)" using assms(2) w by (simp add: k1_def)
    with k3 show ?thesis using w sleep_resume_ok [OF k3] block_resume_ok [OF k3] by simp
  qed
qed

lemma send_data_ok:
  assumes "kernel_ok F0 others k"
  obtains tr k' where "send_data env k = Inr k'" "kernel_ok F0 others k'" "rb_inv 4096 tr"
    "rb_list 4096 tr = drop 16 (rb_list 4096 (transmit_buffer k))"
    "k' = k\<lparr>transmit_buffer := tr, dev_log := dev_log k @ map Thr_write (take 16 (rb_list 4096 (transmit_buffer k)))
        @ (if drop 16 (rb_list 4096 (transmit_buffer k)) = [] then [Ier_write (env_ier env AND NOT 2)] else [])\<rparr>"
proof -
  let ?xs = "rb_list 4096 (transmit_buffer k)"
  have inv: "rb_inv 4096 (transmit_buffer k)" using assms by (simp add: kernel_ok_def uart_ok_def)
  from uart_buf.pop_upto_take [OF this, of 16] obtain tr where
    tr: "pop_upto (rb_pop 4096) 16 (transmit_buffer k) = Inr (take 16 ?xs, tr)" "rb_inv 4096 tr" "rb_list 4096 tr = drop 16 ?xs" by blast
  let ?k' = "k\<lparr>transmit_buffer := tr, dev_log := dev_log k @ map Thr_write (take 16 ?xs) @ (if drop 16 ?xs = [] then [Ier_write (env_ier env AND NOT 2)] else [])\<rparr>"
  have e: "rb_is_empty tr \<longleftrightarrow> drop 16 ?xs = []" using uart_buf.is_empty_iff [OF tr(2)] tr(3) by simp
  have "send_data env k = Inr ?k'" unfolding send_data_def UART_FIFO_CAPACITY_def tr(1) using e by (simp add: Let_def emit_def)
  moreover have "kernel_ok F0 others ?k'"
    by (rule kernel_ok_cong [OF assms]) (use assms tr(2) in \<open>simp_all add: kernel_ok_def uart_ok_def\<close>)
  ultimately show thesis using tr(2,3) that by blast
qed

context bounded_fifo
begin

lemma push_take:
  assumes "invar q"
  shows "\<exists>r q'. push q x = Inr (r, q') \<and> invar q' \<and> contents q' = take cap (contents q @ [x])"
proof (cases rule: push_cases [OF assms, of x, case_names ok full])
  case (ok q')
  then show ?thesis by auto
next
  case full
  then show ?thesis using assms by auto
qed

end

lemma receive_char_cases:
  assumes "kernel_ok F0 others k"
  obtains (drop) "ch \<ge> 0x80" "receive_char ch k = Inr k"
  | (store) rb where "ch < 0x80" "wait_queue k = []" "receive_char ch k = Inr (k\<lparr>receive_buffer := rb\<rparr>)"
      "rb_inv 4096 rb" "rb_list 4096 rb = take 4096 (rb_list 4096 (receive_buffer k) @ [ch])"
  | (wake) q i s where "ch < 0x80" "wait_queue k = q @ [i]" "wake_up_task_with_result (k_sched k) i ch = Inr s"
      "receive_char ch k = Inr (k\<lparr>wait_queue := q, k_sched := s\<rparr>)"
proof -
  have inv: "rb_inv 4096 (receive_buffer k)" using assms by (simp add: kernel_ok_def uart_ok_def)
  show thesis
  proof (cases "ch \<ge> 0x80")
    case False
    show thesis
    proof (cases "wait_queue k" rule: rev_cases)
      case Nil
      obtain r rb where rb: "rb_push 4096 (receive_buffer k) ch = Inr (r, rb)" "rb_inv 4096 rb"
        "rb_list 4096 rb = take 4096 (rb_list 4096 (receive_buffer k) @ [ch])" using uart_buf.push_take [OF inv] by blast
      have "receive_char ch k = Inr (k\<lparr>receive_buffer := rb\<rparr>)" using False Nil rb(1) by (simp add: receive_char_def)
      with store False Nil rb(2,3) show thesis by simp
    next
      case (snoc q i)
      have i: "i < length (task_list (k_sched k))" using wait_queue_bound [OF assms] snoc by simp
      have ok: "sched_ok F0 others (k_sched k, k_buddy k)" using assms by (simp add: kernel_ok_def)
      obtain s where s: "wake_up_task_with_result (k_sched k) i ch = Inr s" by (rule wake_up_ok [OF ok i])
      then have "receive_char ch k = Inr (k\<lparr>wait_queue := q, k_sched := s\<rparr>)" using False snoc by (simp add: receive_char_def)
      with wake False snoc s show thesis by simp
    qed
  qed (use drop in \<open>simp add: receive_char_def\<close>)
qed

lemma wake_kernel_ok:
  assumes "kernel_ok F0 others k" and "wait_queue k = q @ [i]" and "wake_up_task_with_result (k_sched k) i ch = Inr s"
  shows "kernel_ok F0 others (k\<lparr>wait_queue := q, k_sched := s\<rparr>)"
proof -
  have ok: "sched_ok F0 others (k_sched k, k_buddy k)" "scratch_ok k" "uart_ok k" using assms(1) by (simp_all add: kernel_ok_def)
  have "i < length (task_list (k_sched k))" using wait_queue_bound [OF assms(1)] assms(2) by simp
  then obtain s' where s': "wake_up_task_with_result (k_sched k) i ch = Inr s'" "sched_ok F0 others (s', k_buddy k)"
    and w': "wakes (k_sched k) s' (if status_of (task_list (k_sched k)) i = Some Blocked then [i] else [])"
    by (rule wake_up_ok [OF ok(1)])
  have "s' = s" using s'(1) assms(3) by simp
  note s = s'(2) [unfolded this] and w = w' [unfolded this]
  have st: "status_of (task_list s) j = Some Running" if "status_of (task_list (k_sched k)) j = Some Running" for j
    using w that unfolding wakes_def by (cases "status_of (task_list (k_sched k)) i = Some Blocked") auto
  have c: "current_task_id s = current_task_id (k_sched k)" and l: "length (task_list s) = length (task_list (k_sched k))"
    using w by (simp_all add: wakes_def)
  have "scratch_ok (k\<lparr>wait_queue := q, k_sched := s\<rparr>)"
  proof (cases "sscratch k")
    case (Task_ctx j)
    then show ?thesis using ok(2) c st [of j] by (simp add: scratch_ok_def)
  qed (use ok(2) c in \<open>simp add: scratch_ok_def\<close>)
  moreover have "uart_ok (k\<lparr>wait_queue := q, k_sched := s\<rparr>)" using ok(3) l assms(2) by (simp add: uart_ok_def)
  ultimately show ?thesis using s by (simp add: kernel_ok_def)
qed

lemma receive_char_ok:
  assumes "kernel_ok F0 others k"
  obtains k' where "receive_char ch k = Inr k'" "kernel_ok F0 others k'" "sscratch k' = sscratch k"
proof (cases rule: receive_char_cases [OF assms, of ch, case_names drop store wake])
  case drop
  then show thesis using that assms by blast
next
  case (store rb)
  have "kernel_ok F0 others (k\<lparr>receive_buffer := rb\<rparr>)"
    by (rule kernel_ok_cong [OF assms]) (use assms store(4) in \<open>simp_all add: kernel_ok_def uart_ok_def\<close>)
  then show thesis using that store(3) by simp
next
  case (wake q i s)
  then show thesis using that wake_kernel_ok [OF assms wake(2,3)] by simp
qed

lemma uart_interrupt_handler_ok:
  assumes "kernel_ok F0 others k"
  obtains k' where "uart_interrupt_handler env k = Inr k'" "kernel_ok F0 others k'" "sscratch k' = sscratch k"
proof -
  obtain k1 where k1: "send_data env k = Inr k1" "kernel_ok F0 others k1" "sscratch k1 = sscratch k"
    by (rule send_data_ok [OF assms, of env]) simp
  obtain k2 where k2: "receive_char (env_rhr env) k = Inr k2" "kernel_ok F0 others k2" "sscratch k2 = sscratch k"
    by (rule receive_char_ok [OF assms])
  have "\<exists>k'. uart_interrupt_handler env k = Inr k' \<and> kernel_ok F0 others k' \<and> sscratch k' = sscratch k"
    using k1 k2 assms by (simp add: uart_interrupt_handler_def Let_def)
  then show thesis using that by blast
qed

lemma plic_handler_ok:
  assumes "kernel_ok F0 others k"
  obtains k' where "plic_handler env k = Inr k'" "kernel_ok F0 others k'" "sscratch k' = sscratch k"
proof -
  obtain k1 where k1: "uart_interrupt_handler env k = Inr k1" "kernel_ok F0 others k1" "sscratch k1 = sscratch k"
    by (rule uart_interrupt_handler_ok [OF assms])
  have "\<exists>k'. plic_handler env k = Inr k' \<and> kernel_ok F0 others k' \<and> sscratch k' = sscratch k"
    using k1 assms by (cases "num_to_irq (env_irq env)") (simp_all add: plic_handler_def Let_def)
  then show thesis using that by blast
qed

lemma return_here_ok:
  assumes "kernel_ok F0 others k"
  shows "returns_ok F0 others (rbind (get_ctx k (sscratch k)) (\<lambda>c. Inr (ctx_sepc c, k)))"
  using scratch_ctx [of k] assms by (auto simp: returns_ok_def kernel_ok_def)

lemma syscall_ok:
  assumes "kernel_ok F0 others k" and "user_running (k_sched k)" and "get_ctx k (sscratch k) = Inr c" and "ctx_a7 c \<noteq> 10"
  shows "returns_ok F0 others (syscall env (sscratch k) k)"
proof -
  have ok: "sched_ok F0 others (k_sched k, k_buddy k)" "uart_ok k" using assms(1) by (simp_all add: kernel_ok_def)
  have other: "returns_ok F0 others (Inr (ctx_sepc c, k))" using return_here_ok [OF assms(1)] assms(3) by simp
  show ?thesis unfolding syscall_def assms(3) Let_def
    using assms(4) uart_write_byte_ok [OF assms(1)] schedule_ok [OF ok assms(3)] exit_task_ok [OF assms(1,2)]
      sleep_call_ok [OF assms(1,2)] uart_read_ok [OF assms(1,2)] other by simp
qed

lemma trap_handler_ok:
  assumes "kernel_ok F0 others k" and "get_ctx k (sscratch k) = Inr c"
    and "parse_trap_cause scause = Exception UserEcall \<Longrightarrow> user_running (k_sched k) \<and> ctx_a7 c \<noteq> 10"
  shows "returns_ok F0 others (trap_handler env (sscratch k) scause k)"
proof (cases "parse_trap_cause scause")
  case (Interrupt i)
  obtain k1 where k1: "plic_handler env k = Inr k1" "kernel_ok F0 others k1" "sscratch k1 = sscratch k"
    by (rule plic_handler_ok [OF assms(1)])
  have "returns_ok F0 others (rbind (get_ctx k1 (sscratch k)) (\<lambda>c. Inr (ctx_sepc c, k1)))"
    using return_here_ok [OF k1(2)] k1(3) by simp
  with Interrupt k1(1) timer_handler_ok [OF assms(1)] return_here_ok [OF assms(1)] show ?thesis
    by (cases i) (simp_all add: trap_handler_def)
next
  case (Exception e)
  with syscall_ok [OF assms(1) _ assms(2)] assms(3) return_here_ok [OF assms(1)] show ?thesis
    by (cases e) (simp_all add: trap_handler_def)
qed

section \<open>Isolation\<close>

text \<open>\<open>caller_only p s s'\<close>: of the context \<open>p\<close> only \<open>sepc\<close>, stepped over the \<open>ecall\<close>, and \<open>a0\<close> change; tasks that have exited may be
  gone; every other context is as before.\<close>

definition caller_only :: "ctx_ptr \<Rightarrow> scheduler \<Rightarrow> scheduler \<Rightarrow> bool" where
  "caller_only p s s' \<longleftrightarrow> (\<forall>i. task_ctx s' i = task_ctx s i
     \<or> i \<in> reapable s \<and> task_ctx s' i = None
     \<or> p = Task_ctx i \<and> (\<exists>c r. task_ctx s i = Some c \<and> task_ctx s' i = Some (c\<lparr>ctx_sepc := ctx_sepc c + 4, ctx_a0 := r\<rparr>)))"

lemma caller_only_refl: "task_ctx s' = task_ctx s \<Longrightarrow> caller_only p s s'"
  by (simp add: caller_only_def)

lemma caller_only_fewer:
  assumes "caller_only p s s1" and "fewer_tasks Z s1 s2" and "Z \<subseteq> reapable s"
  shows "caller_only p s s2"
  unfolding caller_only_def
proof
  fix i
  have "task_ctx s2 i = task_ctx s1 i \<or> i \<in> reapable s \<and> task_ctx s2 i = None"
    using assms(2,3) unfolding fewer_tasks_def by blast
  then show "task_ctx s2 i = task_ctx s i \<or> i \<in> reapable s \<and> task_ctx s2 i = None
     \<or> p = Task_ctx i \<and> (\<exists>c r. task_ctx s i = Some c \<and> task_ctx s2 i = Some (c\<lparr>ctx_sepc := ctx_sepc c + 4, ctx_a0 := r\<rparr>))"
    using assms(1) unfolding caller_only_def by metis
qed

lemma caller_only_same: "caller_only p s s1 \<Longrightarrow> same_tasks s1 s2 \<Longrightarrow> caller_only p s s2"
  by (simp add: caller_only_def same_tasks_def)

lemma task_ctx_set_ctx:
  assumes "get_ctx k p = Inr c"
  shows "task_ctx (k_sched (set_ctx k p c')) i = (if p = Task_ctx i then Some c' else task_ctx (k_sched k) i)"
proof (cases p)
  case (Task_ctx j)
  then have "task_ctx (k_sched k) j = Some c" using assms by (simp add: get_ctx_def split: option.splits)
  then have "j < length (task_list (k_sched k))" "task_list (k_sched k) ! j \<noteq> None" by (auto simp: task_ctx_def split: if_splits)
  then show ?thesis using Task_ctx by (auto simp: set_ctx_def task_ctx_def)
qed (simp add: set_ctx_def)

lemma get_ctx_task: "get_ctx k (Task_ctx i) = Inr c \<Longrightarrow> task_ctx (k_sched k) i = Some c"
  by (simp add: get_ctx_def split: option.splits)

lemma caller_only_set_ctx:
  assumes "get_ctx k p = Inr c" and "task_ctx s0 = task_ctx (k_sched k)"
  shows "caller_only p s0 (k_sched (set_ctx k p (c\<lparr>ctx_sepc := ctx_sepc c + 4, ctx_a0 := r\<rparr>)))"
  unfolding caller_only_def task_ctx_set_ctx [OF assms(1)] assms(2) using assms(1) get_ctx_task by auto

lemma caller_only_step:
  assumes "get_ctx k p = Inr c" and "task_ctx s0 = task_ctx (k_sched k)"
  shows "caller_only p s0 (k_sched (set_ctx k p (c\<lparr>ctx_sepc := ctx_sepc c + 4\<rparr>)))"
  using caller_only_set_ctx [OF assms, of "ctx_a0 c"] by simp

lemma caller_only_set_set:
  assumes "get_ctx k p = Inr c" and "task_ctx s0 = task_ctx (k_sched k)" and "task_ctx (k_sched k1) = task_ctx (k_sched (set_ctx k p c1))"
    and "get_ctx k1 p = Inr c1" and "c2 = c\<lparr>ctx_sepc := ctx_sepc c + 4, ctx_a0 := r\<rparr>"
  shows "caller_only p s0 (k_sched (set_ctx k1 p c2))"
proof -
  have "task_ctx (k_sched (set_ctx k1 p c2)) = task_ctx (k_sched (set_ctx k p c2))"
    by (rule ext) (simp add: task_ctx_set_ctx [OF assms(1)] task_ctx_set_ctx [OF assms(4)] assms(3))
  then show ?thesis using caller_only_set_ctx [OF assms(1,2), of r] assms(5) by (simp add: caller_only_def)
qed

lemma resume_task_sched: "resume_task n k = Inr (pc, k') \<Longrightarrow> k_sched k' = k_sched k"
  by (cases "get_ctx k (Task_ctx n)") (auto simp: resume_task_def)

lemma schedule_on_interrupt_isolated:
  assumes "schedule_on_interrupt k = Inr (pc, k')"
  shows "fewer_tasks (reapable (k_sched k)) (k_sched k) (k_sched k')"
proof -
  from assms obtain n s b where "prepare_next_task (k_sched k, k_buddy k) = Inr (n, (s, b))" "resume_task n (k\<lparr>k_sched := s, k_buddy := b\<rparr>) = Inr (pc, k')"
    by (auto simp: schedule_on_interrupt_def)
  then show ?thesis using prepare_tasks resume_task_sched by fastforce
qed

lemma schedule_isolated:
  assumes "schedule p k = Inr (pc, k')" and "get_ctx k p = Inr c" and "task_ctx s0 = task_ctx (k_sched k)"
    and "reapable (k_sched k) \<subseteq> reapable s0"
  shows "caller_only p s0 (k_sched k')"
proof -
  let ?k1 = "set_ctx k p (c\<lparr>ctx_sepc := ctx_sepc c + 4\<rparr>)"
  have "schedule_on_interrupt ?k1 = Inr (pc, k')" using assms(1,2) by (simp add: schedule_def step_sepc_def Let_def)
  from schedule_on_interrupt_isolated [OF this] have "fewer_tasks (reapable (k_sched ?k1)) (k_sched ?k1) (k_sched k')" .
  with caller_only_step [OF assms(2,3)] show ?thesis by (rule caller_only_fewer) (use assms(4) in simp)
qed

lemma exit_isolated:
  assumes "exit_task p k = Inr (pc, k')" and "get_ctx k p = Inr c"
  shows "caller_only p (k_sched k) (k_sched k')"
proof -
  obtain s where s: "exit_current_task (k_sched k) = Inr s" "schedule p (k\<lparr>k_sched := s\<rparr>) = Inr (pc, k')"
    using assms(1) by (auto simp: exit_task_def)
  have t: "task_ctx s = task_ctx (k_sched k)" using exit_tasks [OF s(1)] by (simp add: same_tasks_def)
  have "reapable s \<subseteq> reapable (k_sched k)"
    using s(1) by (auto simp: exit_current_task_def get_current_task_id_def index_def split: option.splits if_splits)
  moreover have "get_ctx (k\<lparr>k_sched := s\<rparr>) p = Inr c" using assms(2) t by (simp add: get_ctx_def split: ctx_ptr.splits)
  ultimately show ?thesis using schedule_isolated [OF s(2), of c "k_sched k"] t by simp
qed

lemma sleep_isolated:
  assumes "sleep env p k = Inr (pc, k')" and "get_ctx k p = Inr c"
  shows "caller_only p (k_sched k) (k_sched k')"
proof -
  let ?k1 = "set_ctx k p (c\<lparr>ctx_sepc := ctx_sepc c + 4\<rparr>)"
  obtain n s w where s: "set_current_task_sleep (k_sched ?k1) w = Inr (n, s)" "resume_task n (?k1\<lparr>k_sched := s\<rparr>) = Inr (pc, k')"
    using assms by (auto simp: sleep_def step_sepc_def Let_def)
  have "k_sched k' = s" using resume_task_sched [OF s(2)] by simp
  then show ?thesis using caller_only_same [OF caller_only_step [OF assms(2) refl] sleep_tasks [OF s(1)]] by simp
qed

lemma uart_write_isolated:
  assumes "uart_write_byte p k = Inr (pc, k')" and "get_ctx k p = Inr c"
  shows "caller_only p (k_sched k) (k_sched k')"
proof -
  let ?c1 = "c\<lparr>ctx_sepc := ctx_sepc c + 4\<rparr>"
  let ?k1 = "emit (set_ctx k p ?c1) (Console_putchar (ucast (ctx_a0 c AND 0xFF)))"
  have k': "k' = set_ctx ?k1 p (?c1\<lparr>ctx_a0 := 0\<rparr>)" using assms by (auto simp: uart_write_byte_def step_sepc_def Let_def)
  have "get_ctx ?k1 p = Inr ?c1" using get_set_ctx(1) [OF assms(2)] by simp
  from caller_only_set_set [OF assms(2) refl _ this, of "?c1\<lparr>ctx_a0 := 0\<rparr>" 0] show ?thesis unfolding k' by simp
qed

lemma uart_read_isolated:
  assumes "kernel_ok F0 others k" and "uart_read env (sscratch k) k = Inr (pc, k')" and "get_ctx k (sscratch k) = Inr c"
  shows "caller_only (sscratch k) (k_sched k) (k_sched k')"
proof -
  define c1 where "c1 = c\<lparr>ctx_sepc := ctx_sepc c + 4\<rparr>"
  define k1 where "k1 = set_ctx k (sscratch k) c1"
  note g = get_set_ctx(1) [OF assms(3), of c1, folded k1_def]
  have put: "caller_only (sscratch k) (k_sched k) (k_sched (set_ctx k2 (sscratch k) (c1\<lparr>ctx_a0 := r\<rparr>)))"
    if "k_sched k2 = k_sched k1" "init_context k2 = init_context k1" for k2 r
  proof (rule caller_only_set_set [OF assms(3) refl])
    show "get_ctx k2 (sscratch k) = Inr c1" using g that by (simp add: get_ctx_def split: ctx_ptr.splits)
  qed (simp_all add: that k1_def c1_def)
  from assms(1,3) c1_def k1_def show ?thesis
  proof (cases rule: uart_read_cases [where env = env, case_names char none wait])
    case (char ch rest rb)
    have "k' = set_ctx (k1\<lparr>receive_buffer := rb\<rparr>) (sscratch k) (c1\<lparr>ctx_a0 := (if ch \<ge> 0x80 then USIZE_MAX else ucast ch)\<rparr>)"
      using assms(2) char(4) by (simp add: return_char_def)
    then show ?thesis using put [of "k1\<lparr>receive_buffer := rb\<rparr>"] by simp
  next
    case none
    have "k' = set_ctx k1 (sscratch k) (c1\<lparr>ctx_a0 := USIZE_MAX\<rparr>)" using assms(2) none(3) by simp
    then show ?thesis using put [of k1] by simp
  next
    case (wait k3)
    then obtain cur where cur: "current_task_id (k_sched k) = Some cur" using assms(2) by (cases "current_task_id (k_sched k)") auto
    note w = wait(4) [OF cur]
    have k3: "caller_only (sscratch k) (k_sched k) (k_sched k3)" using put [of "k1\<lparr>wait_queue := wait_queue k @ [cur]\<rparr>"] w by simp
    have "\<exists>n s. same_tasks (k_sched k3) s \<and> resume_task n (k3\<lparr>k_sched := s\<rparr>) = Inr (pc, k')"
    proof (cases "ctx_a0 c < USIZE_MAX")
      case True
      with conjunct2 [OF w] have "rbind (set_current_task_sleep (k_sched k3) (env_time env + ctx_a0 c * ONE_MS_CYCLES)) (\<lambda>(n, s). resume_task n (k3\<lparr>k_sched := s\<rparr>)) = Inr (pc, k')"
        unfolding assms(2) by simp
      then show ?thesis using sleep_tasks by fastforce
    next
      case False
      with conjunct2 [OF w] have "rbind (block_current_task (k_sched k3)) (\<lambda>(n, s). resume_task n (k3\<lparr>k_sched := s\<rparr>)) = Inr (pc, k')"
        unfolding assms(2) by simp
      then show ?thesis using block_tasks by fastforce
    qed
    then obtain n s where s: "same_tasks (k_sched k3) s" "resume_task n (k3\<lparr>k_sched := s\<rparr>) = Inr (pc, k')" by blast
    have "k_sched k' = s" using resume_task_sched [OF s(2)] by simp
    then show ?thesis using caller_only_same [OF k3 s(1)] by simp
  qed
qed

lemma syscall_isolated:
  assumes "kernel_ok F0 others k" and "syscall env (sscratch k) k = Inr (pc, k')"
  shows "caller_only (sscratch k) (k_sched k) (k_sched k')"
proof -
  obtain c where c: "get_ctx k (sscratch k) = Inr c" using step_sepc_ok [OF assms(1)] by metis
  have q: "system_quit env k = Inr (pc, k') \<Longrightarrow> caller_only (sscratch k) (k_sched k) (k_sched k')"
    by (auto simp: system_quit_def intro: caller_only_refl)
  show ?thesis using assms(2) c uart_write_isolated [OF _ c] schedule_isolated [OF _ c refl order_refl] exit_isolated [OF _ c] q
      sleep_isolated [OF _ c] uart_read_isolated [OF assms(1) _ c] caller_only_refl [OF refl]
    by (simp add: syscall_def Let_def split: if_splits)
qed

text \<open>An external interrupt changes at most \<open>a0\<close> of the reader that is waiting for input.\<close>

definition reader_only :: "u8 \<Rightarrow> kernel \<Rightarrow> scheduler \<Rightarrow> bool" where
  "reader_only ch k s' \<longleftrightarrow> (\<forall>i. task_ctx s' i = task_ctx (k_sched k) i
     \<or> (\<exists>q c. wait_queue k = q @ [i] \<and> status_of (task_list (k_sched k)) i = Some Blocked
          \<and> task_ctx (k_sched k) i = Some c \<and> task_ctx s' i = Some (c\<lparr>ctx_a0 := ucast ch\<rparr>)))"

lemma wake_isolated:
  assumes "wait_queue k = q @ [i]" and "wake_up_task_with_result (k_sched k) i ch = Inr s"
  shows "reader_only ch k s"
proof -
  have i: "i < length (task_list (k_sched k))" using assms(2) by (simp add: wake_up_task_with_result_def index_def split: if_splits)
  show ?thesis
  proof (cases "\<exists>tcb. task_list (k_sched k) ! i = Some tcb \<and> tcb_status tcb = Blocked")
    case True
    then obtain tcb where t: "task_list (k_sched k) ! i = Some tcb" "tcb_status tcb = Blocked" by blast
    let ?c = "(tcb_context tcb)\<lparr>ctx_a0 := ucast ch\<rparr>"
    have "task_list s = (task_list (k_sched k))[i := Some (tcb\<lparr>tcb_status := Ready, tcb_context := ?c\<rparr>)]"
      using assms(2) i t by (auto simp: wake_up_task_with_result_def index_def)
    then have "task_ctx s j = (if j = i then Some ?c else task_ctx (k_sched k) j)" for j using i by (simp add: task_ctx_def)
    moreover have "task_ctx (k_sched k) i = Some (tcb_context tcb)" using i t(1) by (simp add: task_ctx_def)
    moreover have "status_of (task_list (k_sched k)) i = Some Blocked" using i t by (simp add: status_of_def)
    ultimately show ?thesis using assms(1) by (simp add: reader_only_def)
  next
    case False
    then have "s = k_sched k" using assms(2) i
      by (cases "task_list (k_sched k) ! i") (auto simp: wake_up_task_with_result_def index_def)
    then show ?thesis by (simp add: reader_only_def)
  qed
qed

lemma reader_only_refl: "k_sched k' = k_sched k \<Longrightarrow> reader_only ch k (k_sched k')"
  by (simp add: reader_only_def)

lemma receive_isolated:
  assumes "kernel_ok F0 others k" and "receive_char ch k = Inr k'"
  shows "reader_only ch k (k_sched k')"
proof (cases rule: receive_char_cases [OF assms(1), of ch, case_names drop store wake])
  case (wake q i s)
  then show ?thesis using assms(2) wake_isolated [OF wake(2,3)] by simp
qed (use assms(2) in \<open>auto intro: reader_only_refl\<close>)

lemma plic_isolated:
  assumes "kernel_ok F0 others k" and "plic_handler env k = Inr k'"
  shows "reader_only (env_rhr env) k (k_sched k')"
proof -
  have sd: "send_data env k = Inr k1 \<Longrightarrow> k_sched k1 = k_sched k" for k1
    by (rule send_data_ok [OF assms(1), of env]) auto
  have uart: "reader_only (env_rhr env) k (k_sched k1)" if "uart_interrupt_handler env k = Inr k1" for k1
  proof -
    have "k_sched k1 = k_sched k \<or> receive_char (env_rhr env) k = Inr k1"
      using that sd [of k1] unfolding uart_interrupt_handler_def Let_def by (simp split: if_splits; metis emit_simps(1))
    then show ?thesis using receive_isolated [OF assms(1)] reader_only_refl by blast
  qed
  show ?thesis
  proof (cases "num_to_irq (env_irq env)")
    case UART
    with assms(2) obtain k1 where "uart_interrupt_handler env k = Inr k1" "k_sched k' = k_sched k1" by (auto simp: plic_handler_def)
    then show ?thesis using uart [of k1] by simp
  next
    case UNKNOWN
    with assms(2) have "k_sched k' = k_sched k" by (auto simp: plic_handler_def)
    then show ?thesis by (rule reader_only_refl)
  qed
qed

lemma finish_sleep_zombies:
  assumes "finish_sleep s now = Inr s'"
  shows "zombie_queue s' = zombie_queue s \<and> current_task_id s' = current_task_id s"
proof -
  have step: "set_task_ready s i = Inr s1 \<Longrightarrow> zombie_queue s1 = zombie_queue s \<and> current_task_id s1 = current_task_id s" for s s1 i
    by (auto simp: set_task_ready_def index_def split: option.splits if_splits)
  have "finish_sleep_loop now es s = Inr s' \<Longrightarrow> zombie_queue s' = zombie_queue s \<and> current_task_id s' = current_task_id s" for es s
    by (induction es arbitrary: s) (auto split: if_splits dest!: step)
  with assms show ?thesis by (simp add: finish_sleep_def)
qed

lemma timer_isolated:
  assumes "timer_handler env k = Inr (pc, k')"
  shows "fewer_tasks (reapable (k_sched k)) (k_sched k) (k_sched k')"
proof -
  obtain s where s: "finish_sleep (k_sched k) (env_time env) = Inr s" "schedule_on_interrupt (set_next_timer_tick env (k\<lparr>k_sched := s\<rparr>)) = Inr (pc, k')"
    using assms by (auto simp: timer_handler_def)
  have "same_tasks (k_sched k) s" by (rule finish_sleep_tasks [OF s(1)])
  moreover have "fewer_tasks (reapable s) s (k_sched k')"
    using schedule_on_interrupt_isolated [OF s(2)] by (simp add: set_next_timer_tick_def)
  ultimately show ?thesis using finish_sleep_zombies [OF s(1)] by (simp add: same_tasks_def fewer_tasks_def)
qed

section \<open>Reachable kernels\<close>

text \<open>
  After booting, with the initial context in \<open>sscratch\<close>, three things happen in any order: the code that runs leaves
  any values in the registers that \<open>trap_entry\<close> saves; a trap is handled; \<open>run_scheduler\<close> enters the first task, in two
  steps, since interrupts are enabled between them. The idle task makes no system call, and a shutdown does not return.
\<close>

definition may_trap :: "kernel \<Rightarrow> usize \<Rightarrow> bool" where
  "may_trap k scause \<longleftrightarrow> (case get_ctx k (sscratch k) of Inl _ \<Rightarrow> False
     | Inr c \<Rightarrow> parse_trap_cause scause = Exception UserEcall \<longrightarrow> user_running (k_sched k) \<and> ctx_a7 c \<noteq> 10)"

inductive kernel_reach :: "usize \<Rightarrow> nat set \<Rightarrow> kernel \<Rightarrow> bool" for tr F0 where
  boot: "sched_reach tr F0 [] (k_sched k, k_buddy k) \<Longrightarrow> current_task_id (k_sched k) = None \<Longrightarrow> sscratch k = Kernel_init
    \<Longrightarrow> receive_buffer k = rb_new 4096 \<Longrightarrow> transmit_buffer k = rb_new 4096 \<Longrightarrow> wait_queue k = [] \<Longrightarrow> kernel_reach tr F0 k"
| registers: "kernel_reach tr F0 k \<Longrightarrow> kernel_reach tr F0 (set_ctx k (sscratch k) c)"
| trap: "kernel_reach tr F0 k \<Longrightarrow> may_trap k scause \<Longrightarrow> trap_handler env (sscratch k) scause k = Inr (pc, k') \<Longrightarrow> kernel_reach tr F0 k'"
| choose: "kernel_reach tr F0 k \<Longrightarrow> sscratch k = Kernel_init \<Longrightarrow> prepare_next_task (k_sched k, k_buddy k) = Inr (n, (s, b))
    \<Longrightarrow> kernel_reach tr F0 (k\<lparr>k_sched := s, k_buddy := b\<rparr>)"
| start: "kernel_reach tr F0 k \<Longrightarrow> sscratch k = Kernel_init \<Longrightarrow> run_scheduler k = Inr (pc, k') \<Longrightarrow> kernel_reach tr F0 k'"

lemma may_trap_ctx:
  assumes "may_trap k scause"
  obtains c where "get_ctx k (sscratch k) = Inr c" "parse_trap_cause scause = Exception UserEcall \<longrightarrow> user_running (k_sched k) \<and> ctx_a7 c \<noteq> 10"
  using assms by (auto simp: may_trap_def split: sum.splits)

lemma run_scheduler_ok: "kernel_ok F0 others k \<Longrightarrow> returns_ok F0 others (run_scheduler k)"
  using schedule_on_interrupt_ok [of F0 others k] by (simp add: run_scheduler_def schedule_on_interrupt_def kernel_ok_def)

lemma returns_okD: "returns_ok F0 others (Inr (pc, k)) \<Longrightarrow> kernel_ok F0 others k"
  by (simp add: returns_ok_def)

lemma kernel_reach_ok:
  assumes low: "F0 \<subseteq> {..<2 ^ 20}"
  shows "kernel_reach tr F0 k \<Longrightarrow> kernel_ok F0 [] k"
proof (induction rule: kernel_reach.induct)
  case (boot k)
  have "rb_inv 4096 (rb_new 4096 :: u8 ring_buffer)" by (rule conjunct1 [OF rb_new_inv]) simp
  with boot sched_reach_ok [OF low boot(1)] show ?case by (simp add: kernel_ok_def uart_ok_def scratch_ok_def)
next
  case (trap k scause env pc k')
  from trap(2) obtain c where c: "get_ctx k (sscratch k) = Inr c" "parse_trap_cause scause = Exception UserEcall \<longrightarrow> user_running (k_sched k) \<and> ctx_a7 c \<noteq> 10"
    by (rule may_trap_ctx)
  from trap_handler_ok [OF trap(4) c(1), of scause env] c(2) show ?case unfolding trap(3) by (blast intro: returns_okD)
next
  case (choose k n s b)
  have ok: "sched_ok F0 [] (k_sched k, k_buddy k)" "uart_ok k" using choose(4) by (simp_all add: kernel_ok_def)
  obtain n' s' b' where p: "prepare_next_task (k_sched k, k_buddy k) = Inr (n', (s', b'))" "sched_ok F0 [] (s', b')"
    "length (task_list s') = length (task_list (k_sched k))" by (rule prepare_next_ok [OF ok(1)])
  with choose(3) have "sched_ok F0 [] (s, b)" "length (task_list s) = length (task_list (k_sched k))" by simp_all
  then show ?case using ok(2) choose(2) by (simp add: kernel_ok_def uart_ok_def scratch_ok_def)
next
  case (start k pc k')
  from run_scheduler_ok [OF start(4)] show ?case unfolding start(3) by (rule returns_okD)
qed simp

lemma kernel_example:
  obtains k c where "kernel_reach tr boot_pages k" "current_task_id (k_sched k) = Some 1" "status_of (task_list (k_sched k)) 1 = Some Running"
    "sscratch k = Task_ctx 1" "receive_buffer k = rb_new 4096" "wait_queue k = []" "task_ctx (k_sched k) 1 = Some c"
proof -
  have low: "boot_pages \<subseteq> {..<2 ^ 20}" by auto
  obtain s b where r: "sched_reach tr boot_pages [] (s, b)" and q: "ready_queue s = [0, 1]" "current_task_id s = None"
    using sched_example by (metis fst_conv prod.collapse)
  define k0 where "k0 = \<lparr>k_sched = s, k_buddy = b, init_context = undefined, receive_buffer = rb_new 4096 :: u8 ring_buffer,
    transmit_buffer = rb_new 4096, wait_queue = [], sscratch = Kernel_init, dev_log = []\<rparr>"
  have k0: "kernel_reach tr boot_pages k0" by (rule kernel_reach.boot) (simp_all add: k0_def r q)
  obtain n s' b' where p: "prepare_next_task (s, b) = Inr (n, (s', b'))" "current_task_id s' = Some n" "status_of (task_list s') n = Some Running"
    "pop_next (ready_queue s @ filter (\<lambda>i. status_of (task_list s) i = Some Running) (case current_task_id s of None \<Rightarrow> [] | Some c \<Rightarrow> [c])) = (n, ready_queue s')"
    by (rule prepare_next_ok [OF sched_reach_ok [OF low r]])
  have n: "n = 1" using p(4) q by (simp add: pop_next_simps)
  then obtain c where c: "task_ctx s' 1 = Some c" using p(3) task_ctx_iff [of s' 1] by auto
  let ?k = "k0\<lparr>k_sched := s', k_buddy := b', sscratch := Task_ctx 1\<rparr>"
  have e: "run_scheduler k0 = Inr (ctx_sepc c, ?k)"
    using p(1) c by (simp add: run_scheduler_def k0_def n resume_task_def get_ctx_def)
  have "kernel_reach tr boot_pages ?k" by (rule kernel_reach.start [OF k0 _ e]) (simp add: k0_def)
  then show thesis by (rule that) (use p(2,3) n c in \<open>simp_all add: k0_def\<close>)
qed

section \<open>Properties\<close>



lemma parse_ecall: "parse_trap_cause 8 = Exception UserEcall"
  by code_simp


text \<open>C8. A trap touches no context but the caller's. A system call may advance the \<open>sepc\<close> of the calling task over the
  \<open>ecall\<close> and set its \<open>a0\<close>; an external interrupt may set \<open>a0\<close> of the blocked task that waits for input, to the character that
  arrived; a timer interrupt changes no context; contexts disappear only with tasks that have exited.\<close>

theorem trap_isolation:
  assumes "F0 \<subseteq> {..<2 ^ 20}" and "kernel_reach tr F0 k" and "trap_handler env (sscratch k) scause k = Inr (pc, k')"
  shows "case parse_trap_cause scause of
      Interrupt SupervisorTimerInterrupt \<Rightarrow> fewer_tasks (reapable (k_sched k)) (k_sched k) (k_sched k')
    | Interrupt SupervisorExternalInterrupt \<Rightarrow> reader_only (env_rhr env) k (k_sched k')
    | Exception UserEcall \<Rightarrow> caller_only (sscratch k) (k_sched k) (k_sched k')
    | _ \<Rightarrow> k' = k"
proof (cases "parse_trap_cause scause")
  case (Interrupt i)
  note ok = kernel_reach_ok [OF assms(1,2)]
  show ?thesis
  proof (cases i)
    case SupervisorTimerInterrupt
    then show ?thesis using Interrupt assms(3) timer_isolated by (simp add: trap_handler_def)
  next
    case SupervisorExternalInterrupt
    with Interrupt assms(3) obtain k1 where "plic_handler env k = Inr k1" "k' = k1" by (auto simp: trap_handler_def)
    then show ?thesis using plic_isolated [OF ok] Interrupt SupervisorExternalInterrupt by simp
  qed (use Interrupt assms(3) in \<open>auto simp: trap_handler_def\<close>)
next
  case (Exception e)
  then show ?thesis using assms(3) syscall_isolated [OF kernel_reach_ok [OF assms(1,2)]] by (cases e) (auto simp: trap_handler_def)
qed

theorem trap_isolation_witness:
  "\<exists>k env pc k'. kernel_reach 0x80210000 boot_pages k \<and> trap_handler env (sscratch k) 8 k = Inr (pc, k')
     \<and> caller_only (sscratch k) (k_sched k) (k_sched k')"
proof -
  obtain k c where k: "kernel_reach 0x80210000 boot_pages k" "sscratch k = Task_ctx 1" "task_ctx (k_sched k) 1 = Some c"
    by (rule kernel_example)
  let ?k = "set_ctx k (Task_ctx 1) (c\<lparr>ctx_a7 := 1\<rparr>)"
  have low: "boot_pages \<subseteq> {..<2 ^ 20}" by auto
  have r: "kernel_reach 0x80210000 boot_pages ?k" using kernel_reach.registers [OF k(1)] k(2) by simp
  have g: "get_ctx ?k (Task_ctx 1) = Inr (c\<lparr>ctx_a7 := 1\<rparr>)" by (rule get_set_ctx(1) [of _ _ c]) (simp add: get_ctx_def k(3) del: One_nat_def)
  obtain k' pc where t: "trap_handler env (sscratch ?k) 8 ?k = Inr (pc, k')" for env
    using g k(2) by (auto simp: trap_handler_def parse_ecall syscall_def uart_write_byte_def step_sepc_def Let_def)
  from trap_isolation [OF low r t] r t show ?thesis unfolding parse_ecall by auto
qed

section \<open>Reading from the UART\<close>

text \<open>A read that finds no character and may wait: the task blocks and is the last of the readers.\<close>

lemma read_waits:
  assumes ok: "kernel_ok F0 others k" and cur: "current_task_id (k_sched k) = Some i" "status_of (task_list (k_sched k)) i = Some Running" "i \<noteq> 0"
    and p: "sscratch k = Task_ctx i" "task_ctx (k_sched k) i = Some c" and e: "rb_list 4096 (receive_buffer k) = []" and "ctx_a0 c \<noteq> 0"
  obtains pc k1 where "uart_read env (Task_ctx i) k = Inr (pc, k1)" "status_of (task_list (k_sched k1)) i = Some Blocked"
    "wait_queue k1 = wait_queue k @ [i]" "receive_buffer k1 = receive_buffer k"
    "task_ctx (k_sched k1) i = Some (c\<lparr>ctx_sepc := ctx_sepc c + 4, ctx_a0 := USIZE_MAX\<rparr>)"
    "ctx_a0 c < USIZE_MAX \<longrightarrow> SleepEntry (env_time env + ctx_a0 c * ONE_MS_CYCLES) i \<in> set (blocked_queue (k_sched k1))"
proof -
  have g: "get_ctx k (sscratch k) = Inr c" using p by (simp add: get_ctx_def)
  define c1 where "c1 = c\<lparr>ctx_sepc := ctx_sepc c + 4\<rparr>"
  define k1 where "k1 = set_ctx k (sscratch k) c1"
  define k3 where "k3 = set_ctx (k1\<lparr>wait_queue := wait_queue k @ [i]\<rparr>) (sscratch k) (c1\<lparr>ctx_a0 := USIZE_MAX\<rparr>)"
  have read: "uart_read env (sscratch k) k = (if ctx_a0 c < USIZE_MAX
       then rbind (set_current_task_sleep (k_sched k3) (env_time env + ctx_a0 c * ONE_MS_CYCLES)) (\<lambda>(n, s). resume_task n (k3\<lparr>k_sched := s\<rparr>))
       else rbind (block_current_task (k_sched k3)) (\<lambda>(n, s). resume_task n (k3\<lparr>k_sched := s\<rparr>)))"
    using ok g c1_def k1_def
  proof (cases rule: uart_read_cases [where env = env, case_names char none wait])
    case (wait k4)
    from wait(4) [OF cur(1)] have "k4 = k3" by (simp add: k3_def)
    then show ?thesis using wait(4) [OF cur(1)] by simp
  qed (use e assms(8) in simp_all)
  have "i < length (task_list (k_sched k))" using cur(2) by (simp add: status_of_def split: if_splits)
  moreover have ok1: "kernel_ok F0 others k1" using ok by (simp add: k1_def)
  ultimately have "kernel_ok F0 others (k1\<lparr>wait_queue := wait_queue k @ [i]\<rparr>)"
    by (intro kernel_ok_cong [OF ok1]) (use ok1 wait_queue_bound [OF ok] in \<open>simp_all add: kernel_ok_def uart_ok_def k1_def\<close>)
  then have "kernel_ok F0 others k3" unfolding k3_def by (rule kernel_ok_set_ctx)
  then have ok3: "sched_ok F0 others (k_sched k3, k_buddy k3)" by (simp add: kernel_ok_def)
  have g1: "get_ctx (k1\<lparr>wait_queue := wait_queue k @ [i]\<rparr>) (sscratch k) = Inr c1"
    using get_set_ctx(1) [OF g, of c1] by (simp add: k1_def get_ctx_def split: ctx_ptr.splits)
  have k3: "current_task_id (k_sched k3) = Some i" "status_of (task_list (k_sched k3)) i = Some Running"
    "wait_queue k3 = wait_queue k @ [i]" "receive_buffer k3 = receive_buffer k" using cur by (simp_all add: k3_def k1_def)
  have t3: "task_ctx (k_sched k3) i = Some (c1\<lparr>ctx_a0 := USIZE_MAX\<rparr>)" unfolding k3_def task_ctx_set_ctx [OF g1] using p(1) by simp
  have "\<exists>n s. uart_read env (sscratch k) k = resume_task n (k3\<lparr>k_sched := s\<rparr>) \<and> same_tasks (k_sched k3) s \<and> status_of (task_list s) i = Some Blocked
      \<and> status_of (task_list s) n \<noteq> None
      \<and> (ctx_a0 c < USIZE_MAX \<longrightarrow> SleepEntry (env_time env + ctx_a0 c * ONE_MS_CYCLES) i \<in> set (blocked_queue s))"
  proof (cases "ctx_a0 c < USIZE_MAX")
    case True
    obtain n s where s: "set_current_task_sleep (k_sched k3) (env_time env + ctx_a0 c * ONE_MS_CYCLES) = Inr (n, s)" "n \<noteq> i"
      "status_of (task_list s) = (status_of (task_list (k_sched k3)))(i := Some Blocked, n := Some Running)"
      "blocked_queue s = insort (SleepEntry (env_time env + ctx_a0 c * ONE_MS_CYCLES) i) (blocked_queue (k_sched k3))"
      by (rule sleep_ok [OF ok3 k3(1,2) cur(3)])
    then show ?thesis using read True sleep_tasks [OF s(1)] by (intro exI [of _ n] exI [of _ s]) (simp add: set_insort_key)
  next
    case False
    obtain n s where s: "block_current_task (k_sched k3) = Inr (n, s)" "n \<noteq> i"
      "status_of (task_list s) = (status_of (task_list (k_sched k3)))(i := Some Blocked, n := Some Running)"
      by (rule block_ok [OF ok3 k3(1,2) cur(3)])
    then show ?thesis using read False block_tasks [OF s(1)] by (intro exI [of _ n] exI [of _ s]) simp
  qed
  then obtain n s where s: "uart_read env (sscratch k) k = resume_task n (k3\<lparr>k_sched := s\<rparr>)" "same_tasks (k_sched k3) s"
    "status_of (task_list s) i = Some Blocked" "task_ctx s n \<noteq> None"
    "ctx_a0 c < USIZE_MAX \<longrightarrow> SleepEntry (env_time env + ctx_a0 c * ONE_MS_CYCLES) i \<in> set (blocked_queue s)" using task_ctx_iff by blast
  from s(4) obtain cn where "task_ctx s n = Some cn" by blast
  then have "resume_task n (k3\<lparr>k_sched := s\<rparr>) = Inr (ctx_sepc cn, k3\<lparr>k_sched := s, sscratch := Task_ctx n\<rparr>)"
    by (simp add: resume_task_def get_ctx_def)
  then have r: "uart_read env (Task_ctx i) k = Inr (ctx_sepc cn, k3\<lparr>k_sched := s, sscratch := Task_ctx n\<rparr>)" using s(1) p(1) by simp
  show thesis by (rule that [OF r]) (use s(2,3,5) k3(3,4) t3 in \<open>simp_all add: same_tasks_def c1_def\<close>)
qed




section \<open>Readers that time out\<close>

lemma pop_next_keeps: "pop_next q = (n, q') \<Longrightarrow> set q \<subseteq> insert n (set q')"
  by (cases q rule: pop_next_cases) auto

lemma timer_wakes:
  assumes ok: "kernel_ok F0 others k" and "status_of (task_list (k_sched k)) i = Some Blocked"
    and e: "SleepEntry w i \<in> set (blocked_queue (k_sched k))" "w \<le> env_time env"
  obtains pc k' where "timer_handler env k = Inr (pc, k')" "wait_queue k' = wait_queue k"
    "status_of (task_list (k_sched k')) i = Some Ready \<or> status_of (task_list (k_sched k')) i = Some Running"
proof -
  have sok: "sched_ok F0 others (k_sched k, k_buddy k)" using ok by (simp add: kernel_ok_def)
  then have "sleepers_ok (blocked_queue (k_sched k)) (length (task_list (k_sched k)))" by (simp add: sched_ok_def sched_inv_def)
  from finish_sleep_loop_ok [OF sok this, of "env_time env"] obtain s W where s: "finish_sleep (k_sched k) (env_time env) = Inr s"
    "sched_ok F0 others (s, k_buddy k)" "wakes (k_sched k) s W"
    "set W = {i. status_of (task_list (k_sched k)) i = Some Blocked \<and> (\<exists>e \<in> set (blocked_queue (k_sched k)). sleep_task e = i \<and> wake_time e \<le> env_time env)}"
    unfolding finish_sleep_def by blast
  have "i \<in> set W" unfolding s(4) using assms(2) e by force
  then have iq: "i \<in> set (ready_queue s)" using s(3) by (simp add: wakes_def)
  obtain n s' b' where p: "prepare_next_task (s, k_buddy k) = Inr (n, (s', b'))" "sched_ok F0 others (s', b')" "status_of (task_list s') n = Some Running"
    "pop_next (ready_queue s @ filter (\<lambda>i. status_of (task_list s) i = Some Running) (case current_task_id s of None \<Rightarrow> [] | Some c \<Rightarrow> [c])) = (n, ready_queue s')"
    by (rule prepare_next_ok [OF s(2)])
  have "i = n \<or> i \<in> set (ready_queue s')" using pop_next_keeps [OF p(4)] iq by auto
  moreover have "status_of (task_list s') i = Some Ready" if "i \<in> set (ready_queue s')"
    using p(2) that by (simp add: sched_ok_def sched_inv_def queues_ok_def)
  ultimately have st: "status_of (task_list s') i = Some Ready \<or> status_of (task_list s') i = Some Running" using p(3) by blast
  have "task_ctx s' n \<noteq> None" unfolding task_ctx_iff using p(3) by simp
  then obtain cn where cn: "task_ctx s' n = Some cn" by blast
  let ?k = "(set_next_timer_tick env (k\<lparr>k_sched := s\<rparr>))\<lparr>k_sched := s', k_buddy := b', sscratch := Task_ctx n\<rparr>"
  have "timer_handler env k = Inr (ctx_sepc cn, ?k)" unfolding timer_handler_def s(1)
    using p(1) cn by (simp add: schedule_on_interrupt_def set_next_timer_tick_def resume_task_def get_ctx_def)
  then show thesis by (rule that) (use st in \<open>simp_all add: set_next_timer_tick_def\<close>)
qed

lemma stale_reader:
  assumes "wait_queue k = q @ [i]" and "status_of (task_list (k_sched k)) i \<noteq> Some Blocked" "i < length (task_list (k_sched k))" and "ch < 0x80"
  shows "receive_char ch k = Inr (k\<lparr>wait_queue := q\<rparr>)"
proof -
  have "wake_up_task_with_result (k_sched k) i ch = Inr (k_sched k)" using assms(2,3)
    by (cases "task_list (k_sched k) ! i") (auto simp: wake_up_task_with_result_def index_def status_of_def)
  then show ?thesis using assms(1,4) by (simp add: receive_char_def)
qed

text \<open>C33. A read that times out swallows a later character. The task stays in the queue of readers when its timeout makes
  it ready again; the next character that arrives is handed to that entry and is lost: it reaches neither a context
  nor the buffer, even if another reader waits.\<close>

theorem timed_out_reader_swallows_char:
  assumes "kernel_ok F0 others k" and "current_task_id (k_sched k) = Some i" "status_of (task_list (k_sched k)) i = Some Running" "i \<noteq> 0"
    and "sscratch k = Task_ctx i" "task_ctx (k_sched k) i = Some c" and "rb_list 4096 (receive_buffer k) = []" and "ctx_a0 c \<noteq> 0" "ctx_a0 c < USIZE_MAX"
    and "env_time env + ctx_a0 c * ONE_MS_CYCLES \<le> env_time env'" and "ch < 0x80"
  shows "\<exists>pc k1 pc' k2. uart_read env (Task_ctx i) k = Inr (pc, k1) \<and> timer_handler env' k1 = Inr (pc', k2)
    \<and> wait_queue k2 = wait_queue k @ [i] \<and> receive_char ch k2 = Inr (k2\<lparr>wait_queue := wait_queue k\<rparr>)"
proof -
  obtain pc k1 where k1: "uart_read env (Task_ctx i) k = Inr (pc, k1)" "status_of (task_list (k_sched k1)) i = Some Blocked"
    "wait_queue k1 = wait_queue k @ [i]"
    "ctx_a0 c < USIZE_MAX \<longrightarrow> SleepEntry (env_time env + ctx_a0 c * ONE_MS_CYCLES) i \<in> set (blocked_queue (k_sched k1))"
    by (rule read_waits [OF assms(1-8), of env])
  have "user_running (k_sched k)" using assms(2-4) by (simp add: user_running_def)
  from uart_read_ok [OF assms(1) this, of env] have ok1: "kernel_ok F0 others k1" using k1(1) assms(5) returns_okD by simp
  obtain pc' k2 where k2: "timer_handler env' k1 = Inr (pc', k2)" "wait_queue k2 = wait_queue k1"
    "status_of (task_list (k_sched k2)) i = Some Ready \<or> status_of (task_list (k_sched k2)) i = Some Running"
    using timer_wakes [OF ok1 k1(2) k1(4) [rule_format, OF assms(9)] assms(10)] by blast
  have "i < length (task_list (k_sched k2))" using k2(3) by (auto simp: status_of_def split: if_splits)
  then have "receive_char ch k2 = Inr (k2\<lparr>wait_queue := wait_queue k\<rparr>)"
    using k2(2,3) k1(3) assms(11) by (intro stale_reader) auto
  with k1(1,3) k2(1,2) show ?thesis by auto
qed

theorem timed_out_reader_swallows_char_witness:
  "\<exists>k env env' pc k1 pc' k2. kernel_reach 0x80210000 boot_pages k \<and> uart_read env (Task_ctx 1) k = Inr (pc, k1) \<and> timer_handler env' k1 = Inr (pc', k2)
     \<and> receive_char 65 k2 = Inr (k2\<lparr>wait_queue := []\<rparr>)"
proof -
  obtain k c where k: "kernel_reach 0x80210000 boot_pages k" "current_task_id (k_sched k) = Some 1" "status_of (task_list (k_sched k)) 1 = Some Running"
    "sscratch k = Task_ctx 1" "receive_buffer k = rb_new 4096" "wait_queue k = []" "task_ctx (k_sched k) 1 = Some c"
    by (rule kernel_example)
  let ?c = "c\<lparr>ctx_a0 := 5000\<rparr>"
  let ?k = "set_ctx k (Task_ctx 1) ?c"
  have low: "boot_pages \<subseteq> {..<2 ^ 20}" by auto
  have r: "kernel_reach 0x80210000 boot_pages ?k" using kernel_reach.registers [OF k(1)] k(4) by simp
  have g: "get_ctx k (Task_ctx 1) = Inr c" by (simp add: get_ctx_def k(7) del: One_nat_def)
  have ctx: "task_ctx (k_sched ?k) 1 = Some ?c" unfolding task_ctx_set_ctx [OF g] by simp
  have "rb_list 4096 (rb_new 4096 :: u8 ring_buffer) = []" by (rule conjunct2 [OF rb_new_inv]) simp
  then have e: "rb_list 4096 (receive_buffer ?k) = []" using k(5) by simp
  have t: "ctx_a0 ?c < USIZE_MAX" "0 + ctx_a0 ?c * ONE_MS_CYCLES \<le> 50000000"
    by (simp_all add: USIZE_MAX_def ONE_MS_CYCLES_def RISCV_ACLINT_DEFAULT_TIMEBASE_FREQ_def)
  let ?e = "undefined\<lparr>env_time := 0\<rparr> :: trap_env" and ?e' = "undefined\<lparr>env_time := 50000000\<rparr> :: trap_env"
  have "\<exists>pc k1 pc' k2. uart_read ?e (Task_ctx 1) ?k = Inr (pc, k1) \<and> timer_handler ?e' k1 = Inr (pc', k2)
    \<and> wait_queue k2 = wait_queue ?k @ [1] \<and> receive_char 65 k2 = Inr (k2\<lparr>wait_queue := wait_queue ?k\<rparr>)"
    by (rule timed_out_reader_swallows_char [OF kernel_reach_ok [OF low r] _ _ _ _ ctx e _ t(1)]) (use k(2-4) t(2) in simp_all)
  with r k(6) show ?thesis by (metis set_ctx_simps(4))
qed

end
