(* ===== verification/Slub.thy ===== *)
theory Slub
  imports Buddy
begin

text \<open>
  The kernel heap: the page descriptors (\<open>src/mm/mod.rs\<close>) and the slab allocator \<open>src/mm/slub.rs\<close> on top of the buddy
  allocator. A slab is one page, cut into objects of one size; the free objects of a slab form a list
  that is threaded through their first words, and the slab's descriptor is the entry of its page in
  \<open>MEM_MAP\<close>. The pointer \<open>cache\<close> of a slab to its \<open>KmemCache\<close> is the index of the cache in the array of the
  allocator. Raw pointers to objects are virtual addresses.
\<close>

section \<open>Page descriptors\<close>

datatype slab =
    Slub (freelist: virt_addr) (inuse: u16) (slab_cache: nat) (has_next: bool) (next_partial: phys_page_num)
  | SlubTail (head_page_ppn: phys_page_num)

datatype page_state = Reserved | Slab slab | Free | PageTable

record page =
  ref_count :: u8
  page_state :: page_state

record kmem_cache =
  object_size :: usize
  active_slab_ppn :: "phys_page_num option"
  partial_slabs_head :: "phys_page_num option"

record heap =
  caches :: "kmem_cache list"
  mem_map :: "page list"
  ram_start_ppn :: usize
  heap_buddy :: buddy
  heap_mem :: memory

abbreviation heap_frames :: "heap \<Rightarrow> buddy_state" where
  "heap_frames h \<equiv> (heap_buddy h, heap_mem h)"

abbreviation set_frames :: "heap \<Rightarrow> buddy_state \<Rightarrow> heap" where
  "set_frames h b \<equiv> h\<lparr>heap_buddy := fst b, heap_mem := snd b\<rparr>"

definition page_index :: "heap \<Rightarrow> phys_page_num \<Rightarrow> nat" where
  "page_index h ppn = unat (ppn_val ppn - ram_start_ppn h)"

definition get_page_state :: "heap \<Rightarrow> phys_page_num \<Rightarrow> page res" where
  "get_page_state h ppn = index (mem_map h) (page_index h ppn)"

text \<open>A write through the reference that \<open>get_page_state\<close> returns.\<close>

definition set_page :: "heap \<Rightarrow> phys_page_num \<Rightarrow> page \<Rightarrow> heap" where
  "set_page h ppn pg = h\<lparr>mem_map := (mem_map h)[page_index h ppn := pg]\<rparr>"

definition write_page :: "phys_page_num \<Rightarrow> u8 \<Rightarrow> page_state \<Rightarrow> heap \<Rightarrow> heap res" where
  "write_page ppn rc st h = rbind (get_page_state h ppn) (\<lambda>_. Inr (set_page h ppn \<lparr>ref_count = rc, page_state = st\<rparr>))"

section \<open>Runs of pages\<close>

fun for_pages :: "(phys_page_num \<Rightarrow> heap \<Rightarrow> heap res) \<Rightarrow> phys_page_num \<Rightarrow> nat list \<Rightarrow> heap \<Rightarrow> heap res" where
  "for_pages body ppn [] h = Inr h"
| "for_pages body ppn (i # is) h = rbind (body (PhysPageNum (ppn_val ppn + of_nat i)) h) (for_pages body ppn is)"

section \<open>Caches\<close>

datatype kernel_error = OutOfMemory

definition kmem_cache_new :: "usize \<Rightarrow> kmem_cache" where
  "kmem_cache_new requested_size =
     (let align = 8; min_size = align;
          actual_size = (requested_size + align - 1) AND NOT (align - 1)
      in \<lparr>object_size = (if actual_size < min_size then min_size else actual_size), active_slab_ppn = None, partial_slabs_head = None\<rparr>)"

definition SLUB_ALLOCATOR :: "kmem_cache list" where
  "SLUB_ALLOCATOR = map kmem_cache_new [8, 16, 32, 64, 128, 256, 512, 1024, 2048]"

definition set_cache :: "heap \<Rightarrow> nat \<Rightarrow> kmem_cache \<Rightarrow> heap" where
  "set_cache h i c = h\<lparr>caches := (caches h)[i := c]\<rparr>"

text \<open>The loops that thread the free list through the objects of a new slab, for one page and for a run of pages.\<close>

definition carve_page :: "usize \<Rightarrow> usize \<Rightarrow> memory \<Rightarrow> memory res" where
  "carve_page osize start_va m = (let stop = start_va + PAGE_SIZE in
     loop_res (\<lambda>(va, m). if va < stop
         then let next_va = va + osize; next_addr = (if next_va < stop then next_va else 0)
              in Inr (Inr (va + osize, store m va next_addr))
         else Inr (Inl m)) (start_va, m))"

definition carve_pages :: "usize \<Rightarrow> usize \<Rightarrow> usize \<Rightarrow> memory \<Rightarrow> memory res" where
  "carve_pages osize start_va allocate_pages m = (let stop = start_va + shl allocate_pages PAGE_SIZE_BITS in
     loop_res (\<lambda>(va, m). if va + osize \<le> stop
         then let next_va = va + osize; next_addr = (if next_va + osize \<le> stop then next_va else 0)
              in Inr (Inr (va + osize, store m va next_addr))
         else Inr (Inl m)) (start_va, m))"

definition slab_links :: "kmem_cache \<Rightarrow> bool \<times> phys_page_num" where
  "slab_links c = (case partial_slabs_head c of Some head_ppn \<Rightarrow> (True, head_ppn) | None \<Rightarrow> (False, PhysPageNum 0))"

definition alloc_new_slab :: "nat \<Rightarrow> heap \<Rightarrow> ((phys_page_num, kernel_error) result \<times> heap) res" where
  "alloc_new_slab i h = rbind (index (caches h) i) (\<lambda>c.
     if object_size c < PAGE_SIZE
     then rbind (buddy_alloc (heap_frames h) 1) (\<lambda>(r, b). case r of
         None \<Rightarrow> Inr (Err OutOfMemory, set_frames h b)
       | Some ppn \<Rightarrow>
           let start_va = phys_to_virt (pa_val (pa_from_ppn ppn)) in
           rbind (carve_page (object_size c) start_va (snd b)) (\<lambda>m.
             let (next, np) = slab_links c;
                 h1 = set_cache (set_frames h (fst b, m)) i (c\<lparr>partial_slabs_head := Some ppn\<rparr>)
             in rbind (write_page ppn 1 (Slab (Slub (va_from_usize start_va) 0 i next np)) h1) (\<lambda>h2. Inr (Ok ppn, h2))))
     else
       let required_pages = shr (object_size c + PAGE_SIZE - 1) PAGE_SIZE_BITS;
           allocate_pages = next_power_of_two required_pages
       in rbind (require (allocate_pages \<noteq> 0) Unwrap_none (buddy_alloc (heap_frames h) allocate_pages)) (\<lambda>(r, b). case r of
         None \<Rightarrow> Inr (Err OutOfMemory, set_frames h b)
       | Some ppn \<Rightarrow>
           let start_va = phys_to_virt (pa_val (pa_from_ppn ppn)) in
           rbind (carve_pages (object_size c) start_va allocate_pages (snd b)) (\<lambda>m.
             let (next, np) = slab_links c;
                 h1 = set_cache (set_frames h (fst b, m)) i (c\<lparr>partial_slabs_head := Some ppn\<rparr>)
             in rbind (write_page ppn 1 (Slab (Slub (va_from_usize start_va) 0 i next np)) h1) (\<lambda>h2.
                rbind (for_pages (\<lambda>p. write_page p 1 (Slab (SlubTail ppn))) ppn [1 ..< unat allocate_pages] h2) (\<lambda>h3.
                Inr (Ok ppn, h3))))))"

text \<open>One round of the loop of \<open>KmemCache::alloc\<close>; the null pointer is 0.\<close>

definition alloc_step :: "nat \<Rightarrow> heap \<Rightarrow> ((usize \<times> heap) + heap) res" where
  "alloc_step i h = rbind (index (caches h) i) (\<lambda>c. case active_slab_ppn c of
       Some ppn \<Rightarrow> rbind (get_page_state h ppn) (\<lambda>page. case page_state page of
           Slab (Slub fl n ca next np) \<Rightarrow>
             if va_val fl = 0 then Inr (Inr (set_cache h i (c\<lparr>active_slab_ppn := None\<rparr>)))
             else let mem_block_ptr = va_val fl; next_free_addr = load (heap_mem h) mem_block_ptr
                  in Inr (Inl (mem_block_ptr, set_page h ppn (page\<lparr>page_state := Slab (Slub (VirtAddr next_free_addr) (n + 1) ca next np)\<rparr>)))
         | _ \<Rightarrow> Inl (Panicked ''FATAL: active_slab_ppn does not point to a Slub Head!''))
     | None \<Rightarrow> (case partial_slabs_head c of
           Some partial_head \<Rightarrow> rbind (get_page_state h partial_head) (\<lambda>page. case page_state page of
               Slab (Slub fl n ca next np) \<Rightarrow>
                 Inr (Inr (set_cache h i (c\<lparr>partial_slabs_head := (if next then Some np else None), active_slab_ppn := Some partial_head\<rparr>)))
             | _ \<Rightarrow> Inl (Panicked ''FATAL: Memory corruption! Found non-Head page in partial_slabs_head''))
         | None \<Rightarrow> rbind (alloc_new_slab i h) (\<lambda>(r, h1). case r of
               Ok new_ppn \<Rightarrow> rbind (index (caches h1) i) (\<lambda>c1. Inr (Inr (set_cache h1 i (c1\<lparr>active_slab_ppn := Some new_ppn\<rparr>))))
             | Err _ \<Rightarrow> Inr (Inl (0, h1)))))"

definition cache_alloc :: "nat \<Rightarrow> heap \<Rightarrow> (usize \<times> heap) res" where
  "cache_alloc i h = loop_res (alloc_step i) h"

definition remove_from_partial :: "nat \<Rightarrow> phys_page_num \<Rightarrow> heap \<Rightarrow> heap res" where
  "remove_from_partial i target_ppn h = rbind (index (caches h) i) (\<lambda>c.
     loop_res (\<lambda>(current_opt, prev_opt). case current_opt of
         None \<Rightarrow> Inl (Panicked ''FATAL: Tried to remove PPN but it was not in the partial list!'')
       | Some current_ppn \<Rightarrow> rbind (get_page_state h current_ppn) (\<lambda>current_page. case page_state current_page of
             Slab (Slub fl n ca next np) \<Rightarrow>
               let next_opt = (if next then Some np else None) in
               if current_ppn = target_ppn
               then (case prev_opt of
                   Some prev_ppn \<Rightarrow> rbind (get_page_state h prev_ppn) (\<lambda>prev_page. case page_state prev_page of
                       Slab (Slub fl n ca next np) \<Rightarrow> Inr (Inl (set_page h prev_ppn (prev_page\<lparr>page_state :=
                         (case next_opt of Some n' \<Rightarrow> Slab (Slub fl n ca True n') | None \<Rightarrow> Slab (Slub fl n ca False np))\<rparr>)))
                     | _ \<Rightarrow> Inr (Inl h))
                 | None \<Rightarrow> Inr (Inl (set_cache h i (c\<lparr>partial_slabs_head := next_opt\<rparr>))))
               else Inr (Inr (next_opt, Some current_ppn))
           | _ \<Rightarrow> Inl (Panicked ''FATAL: Non-Slub page found in partial_slabs_head!'')))
       (partial_slabs_head c, None))"

definition free_object :: "nat \<Rightarrow> usize \<Rightarrow> phys_page_num \<Rightarrow> heap \<Rightarrow> heap res" where
  "free_object i ptr slab_ppn h = rbind (get_page_state h slab_ppn) (\<lambda>page. case page_state page of
       Slab (Slub fl n ca next np) \<Rightarrow> rbind (index (caches h) i) (\<lambda>c.
         let was_full = (va_val fl = 0);
             is_active = (active_slab_ppn c = Some slab_ppn);
             h1 = h\<lparr>heap_mem := store (heap_mem h) ptr (va_val fl)\<rparr>;
             slab1 = Slub (va_from_usize ptr) (n - 1) ca next np;
             h2 = set_page h1 slab_ppn (page\<lparr>page_state := Slab slab1\<rparr>)
         in if n - 1 = 0
            then rbind (if is_active then Inr (set_cache h2 i (c\<lparr>active_slab_ppn := None\<rparr>)) else remove_from_partial i slab_ppn h2) (\<lambda>h3.
              let required_pages = shr (object_size c + PAGE_SIZE - 1) PAGE_SIZE_BITS;
                  allocate_pages = next_power_of_two (max required_pages 1)
              in rbind (for_pages (\<lambda>p. write_page p 0 Free) slab_ppn [0 ..< unat allocate_pages] h3) (\<lambda>h4.
                 rbind (require (allocate_pages \<noteq> 0) Unwrap_none (buddy_dealloc (heap_frames h4) slab_ppn allocate_pages)) (\<lambda>b.
                 Inr (set_frames h4 b))))
            else if was_full \<and> \<not> is_active
            then let slab2 = (case partial_slabs_head c of
                     Some old_ppn \<Rightarrow> Slub (va_from_usize ptr) (n - 1) ca True old_ppn
                   | None \<Rightarrow> Slub (va_from_usize ptr) (n - 1) ca False np)
                 in Inr (set_cache (set_page h2 slab_ppn (page\<lparr>page_state := Slab slab2\<rparr>)) i (c\<lparr>partial_slabs_head := Some slab_ppn\<rparr>))
            else Inr h2)
     | _ \<Rightarrow> Inl (Panicked ''FATAL: free_object called on a non-Slub page!''))"

section \<open>The global allocator\<close>

definition layout_class :: "usize \<Rightarrow> usize \<Rightarrow> usize" where
  "layout_class sz align = max (next_power_of_two (max sz align)) 8"

definition slub_alloc :: "usize \<Rightarrow> usize \<Rightarrow> heap \<Rightarrow> (usize \<times> heap) res" where
  "slub_alloc sz align h = (let actual_size = layout_class sz align in
     if actual_size \<le> 2048
     then let i = trailing_zeros actual_size - 3 in rbind (index (caches h) i) (\<lambda>_. cache_alloc i h)
     else Inl Unimplemented)"

definition slub_dealloc :: "usize \<Rightarrow> usize \<Rightarrow> usize \<Rightarrow> heap \<Rightarrow> heap res" where
  "slub_dealloc ptr sz align h = (let actual_size = layout_class sz align; pa = virt_to_phys ptr; ppn = ppn_from_usize pa in
     if actual_size > 2048
     then let pgs = shr actual_size PAGE_SIZE_BITS in
       rbind (for_pages (\<lambda>p. write_page p 0 Free) ppn [0 ..< unat pgs] h) (\<lambda>h1.
       rbind (require (pgs \<noteq> 0) Unwrap_none (buddy_dealloc (heap_frames h1) ppn pgs)) (\<lambda>b. Inr (set_frames h1 b)))
     else rbind (get_page_state h ppn) (\<lambda>page. case page_state page of
         Slab (Slub fl n ca next np) \<Rightarrow> free_object ca ptr ppn h
       | Slab (SlubTail head_ppn) \<Rightarrow> rbind (get_page_state h head_ppn) (\<lambda>head_page. case page_state head_page of
             Slab (Slub fl n ca next np) \<Rightarrow> free_object ca ptr head_ppn h
           | _ \<Rightarrow> Inl (Panicked ''FATAL: SlubTail does not point to a Slub Head!''))
       | _ \<Rightarrow> Inl (Panicked ''FATAL: Tried to dealloc a pointer not belonging to SLUB!'')))"

section \<open>Objects of a slab\<close>

abbreviation slab_va :: "phys_page_num \<Rightarrow> usize" where
  "slab_va p \<equiv> phys_to_virt (pa_val (pa_from_ppn p))"

text \<open>Cache \<open>i\<close> has objects of \<open>2 ^ (i + 3)\<close> bytes; \<open>obj i p k\<close> is the address of object \<open>k\<close> of the slab in page \<open>p\<close>.\<close>

definition osize :: "nat \<Rightarrow> nat" where
  "osize i = 2 ^ (i + 3)"

definition ocount :: "nat \<Rightarrow> nat" where
  "ocount i = 2 ^ (9 - i)"

definition obj :: "nat \<Rightarrow> phys_page_num \<Rightarrow> nat \<Rightarrow> usize" where
  "obj i p k = slab_va p + of_nat (k * osize i)"

definition low_page :: "phys_page_num \<Rightarrow> bool" where
  "low_page p \<longleftrightarrow> unat (ppn_val p) + 1 < 2 ^ 20"

lemma osize_count: "i < 9 \<Longrightarrow> osize i * ocount i = 4096"
proof -
  assume "i < 9"
  then have "(2::nat) ^ (i + 3) * 2 ^ (9 - i) = 2 ^ 12" by (simp flip: power_add)
  then show ?thesis by (simp add: osize_def ocount_def)
qed

lemma osize_pos [simp]: "0 < osize i" "0 < ocount i" "osize i \<noteq> 0" "ocount i \<noteq> 0"
  by (simp_all add: osize_def ocount_def)

lemma osize_bound: "i < 9 \<Longrightarrow> osize i \<le> 2048"
proof -
  assume "i < 9"
  then have "(2::nat) ^ (i + 3) \<le> 2 ^ 11" by (intro power_increasing) auto
  then show ?thesis by (simp add: osize_def)
qed

lemma unat_slab_off:
  assumes "low_page p" and "d \<le> 4096"
  shows "unat (slab_va p + of_nat d) = 0xFFFFFFFF00000000 + unat (ppn_val p) * 4096 + d"
proof -
  have p: "unat (ppn_val p) < 1048575" using assms(1) by (simp add: low_page_def)
  then have pa: "unat (pa_val (pa_from_ppn p)) = unat (ppn_val p) * 4096" by (intro unat_pa_from_ppn) simp
  have d: "unat (of_nat d :: usize) = d" using assms(2) by (subst unat_of_nat) simp
  have a: "unat (pa_val (pa_from_ppn p) + PHYS_VIRT_OFFSET) = unat (ppn_val p) * 4096 + 0xFFFFFFFF00000000"
    by (subst unat_word_plus) (use p pa in \<open>simp_all add: PHYS_VIRT_OFFSET_def\<close>)
  have "unat (pa_val (pa_from_ppn p) + PHYS_VIRT_OFFSET + of_nat d) = unat (ppn_val p) * 4096 + 0xFFFFFFFF00000000 + d"
    by (subst unat_word_plus) (use p a d assms(2) in simp_all)
  then show ?thesis by (simp add: phys_to_virt_def)
qed

lemma unat_obj:
  assumes "low_page p" and "i < 9" and "k \<le> ocount i"
  shows "unat (obj i p k) = 0xFFFFFFFF00000000 + unat (ppn_val p) * 4096 + k * osize i"
proof -
  have "k * osize i \<le> ocount i * osize i" using assms(3) by simp
  also have "\<dots> = 4096" using osize_count [OF assms(2)] by (simp add: mult.commute)
  finally show ?thesis unfolding obj_def by (rule unat_slab_off [OF assms(1)])
qed

lemma obj_Suc: "obj i p k + of_nat (osize i) = obj i p (Suc k)"
  by (simp add: obj_def algebra_simps)

lemma obj_0: "obj i p 0 = slab_va p"
  by (simp add: obj_def)

lemma obj_stop: "i < 9 \<Longrightarrow> slab_va p + PAGE_SIZE = obj i p (ocount i)"
proof -
  assume "i < 9"
  then have "ocount i * osize i = 4096" using osize_count by (simp add: mult.commute)
  then show ?thesis by (simp add: obj_def PAGE_SIZE_def)
qed

lemma obj_less:
  assumes "low_page p" "i < 9" "j \<le> ocount i" "k \<le> ocount i"
  shows "obj i p j < obj i p k \<longleftrightarrow> j < k" and "obj i p j = obj i p k \<longleftrightarrow> j = k"
  using unat_obj [OF assms(1,2,3)] unat_obj [OF assms(1,2,4)] 
  by (simp_all add: word_less_nat_alt word_unat_eq_iff)

lemma obj_neq_0: "low_page p \<Longrightarrow> i < 9 \<Longrightarrow> k \<le> ocount i \<Longrightarrow> obj i p k \<noteq> 0"
  using unat_obj [of p i k] by auto

lemma phys_obj: "virt_to_phys (slab_va p + d) = pa_val (pa_from_ppn p) + d"
  by (simp add: phys_to_virt_def virt_to_phys_def)

lemma unat_phys_obj:
  assumes "low_page p" "i < 9" "k < ocount i"
  shows "unat (virt_to_phys (obj i p k)) = unat (ppn_val p) * 4096 + k * osize i \<and> k * osize i < 4096"
proof -
  have p: "unat (ppn_val p) < 1048575" using assms(1) by (simp add: low_page_def)
  then have pa: "unat (pa_val (pa_from_ppn p)) = unat (ppn_val p) * 4096" by (intro unat_pa_from_ppn) simp
  have "k * osize i < ocount i * osize i" using assms(3) by simp
  also have "\<dots> = 4096" using osize_count [OF assms(2)] by (simp add: mult.commute)
  finally have k: "k * osize i < 4096" .
  have d: "unat (of_nat (k * osize i) :: usize) = k * osize i" using k by (subst unat_of_nat) simp
  have "unat (pa_val (pa_from_ppn p) + of_nat (k * osize i)) = unat (ppn_val p) * 4096 + k * osize i"
    by (subst unat_word_plus) (use p pa d k in simp_all)
  then show ?thesis unfolding obj_def phys_obj using k by simp
qed

lemma obj_page:
  assumes "low_page p" "i < 9" "k < ocount i"
  shows "unat (virt_to_phys (obj i p k)) div 4096 = unat (ppn_val p)"
  using unat_phys_obj [OF assms] by auto

section \<open>Free lists\<close>

text \<open>\<open>chain m a xs\<close>: the free list that starts at the address \<open>a\<close> consists of the objects \<open>xs\<close>; 0 ends it.\<close>

fun chain :: "memory \<Rightarrow> usize \<Rightarrow> usize list \<Rightarrow> bool" where
  "chain m a [] \<longleftrightarrow> a = 0"
| "chain m a (x # xs) \<longleftrightarrow> a = x \<and> a \<noteq> 0 \<and> chain m (load m a) xs"

lemma chain_frame: "chain m a xs \<Longrightarrow> (\<And>x. x \<in> set xs \<Longrightarrow> load m' x = load m x) \<Longrightarrow> chain m' a xs"
  by (induction m a xs rule: chain.induct) simp_all

lemma chain_0: "chain m 0 xs \<longleftrightarrow> xs = []"
  by (cases xs) auto

lemma chain_nonzero: "a \<noteq> 0 \<Longrightarrow> chain m a xs \<longleftrightarrow> (\<exists>ys. xs = a # ys \<and> chain m (load m a) ys)"
  by (cases xs) auto

definition next_obj :: "nat \<Rightarrow> phys_page_num \<Rightarrow> nat \<Rightarrow> usize" where
  "next_obj i p k = (if Suc k < ocount i then obj i p (Suc k) else 0)"

lemma carve_loop:
  assumes p: "low_page p" and i: "i < 9" and "k \<le> ocount i"
  shows "\<exists>m'. loop_res (\<lambda>(va, m). if va < obj i p (ocount i)
         then let next_va = va + of_nat (osize i); next_addr = (if next_va < obj i p (ocount i) then next_va else 0)
              in Inr (Inr (va + of_nat (osize i), store m va next_addr))
         else Inr (Inl m)) (obj i p k, m) = Inr m'
    \<and> (\<forall>j. k \<le> j \<longrightarrow> j < ocount i \<longrightarrow> load m' (obj i p j) = next_obj i p j)
    \<and> (\<forall>a. (\<forall>j. k \<le> j \<longrightarrow> j < ocount i \<longrightarrow> a \<noteq> virt_to_phys (obj i p j)) \<longrightarrow> m' a = m a)"
  (is "\<exists>m'. loop_res ?body _ = _ \<and> _")
  using assms(3)
proof (induction "ocount i - k" arbitrary: k m)
  case 0
  then have "k = ocount i" by simp
  then show ?case by (intro exI [of _ m]) (simp add: loop_res_simps(2))
next
  case (Suc d)
  then have k: "k < ocount i" by simp
  let ?m1 = "store m (obj i p k) (next_obj i p k)"
  have "?body (obj i p k, m) = Inr (Inr (obj i p (Suc k), ?m1))"
    using k by (simp add: obj_less [OF p i] obj_Suc Let_def next_obj_def)
  then have step: "loop_res ?body (obj i p k, m) = loop_res ?body (obj i p (Suc k), ?m1)" by (rule loop_res_simps(3))
  have "d = ocount i - Suc k" "Suc k \<le> ocount i" using Suc.hyps(2) k by simp_all
  from Suc.hyps(1) [OF this, of ?m1] obtain m' where m': "loop_res ?body (obj i p (Suc k), ?m1) = Inr m'"
    "\<And>j. Suc k \<le> j \<Longrightarrow> j < ocount i \<Longrightarrow> load m' (obj i p j) = next_obj i p j"
    "\<And>a. (\<forall>j. Suc k \<le> j \<longrightarrow> j < ocount i \<longrightarrow> a \<noteq> virt_to_phys (obj i p j)) \<Longrightarrow> m' a = ?m1 a" by blast
  have inj: "virt_to_phys (obj i p k) = virt_to_phys (obj i p j) \<longleftrightarrow> k = j" if "j < ocount i" for j
    using that k obj_less(2) [OF p i, of k j] by (simp add: virt_to_phys_def)
  have "m' (virt_to_phys (obj i p k)) = ?m1 (virt_to_phys (obj i p k))" by (rule m'(3)) (use inj in auto)
  then have "load m' (obj i p k) = next_obj i p k" by (simp add: load_def store_def)
  then have "load m' (obj i p j) = next_obj i p j" if "k \<le> j" "j < ocount i" for j
    using m'(2) that by (cases "j = k") simp_all
  moreover have "m' a = m a" if "\<forall>j. k \<le> j \<longrightarrow> j < ocount i \<longrightarrow> a \<noteq> virt_to_phys (obj i p j)" for a
  proof -
    have "m' a = ?m1 a" using that by (intro m'(3)) simp
    then show ?thesis using that k by (simp add: store_def)
  qed
  ultimately show ?case using step m'(1) by (intro exI [of _ m']) simp
qed

definition objs :: "nat \<Rightarrow> phys_page_num \<Rightarrow> usize list" where
  "objs i p = map (obj i p) [0 ..< ocount i]"

lemma chain_objs:
  assumes p: "low_page p" and i: "i < 9" and m: "\<And>j. j < ocount i \<Longrightarrow> load m (obj i p j) = next_obj i p j" and "k < ocount i"
  shows "chain m (obj i p k) (map (obj i p) [k ..< ocount i])"
  using assms(4)
proof (induction "ocount i - k" arbitrary: k)
  case (Suc d)
  have nz: "obj i p k \<noteq> 0" using Suc.prems by (intro obj_neq_0 [OF p i]) simp
  have u: "[k ..< ocount i] = k # [Suc k ..< ocount i]" using Suc.prems by (rule upt_conv_Cons)
  show ?case
  proof (cases "Suc k < ocount i")
    case True
    then have "chain m (obj i p (Suc k)) (map (obj i p) [Suc k ..< ocount i])" using Suc.hyps by (intro Suc.hyps(1)) simp_all
    then show ?thesis unfolding u using nz m [OF Suc.prems] True by (simp add: next_obj_def)
  next
    case False
    then have "[Suc k ..< ocount i] = []" by simp
    then show ?thesis unfolding u using nz m [OF Suc.prems] False by (simp add: next_obj_def)
  qed
qed simp

lemma carve_page_ok:
  assumes p: "low_page p" and i: "i < 9"
  obtains m' where "carve_page (of_nat (osize i)) (slab_va p) m = Inr m'" "chain m' (slab_va p) (objs i p)"
    "\<And>a. unat a div 4096 \<noteq> unat (ppn_val p) \<Longrightarrow> m' a = m a"
proof -
  from carve_loop [OF p i, of 0 m] obtain m' where m': "loop_res (\<lambda>(va, m). if va < obj i p (ocount i)
         then let next_va = va + of_nat (osize i); next_addr = (if next_va < obj i p (ocount i) then next_va else 0)
              in Inr (Inr (va + of_nat (osize i), store m va next_addr))
         else Inr (Inl m)) (obj i p 0, m) = Inr m'"
    "\<And>j. j < ocount i \<Longrightarrow> load m' (obj i p j) = next_obj i p j"
    "\<And>a. (\<forall>j. j < ocount i \<longrightarrow> a \<noteq> virt_to_phys (obj i p j)) \<Longrightarrow> m' a = m a" by auto
  have "carve_page (of_nat (osize i)) (slab_va p) m = Inr m'"
    using m'(1) unfolding carve_page_def Let_def obj_stop [OF i] obj_0 .
  moreover have "chain m' (obj i p 0) (objs i p)" unfolding objs_def by (rule chain_objs [OF p i]) (simp_all add: m'(2))
  moreover have "m' a = m a" if "unat a div 4096 \<noteq> unat (ppn_val p)" for a
    by (rule m'(3)) (use that obj_page [OF p i] in auto)
  ultimately show thesis using that obj_0 by metis
qed

lemma objs_facts:
  assumes "low_page p" "i < 9"
  shows "distinct (objs i p)" "length (objs i p) = ocount i" "0 \<notin> set (objs i p)"
    "x \<in> set (objs i p) \<Longrightarrow> unat (virt_to_phys x) div 4096 = unat (ppn_val p)"
  using obj_less(2) [OF assms] obj_neq_0 [OF assms] obj_page [OF assms]
  by (auto simp: objs_def distinct_map inj_on_def)

section \<open>Invariant\<close>

definition slab_of :: "heap \<Rightarrow> phys_page_num \<Rightarrow> slab option" where
  "slab_of h p = (case get_page_state h p of
       Inl _ \<Rightarrow> None
     | Inr pg \<Rightarrow> (case page_state pg of Slab s \<Rightarrow> if is_Slub s then Some s else None | _ \<Rightarrow> None))"

text \<open>\<open>fr p\<close> lists the free objects of the slab in page \<open>p\<close>.\<close>

definition slab_ok :: "memory \<Rightarrow> (phys_page_num \<Rightarrow> usize list) \<Rightarrow> phys_page_num \<Rightarrow> slab \<Rightarrow> bool" where
  "slab_ok m fr p s \<longleftrightarrow> slab_cache s < 9 \<and> low_page p \<and> chain m (va_val (freelist s)) (fr p) \<and> distinct (fr p)
     \<and> set (fr p) \<subseteq> set (objs (slab_cache s) p) \<and> unat (inuse s) + length (fr p) = ocount (slab_cache s)"

definition slab_next :: "slab \<Rightarrow> phys_page_num option" where
  "slab_next s = (if has_next s then Some (next_partial s) else None)"

fun plist :: "heap \<Rightarrow> nat \<Rightarrow> phys_page_num option \<Rightarrow> phys_page_num list \<Rightarrow> bool" where
  "plist h i po [] \<longleftrightarrow> po = None"
| "plist h i po (p # ps) \<longleftrightarrow> po = Some p \<and> (\<exists>s. slab_of h p = Some s \<and> slab_cache s = i
     \<and> plist h i (slab_next s) ps)"

definition cache_ok :: "heap \<Rightarrow> nat \<Rightarrow> kmem_cache \<Rightarrow> bool" where
  "cache_ok h i c \<longleftrightarrow> object_size c = of_nat (osize i)
     \<and> (\<forall>p. active_slab_ppn c = Some p \<longrightarrow> (\<exists>s. slab_of h p = Some s \<and> slab_cache s = i))
     \<and> (\<exists>ps. plist h i (partial_slabs_head c) ps)"

text \<open>\<open>F0\<close>: the page frames the heap shares with the other users of the buddy allocator, \<open>F\<close>: those that are free.\<close>

definition heap_ok :: "nat set \<Rightarrow> nat set \<Rightarrow> heap \<Rightarrow> (phys_page_num \<Rightarrow> usize list) \<Rightarrow> bool" where
  "heap_ok F0 F h fr \<longleftrightarrow> length (caches h) = 9 \<and> (\<forall>i < 9. cache_ok h i (caches h ! i))
     \<and> (\<forall>p s. slab_of h p = Some s \<longrightarrow> slab_ok (heap_mem h) fr p s \<and> unat (ppn_val p) \<in> F0 - F)
     \<and> has_free (heap_frames h) F \<and> F \<subseteq> F0
     \<and> F0 \<subseteq> {unat (ram_start_ppn h) ..< unat (ram_start_ppn h) + length (mem_map h)} \<and> F0 \<subseteq> {..< 2 ^ 20 - 1}"

definition live_in :: "heap \<Rightarrow> (phys_page_num \<Rightarrow> usize list) \<Rightarrow> phys_page_num \<Rightarrow> usize \<Rightarrow> nat \<Rightarrow> bool" where
  "live_in h fr p x i \<longleftrightarrow> (case slab_of h p of None \<Rightarrow> False
     | Some s \<Rightarrow> slab_cache s = i \<and> x \<in> set (objs i p) \<and> x \<notin> set (fr p))"

definition live :: "heap \<Rightarrow> (phys_page_num \<Rightarrow> usize list) \<Rightarrow> (usize \<times> nat) set" where
  "live h fr = {(x, i). \<exists>p. live_in h fr p x i}"

lemma is_Slub_eq: "is_Slub s \<longleftrightarrow> s = Slub (freelist s) (inuse s) (slab_cache s) (has_next s) (next_partial s)"
  by (cases s) simp_all

lemma slab_ofD:
  assumes "slab_of h p = Some s"
  obtains pg where "get_page_state h p = Inr pg"
    "page_state pg = Slab (Slub (freelist s) (inuse s) (slab_cache s) (has_next s) (next_partial s))"
proof -
  from assms obtain pg where "get_page_state h p = Inr pg" "page_state pg = Slab s" "is_Slub s"
    by (auto simp: slab_of_def split: sum.splits page_state.splits if_splits)
  then show thesis using that is_Slub_eq by metis
qed

lemma set_cache_simps [simp]:
  "mem_map (set_cache h i c) = mem_map h" "ram_start_ppn (set_cache h i c) = ram_start_ppn h" "heap_buddy (set_cache h i c) = heap_buddy h"
  "heap_mem (set_cache h i c) = heap_mem h" "length (caches (set_cache h i c)) = length (caches h)"
  "get_page_state (set_cache h i c) = get_page_state h" "slab_of (set_cache h i c) = slab_of h"
  by (simp_all add: set_cache_def get_page_state_def page_index_def slab_of_def fun_eq_iff)

lemma caches_set_cache: "i < length (caches h) \<Longrightarrow> caches (set_cache h i c) ! j = (if j = i then c else caches h ! j)"
  by (simp add: set_cache_def nth_list_update)

lemma plist_cong:
  assumes "plist h i po ps"
    and "\<And>p s. slab_of h p = Some s \<Longrightarrow> \<exists>s'. slab_of h' p = Some s' \<and> slab_cache s' = slab_cache s \<and> slab_next s' = slab_next s"
  shows "plist h' i po ps"
  using assms(1)
proof (induction ps arbitrary: po)
  case (Cons p ps)
  then obtain s where s: "po = Some p" "slab_of h p = Some s" "slab_cache s = i" "plist h i (slab_next s) ps" by auto
  from assms(2) [OF s(2)] obtain s' where "slab_of h' p = Some s'" "slab_cache s' = slab_cache s" "slab_next s' = slab_next s" by blast
  with s Cons.IH [OF s(4)] show ?case by simp
qed simp

lemma cache_ok_cong:
  assumes "cache_ok h i c"
    and "\<And>p s. slab_of h p = Some s \<Longrightarrow> \<exists>s'. slab_of h' p = Some s' \<and> slab_cache s' = slab_cache s \<and> slab_next s' = slab_next s"
  shows "cache_ok h' i c"
proof -
  obtain ps where "plist h i (partial_slabs_head c) ps" using assms(1) by (auto simp: cache_ok_def)
  then have "plist h' i (partial_slabs_head c) ps" by (rule plist_cong) (rule assms(2))
  moreover have "\<exists>s. slab_of h' p = Some s \<and> slab_cache s = i" if "active_slab_ppn c = Some p" for p
    using assms(1) that assms(2) unfolding cache_ok_def by metis
  ultimately show ?thesis using assms(1) unfolding cache_ok_def by blast
qed

lemma heap_ok_set_cache:
  assumes "heap_ok F0 F h fr" and "i < 9" and "cache_ok h i c"
  shows "heap_ok F0 F (set_cache h i c) fr"
proof -
  have "cache_ok (set_cache h i c) j (caches (set_cache h i c) ! j)" if "j < 9" for j
  proof -
    have "cache_ok h j (if j = i then c else caches h ! j)" using assms that by (simp add: heap_ok_def)
    then have "cache_ok (set_cache h i c) j (if j = i then c else caches h ! j)" by (rule cache_ok_cong) simp
    then show ?thesis using assms(1,2) by (simp add: caches_set_cache heap_ok_def)
  qed
  then show ?thesis using assms(1) by (simp add: heap_ok_def)
qed

lemma live_set_cache [simp]: "live (set_cache h i c) fr = live h fr"
  by (simp add: live_def live_in_def)

lemma page_index_inject: "page_index h p = page_index h q \<longleftrightarrow> p = q"
  by (cases p; cases q) (simp add: page_index_def word_unat_eq_iff [symmetric])

lemma set_page_simps [simp]:
  "caches (set_page h p pg) = caches h" "ram_start_ppn (set_page h p pg) = ram_start_ppn h" "heap_buddy (set_page h p pg) = heap_buddy h"
  "heap_mem (set_page h p pg) = heap_mem h" "length (mem_map (set_page h p pg)) = length (mem_map h)"
  by (simp_all add: set_page_def)

lemma get_set_page:
  assumes "page_index h p < length (mem_map h)"
  shows "get_page_state (set_page h p pg) q = (if q = p then Inr pg else get_page_state h q)"
  using assms page_index_inject [of h p q] by (auto simp: get_page_state_def set_page_def page_index_def index_def)

lemma slab_of_set_page:
  assumes "page_index h p < length (mem_map h)" and "page_state pg = Slab s" "is_Slub s"
  shows "slab_of (set_page h p pg) q = (if q = p then Some s else slab_of h q)"
  using assms by (simp add: slab_of_def get_set_page)

lemma get_page_index: "get_page_state h p = Inr pg \<Longrightarrow> page_index h p < length (mem_map h)"
  by (simp add: get_page_state_def)

lemma heap_okD:
  assumes "heap_ok F0 F h fr"
  shows "length (caches h) = 9" "i < 9 \<Longrightarrow> cache_ok h i (caches h ! i)"
    "slab_of h p = Some s \<Longrightarrow> slab_ok (heap_mem h) fr p s" "slab_of h p = Some s \<Longrightarrow> unat (ppn_val p) \<in> F0 - F"
    "has_free (heap_frames h) F" "F \<subseteq> F0"
  using assms by (simp_all add: heap_ok_def)

lemma objs_page_unique:
  assumes "x \<in> set (objs i p)" "x \<in> set (objs j q)" "low_page p" "low_page q" "i < 9" "j < 9"
  shows "p = q"
proof -
  have "unat (ppn_val p) = unat (ppn_val q)"
    using objs_facts(4) [OF assms(3,5,1)] objs_facts(4) [OF assms(4,6,2)] by simp
  then show ?thesis by (cases p; cases q) (simp add: word_unat_eq_iff)
qed

text \<open>A slab with a free object: it is taken from the front of the list.\<close>

lemma take_object:
  assumes ok: "heap_ok F0 F h fr" and s: "slab_of h p = Some s" and fr: "fr p = x # xs" and i: "slab_cache s = i"
    and pg: "get_page_state h p = Inr pg"
    and h': "h' = set_page h p (pg\<lparr>page_state := Slab (Slub (VirtAddr (load (heap_mem h) x)) (inuse s + 1) i (has_next s) (next_partial s))\<rparr>)"
  shows "heap_ok F0 F h' (fr(p := xs))" and "live h' (fr(p := xs)) = insert (x, i) (live h fr)" and "(x, i) \<notin> live h fr"
proof -
  let ?s = "Slub (VirtAddr (load (heap_mem h) x)) (inuse s + 1) i (has_next s) (next_partial s)"
  note sok = heap_okD(3) [OF ok s, unfolded slab_ok_def i fr]
  have so: "slab_of h' q = (if q = p then Some ?s else slab_of h q)" for q
    unfolding h' by (rule slab_of_set_page [OF get_page_index [OF pg]]) simp_all
  have "ocount i \<le> 512" unfolding ocount_def using power_increasing [of "9 - i" 9 "2::nat"] by simp
  then have n: "unat (inuse s) < 512" using sok by simp
  then have n1: "unat (inuse s + 1) = unat (inuse s) + 1" by (simp add: unat_word_ariths)
  have new: "slab_ok (heap_mem h) (fr(p := xs)) p ?s" using sok n1 by (auto simp: slab_ok_def)
  have m: "heap_mem h' = heap_mem h" by (simp add: h')
  have "slab_ok (heap_mem h') (fr(p := xs)) q t \<and> unat (ppn_val q) \<in> F0 - F" if "slab_of h' q = Some t" for q t
  proof (cases "q = p")
    case True
    then show ?thesis using new that heap_okD(4) [OF ok s] by (simp add: so m)
  next
    case False
    with that so have "slab_of h q = Some t" by simp
    then show ?thesis using heap_okD(3,4) [OF ok] False by (simp add: slab_ok_def m)
  qed
  moreover have "cache_ok h' j (caches h' ! j)" if "j < 9" for j
    unfolding h' set_page_simps unfolding h' [symmetric]
    by (rule cache_ok_cong [OF heap_okD(2) [OF ok that]]) (use s i in \<open>auto simp: so slab_next_def\<close>)
  ultimately show "heap_ok F0 F h' (fr(p := xs))" using ok by (simp add: heap_ok_def h')
  have x: "x \<in> set (objs i p)" "x \<notin> set xs" using sok by auto
  show "live h' (fr(p := xs)) = insert (x, i) (live h fr)"
  proof -
    have "live_in h' (fr(p := xs)) q y j \<longleftrightarrow> live_in h fr q y j \<or> q = p \<and> y = x \<and> j = i" for q y j
    proof (cases "q = p")
      case True
      then show ?thesis using s i fr x by (auto simp: live_in_def so)
    next
      case False
      then show ?thesis by (simp add: live_in_def so split: option.splits)
    qed
    then show ?thesis by (auto simp: live_def)
  qed
  show "(x, i) \<notin> live h fr"
  proof
    assume "(x, i) \<in> live h fr"
    then obtain q t where q: "slab_of h q = Some t" "slab_cache t = i" "x \<in> set (objs i q)" "x \<notin> set (fr q)"
      by (auto simp: live_def live_in_def split: option.splits)
    note qok = heap_okD(3) [OF ok q(1), unfolded slab_ok_def q(2)]
    have "p = q" by (rule objs_page_unique [OF x(1) q(3)]) (use sok qok in simp_all)
    then show False using q(4) fr by simp
  qed
qed

section \<open>New slabs\<close>

lemma buddy_alloc_page:
  assumes "has_free b F"
  obtains (none) "buddy_alloc b 1 = Inr (None, b)" "F = {}"
  | (page) p b' where "buddy_alloc b 1 = Inr (Some p, b')" "unat (ppn_val p) \<in> F" "has_free b' (F - {unat (ppn_val p)})" "untouched F (snd b) (snd b')"
proof -
  obtain fl where fl: "buddy_inv b fl" "coalesced (block_set fl)" "free_pages fl = F" using assms by (auto simp: has_free_def)
  have run: "buddy_run p 1 = {unat (ppn_val p)}" for p by (simp add: buddy_run_def order_one)
  from fl(1) show thesis
  proof (cases rule: buddy_alloc_cases [of b fl 1])
    case no_block
    then have "F = {}" using one_page [OF assms] by fastforce
    then show ?thesis using none no_block(1) by blast
  next
    case (block p b' fl')
    then have "has_free b' (F - {unat (ppn_val p)})" unfolding has_free_def using fl(2,3) run by metis
    then show ?thesis using page [OF block(1)] block(3,7) fl(3) run by auto
  qed
qed

lemma va_from_slab: "low_page p \<Longrightarrow> va_from_usize (slab_va p) = VirtAddr (slab_va p)"
proof -
  assume p: "low_page p"
  then have "unat (pa_val (pa_from_ppn p)) = unat (ppn_val p) * 4096" by (intro unat_pa_from_ppn) (simp add: low_page_def)
  then have "unat (pa_val (pa_from_ppn p)) < 2 ^ 32" using p by (simp add: low_page_def)
  from canonical_linear [OF this] show ?thesis by (simp add: va_from_usize_sign_extend canonical_def)
qed

text \<open>Memory that changes only in pages that hold no slab keeps every slab.\<close>

lemma slab_ok_frame:
  assumes "slab_ok m fr p s" and "\<And>a. unat a div 4096 = unat (ppn_val p) \<Longrightarrow> m' a = m a"
  shows "slab_ok m' fr p s"
proof -
  have "load m' x = load m x" if "x \<in> set (fr p)" for x
    using assms that objs_facts(4) [of p "slab_cache s" x] by (auto simp: slab_ok_def load_def)
  then have "chain m' (va_val (freelist s)) (fr p)" using assms(1) chain_frame by (auto simp: slab_ok_def)
  then show ?thesis using assms(1) by (simp add: slab_ok_def)
qed

lemma slab_ok_new:
  assumes "low_page p" "i < 9" "chain m (slab_va p) (objs i p)"
  shows "slab_ok m (fr(p := objs i p)) p (Slub (va_from_usize (slab_va p)) 0 i nx np)"
  using assms objs_facts [OF assms(1,2)] by (simp add: slab_ok_def va_from_slab)

lemma object_size_less: "i < 9 \<Longrightarrow> of_nat (osize i) < PAGE_SIZE"
proof -
  assume "i < 9"
  then have "osize i \<le> 2048" by (rule osize_bound)
  moreover from this have "unat (of_nat (osize i) :: usize) = osize i" by (subst unat_of_nat) simp
  ultimately show ?thesis by (simp add: word_less_nat_alt PAGE_SIZE_def)
qed

lemma page_index_low:
  assumes "unat (ram_start_ppn h) \<le> unat (ppn_val p)"
  shows "page_index h p = unat (ppn_val p) - unat (ram_start_ppn h)"
  using assms unat_word_minus [of "ram_start_ppn h" "ppn_val p"] by (simp add: page_index_def)

lemma alloc_new_slab_eq:
  assumes "heap_ok F0 F h fr" and i: "i < 9" and "partial_slabs_head (caches h ! i) = None"
    and "buddy_alloc (heap_frames h) 1 = Inr (Some p, b)" "unat (ppn_val p) \<in> F" "carve_page (of_nat (osize i)) (slab_va p) (snd b) = Inr m"
  shows "alloc_new_slab i h = Inr (Ok p, set_page (set_cache (set_frames h (fst b, m)) i ((caches h ! i)\<lparr>partial_slabs_head := Some p\<rparr>)) p
    \<lparr>ref_count = 1, page_state = Slab (Slub (va_from_usize (slab_va p)) 0 i False (PhysPageNum 0))\<rparr>)"
proof -
  have c: "object_size (caches h ! i) = of_nat (osize i)" "length (caches h) = 9"
    using heap_okD(1,2) [OF assms(1)] i by (simp_all add: cache_ok_def)
  have "page_index h p < length (mem_map h)"
  proof -
    have "unat (ppn_val p) \<in> {unat (ram_start_ppn h) ..< unat (ram_start_ppn h) + length (mem_map h)}"
      using assms(1,5) unfolding heap_ok_def by blast
    then show ?thesis by (subst page_index_low) auto
  qed
  then have "index (mem_map h) (page_index h p) = Inr (mem_map h ! page_index h p)" by (simp add: index_def)
  then have "write_page p rc st (set_cache (set_frames h (fst b, m)) i c') = Inr (set_page (set_cache (set_frames h (fst b, m)) i c') p \<lparr>ref_count = rc, page_state = st\<rparr>)" for rc st c'
    by (simp add: write_page_def get_page_state_def page_index_def)
  then show ?thesis using assms(3,4,6) c i object_size_less [OF i]
    by (simp add: alloc_new_slab_def index_def slab_links_def)
qed

lemma new_slab_ok:
  assumes ok: "heap_ok F0 F h fr" and i: "i < 9" and pn: "partial_slabs_head (caches h ! i) = None"
  obtains (oom) "alloc_new_slab i h = Inr (Err OutOfMemory, h)" "F = {}"
  | (slab) p h' s where "alloc_new_slab i h = Inr (Ok p, h')" "heap_ok F0 (F - {unat (ppn_val p)}) h' (fr(p := objs i p))"
      "live h' (fr(p := objs i p)) = live h fr" "slab_of h' p = Some s" "slab_cache s = i" "plist h' i (Some p) [p]"
      "caches h' ! i = (caches h ! i)\<lparr>partial_slabs_head := Some p\<rparr>" "untouched F (heap_mem h) (heap_mem h')" "ram_start_ppn h' = ram_start_ppn h" "length (mem_map h') = length (mem_map h)"
proof (cases rule: buddy_alloc_page [OF heap_okD(5) [OF ok], case_names none page])
  case none
  have c: "object_size (caches h ! i) = of_nat (osize i)" "length (caches h) = 9"
    using heap_okD(1,2) [OF ok] i by (simp_all add: cache_ok_def)
  have "alloc_new_slab i h = Inr (Err OutOfMemory, h)"
    using none(1) c i object_size_less [OF i] by (simp add: alloc_new_slab_def index_def)
  then show thesis using oom none(2) by blast
next
  case (page p b)
  let ?c = "(caches h ! i)\<lparr>partial_slabs_head := Some p\<rparr>" and ?fr = "fr(p := objs i p)" and ?F = "F - {unat (ppn_val p)}"
  have F: "F \<subseteq> F0" "F0 \<subseteq> {..< 2 ^ 20 - 1}" using ok by (simp_all add: heap_ok_def)
  then have lp: "low_page p" using page(2) by (auto simp: low_page_def)
  obtain m where m: "carve_page (of_nat (osize i)) (slab_va p) (snd b) = Inr m" "chain m (slab_va p) (objs i p)"
    "\<And>a. unat a div 4096 \<noteq> unat (ppn_val p) \<Longrightarrow> m a = snd b a" using carve_page_ok [OF lp i, of "snd b"] by metis
  define s where "s = Slub (va_from_usize (slab_va p)) 0 i False (PhysPageNum 0)"
  define h' where "h' = set_page (set_cache (set_frames h (fst b, m)) i ?c) p \<lparr>ref_count = 1, page_state = Slab s\<rparr>"
  have eq: "alloc_new_slab i h = Inr (Ok p, h')" unfolding h'_def s_def by (rule alloc_new_slab_eq [OF ok i pn page(1,2) m(1)])
  have mem: "untouched F (heap_mem h) m" unfolding untouched_def
  proof (intro allI impI)
    fix a :: usize
    assume a: "unat a div 4096 \<notin> F"
    then have "unat a div 4096 \<noteq> unat (ppn_val p)" using page(2) by metis
    then show "m a = heap_mem h a" using m(3) [of a] page(4) a by (simp add: untouched_def)
  qed
  have free: "has_free (fst b, m) ?F" using has_free_frame [of "fst b" "snd b" ?F m] page(3) m(3) by auto
  have new: "slab_of h p = None" using heap_okD(4) [OF ok, of p] page(2) by (cases "slab_of h p") auto
  have "unat (ppn_val p) \<in> {unat (ram_start_ppn h) ..< unat (ram_start_ppn h) + length (mem_map h)}"
    using ok page(2) unfolding heap_ok_def by blast
  then have ix: "page_index h p < length (mem_map h)" by (subst page_index_low) auto
  have so0: "slab_of (set_cache (set_frames h (fst b, m)) i ?c) q = slab_of h q" for q
    unfolding set_cache_simps by (simp add: slab_of_def get_page_state_def page_index_def)
  have so: "slab_of h' q = (if q = p then Some s else slab_of h q)" for q
    unfolding h'_def so0 [symmetric] by (rule slab_of_set_page) (use ix in \<open>simp_all add: page_index_def s_def\<close>)
  have h': "heap_mem h' = m" "heap_buddy h' = fst b" "ram_start_ppn h' = ram_start_ppn h" "length (mem_map h') = length (mem_map h)"
    "length (caches h') = length (caches h)" by (simp_all add: h'_def)
  have ch: "caches h' ! j = (if j = i then ?c else caches h ! j)" for j
    using heap_okD(1) [OF ok] i by (simp add: h'_def set_cache_def nth_list_update)
  have links: "\<exists>s'. slab_of h' q = Some s' \<and> slab_cache s' = slab_cache t \<and> slab_next s' = slab_next t" if "slab_of h q = Some t" for q t
    using that new by (cases "q = p") (simp_all add: so)
  have pl: "plist h' i (Some p) [p]" by (simp add: so s_def slab_next_def)
  have "cache_ok h' j (caches h' ! j)" if j: "j < 9" for j
  proof -
    have old: "cache_ok h' j (caches h ! j)" by (rule cache_ok_cong [OF heap_okD(2) [OF ok j] links])
    have "\<exists>ps. plist h' i (Some p) ps" using pl by blast
    then show ?thesis using old ch [of j] unfolding cache_ok_def by (cases "j = i") simp_all
  qed
  moreover have "slab_ok m ?fr q t \<and> unat (ppn_val q) \<in> F0 - ?F" if "slab_of h' q = Some t" for q t
  proof (cases "q = p")
    case True
    then have "t = s" using that so by simp
    then show ?thesis unfolding True s_def using slab_ok_new [OF lp i m(2)] page(2) F(1) by auto
  next
    case False
    then have t: "slab_of h q = Some t" using that so by simp
    note qF = heap_okD(4) [OF ok t]
    have "slab_ok m fr q t"
      by (rule slab_ok_frame [OF heap_okD(3) [OF ok t]]) (use mem qF in \<open>auto simp: untouched_def\<close>)
    then show ?thesis using qF False by (simp add: slab_ok_def)
  qed
  ultimately have ok': "heap_ok F0 ?F h' ?fr" using ok free by (auto simp: heap_ok_def h')
  have "live_in h' ?fr q y j \<longleftrightarrow> live_in h fr q y j" for q y j
    using new by (cases "q = p") (auto simp: live_in_def so s_def split: option.splits)
  then have "live h' ?fr = live h fr" by (simp add: live_def)
  then show thesis using slab [OF eq ok' _ _ _ pl] so ch [of i] mem h'(1,3,4) by (simp add: s_def)
qed

section \<open>Allocation\<close>

definition same_ram :: "heap \<Rightarrow> heap \<Rightarrow> bool" where
  "same_ram h h' \<longleftrightarrow> ram_start_ppn h' = ram_start_ppn h \<and> length (mem_map h') = length (mem_map h)"

lemma same_ram_simps [simp]: "same_ram h h" "same_ram h (set_page h p pg)" "same_ram (set_cache h i c) h' = same_ram h h'"
  by (simp_all add: same_ram_def)

definition allocated :: "nat set \<Rightarrow> nat set \<Rightarrow> heap \<Rightarrow> (phys_page_num \<Rightarrow> usize list) \<Rightarrow> nat \<Rightarrow> (usize \<times> heap) res \<Rightarrow> bool" where
  "allocated F0 F h fr i r \<longleftrightarrow> (\<exists>x h' fr' F'. r = Inr (x, h') \<and> heap_ok F0 F' h' fr' \<and> F' \<subseteq> F \<and> untouched F (heap_mem h) (heap_mem h') \<and> same_ram h h'
     \<and> (if x = 0 then F = {} \<and> live h' fr' = live h fr else (x, i) \<notin> live h fr \<and> live h' fr' = insert (x, i) (live h fr)))"

lemma allocated_set_cache [simp]: "allocated F0 F (set_cache h i c) fr j r = allocated F0 F h fr j r"
  unfolding allocated_def live_set_cache set_cache_simps same_ram_simps ..

lemma alloc_from_active:
  assumes ok: "heap_ok F0 F h fr" and i: "i < 9" and a: "active_slab_ppn (caches h ! i) = Some p" and fr: "fr p = x # xs"
  shows "\<exists>h' fr'. cache_alloc i h = Inr (x, h') \<and> x \<noteq> 0 \<and> heap_ok F0 F h' fr' \<and> heap_mem h' = heap_mem h \<and> same_ram h h'
    \<and> (x, i) \<notin> live h fr \<and> live h' fr' = insert (x, i) (live h fr)"
proof -
  have c: "index (caches h) i = Inr (caches h ! i)" using heap_okD(1) [OF ok] i by (simp add: index_def)
  obtain s where s: "slab_of h p = Some s" "slab_cache s = i" using heap_okD(2) [OF ok i] a by (auto simp: cache_ok_def)
  from s(1) obtain pg where pg: "get_page_state h p = Inr pg" "page_state pg = Slab (Slub (freelist s) (inuse s) i (has_next s) (next_partial s))"
    using s(2) by (elim slab_ofD) simp
  have x: "va_val (freelist s) = x" "x \<noteq> 0" using heap_okD(3) [OF ok s(1)] fr by (auto simp: slab_ok_def)
  let ?h = "set_page h p (pg\<lparr>page_state := Slab (Slub (VirtAddr (load (heap_mem h) x)) (inuse s + 1) i (has_next s) (next_partial s))\<rparr>)"
  have "alloc_step i h = Inr (Inl (x, ?h))" using c a pg x by (simp add: alloc_step_def)
  then have e: "cache_alloc i h = Inr (x, ?h)" unfolding cache_alloc_def by (rule loop_res_simps(2))
  note t = take_object [OF ok s(1) fr s(2) pg(1) refl]
  show ?thesis unfolding e using t x(2) by (intro exI [of _ ?h] exI [of _ "fr(p := xs)"]) simp
qed

lemma cache_alloc_new:
  assumes ok: "heap_ok F0 F h fr" and i: "i < 9" and a: "active_slab_ppn (caches h ! i) = None" and p: "partial_slabs_head (caches h ! i) = None"
  shows "allocated F0 F h fr i (cache_alloc i h)"
proof -
  have c: "index (caches h) i = Inr (caches h ! i)" using heap_okD(1) [OF ok] i by (simp add: index_def)
  from ok i p show ?thesis
  proof (cases rule: new_slab_ok [case_names oom slab])
    case oom
    then have "alloc_step i h = Inr (Inl (0, h))" using c a p by (simp add: alloc_step_def)
    then have e: "cache_alloc i h = Inr (0, h)" unfolding cache_alloc_def by (rule loop_res_simps(2))
    show ?thesis unfolding e allocated_def using ok oom(2) by auto
  next
    case (slab p' h' s)
    let ?c = "(caches h' ! i)\<lparr>active_slab_ppn := Some p'\<rparr>"
    have l: "length (caches h') = 9" by (rule heap_okD(1) [OF slab(2)])
    have "alloc_step i h = Inr (Inr (set_cache h' i ?c))"
      using c a p slab(1) l i by (simp add: alloc_step_def index_def)
    then have e: "cache_alloc i h = cache_alloc i (set_cache h' i ?c)" unfolding cache_alloc_def by (rule loop_res_simps(3))
    have "cache_ok h' i ?c" using heap_okD(2) [OF slab(2) i] slab(4,5) by (simp add: cache_ok_def)
    from heap_ok_set_cache [OF slab(2) i this] have ok': "heap_ok F0 (F - {unat (ppn_val p')}) (set_cache h' i ?c) (fr(p' := objs i p'))" .
    have lp: "low_page p'" using heap_okD(3) [OF slab(2,4)] by (simp add: slab_ok_def)
    obtain x xs where o: "objs i p' = x # xs" using objs_facts(2) [OF lp i] by (cases "objs i p'") simp_all
    have "active_slab_ppn (caches (set_cache h' i ?c) ! i) = Some p'" using l i by (simp add: caches_set_cache)
    from alloc_from_active [OF ok' i this, of x xs] o obtain h2 fr2 where h2: "cache_alloc i h = Inr (x, h2)" "x \<noteq> 0"
      "heap_ok F0 (F - {unat (ppn_val p')}) h2 fr2" "heap_mem h2 = heap_mem h'" "same_ram h' h2" "(x, i) \<notin> live h fr" "live h2 fr2 = insert (x, i) (live h fr)"
      unfolding e using slab(3) by auto
    then show ?thesis unfolding allocated_def using slab(8-10)
      by (intro exI [of _ x] exI [of _ h2] exI [of _ fr2] exI [of _ "F - {unat (ppn_val p')}"]) (auto simp: same_ram_def)
  qed
qed

text \<open>The loop ends: a round that does not return gives up the active slab or takes one from the list of partial slabs.\<close>

lemma cache_alloc_ok:
  assumes "heap_ok F0 F h fr" and "i < 9"
  shows "allocated F0 F h fr i (cache_alloc i h)"
proof -
  obtain ps where "plist h i (partial_slabs_head (caches h ! i)) ps" using heap_okD(2) [OF assms] by (auto simp: cache_ok_def)
  with assms(1) show ?thesis
  proof (induction "2 * length ps + (if active_slab_ppn (caches h ! i) = None then 0 else 1)" arbitrary: h ps rule: less_induct)
    case less
    note ok = less.prems(1)
    let ?c = "caches h ! i"
    have l: "length (caches h) = 9" and c: "index (caches h) i = Inr ?c" using heap_okD(1) [OF ok] assms(2) by (simp_all add: index_def)
    have cok: "cache_ok h i ?c" by (rule heap_okD(2) [OF ok assms(2)])
    have step: "allocated F0 F h fr i (cache_alloc i h)"
      if "alloc_step i h = Inr (Inr (set_cache h i c'))" "cache_ok h i c'" "plist h i (partial_slabs_head c') ps'"
        "2 * length ps' + (if active_slab_ppn c' = None then 0 else 1) < 2 * length ps + (if active_slab_ppn ?c = None then 0 else 1 :: nat)" for c' ps'
    proof -
      have "plist (set_cache h i c') i (partial_slabs_head c') ps'" by (rule plist_cong [OF that(3)]) simp
      then have "allocated F0 F (set_cache h i c') fr i (cache_alloc i (set_cache h i c'))"
        using heap_ok_set_cache [OF ok assms(2) that(2)] that(4) l assms(2) by (intro less.hyps [of ps']) (simp_all add: caches_set_cache)
      moreover have "cache_alloc i h = cache_alloc i (set_cache h i c')" using that(1) unfolding cache_alloc_def by (rule loop_res_simps(3))
      ultimately show ?thesis by simp
    qed
    show ?case
    proof (cases "active_slab_ppn ?c")
      case (Some p)
      then obtain s where s: "slab_of h p = Some s" "slab_cache s = i" using cok by (auto simp: cache_ok_def)
      from s(1) obtain pg where pg: "get_page_state h p = Inr pg" "page_state pg = Slab (Slub (freelist s) (inuse s) i (has_next s) (next_partial s))"
        using s(2) by (elim slab_ofD) simp
      show ?thesis
      proof (cases "fr p")
        case Nil
        then have "va_val (freelist s) = 0" using heap_okD(3) [OF ok s(1)] by (simp add: slab_ok_def)
        then have "alloc_step i h = Inr (Inr (set_cache h i (?c\<lparr>active_slab_ppn := None\<rparr>)))" using c Some pg by (simp add: alloc_step_def)
        then show ?thesis by (rule step [where ps' = ps]) (use cok less.prems(2) Some in \<open>simp_all add: cache_ok_def\<close>)
      next
        case (Cons x xs)
        from alloc_from_active [OF ok assms(2) Some this] obtain h' fr' where "cache_alloc i h = Inr (x, h')" "x \<noteq> 0" "heap_ok F0 F h' fr'"
          "heap_mem h' = heap_mem h" "same_ram h h'" "(x, i) \<notin> live h fr" "live h' fr' = insert (x, i) (live h fr)" by blast
        then show ?thesis unfolding allocated_def by (intro exI [of _ x] exI [of _ h'] exI [of _ fr'] exI [of _ F]) simp
      qed
    next
      case None
      show ?thesis
      proof (cases ps)
        case Nil
        then show ?thesis using cache_alloc_new [OF ok assms(2) None] less.prems(2) by simp
      next
        case (Cons p qs)
        then obtain s where s: "partial_slabs_head ?c = Some p" "slab_of h p = Some s" "slab_cache s = i" "plist h i (slab_next s) qs"
          using less.prems(2) by auto
        from s(2) obtain pg where pg: "get_page_state h p = Inr pg" "page_state pg = Slab (Slub (freelist s) (inuse s) i (has_next s) (next_partial s))"
          using s(3) by (elim slab_ofD) simp
        let ?c' = "?c\<lparr>partial_slabs_head := slab_next s, active_slab_ppn := Some p\<rparr>"
        have "alloc_step i h = Inr (Inr (set_cache h i ?c'))" using c None s(1) pg by (simp add: alloc_step_def slab_next_def)
        moreover have "cache_ok h i ?c'" using cok s by (auto simp: cache_ok_def)
        ultimately show ?thesis by (rule step [where ps' = qs]) (use s None Cons in simp_all)
      qed
    qed
  qed
qed

section \<open>Layouts\<close>

lemma layout_class_ok:
  assumes "unat sz \<le> 2048" and "unat align \<le> 2048" and "0 < unat align"
  obtains i where "i < 9" "layout_class sz align = of_nat (osize i)" "trailing_zeros (layout_class sz align) - 3 = i" "layout_class sz align \<le> 2048"
    "unat sz \<le> osize i" "unat align \<le> osize i"
proof -
  have w: "unat (max sz align) = max (unat sz) (unat align)" by (simp add: max_def word_le_nat_alt)
  then have "0 < unat (max sz align)" "unat (max sz align) \<le> 2 ^ 63" using assms by simp_all
  from unat_next_power_of_two [OF this] obtain k where k: "k \<le> 63" "next_power_of_two (max sz align) = 2 ^ k"
    "unat (max sz align) \<le> 2 ^ k" "\<And>j. unat (max sz align) \<le> 2 ^ j \<Longrightarrow> k \<le> j" by blast
  have k11: "k \<le> 11" by (rule k(4)) (use w assms in simp)
  define i where "i = max k 3 - 3"
  have i: "i < 9" "i + 3 = max k 3" using k11 by (auto simp: i_def)
  have u: "unat (2 ^ n :: usize) = 2 ^ n" if "n \<le> 11" for n using that by (intro unat_pow2) simp
  have "layout_class sz align = 2 ^ (i + 3)"
  proof (cases "k \<le> 3")
    case True
    then have "(2::nat) ^ k \<le> 2 ^ 3" by (intro power_increasing) simp_all
    then have "(2 ^ k :: usize) \<le> 2 ^ 3" using u [of k] u [of 3] k11 by (simp add: word_le_nat_alt)
    then show ?thesis using True k(2) i(2) by (simp add: layout_class_def max_def)
  next
    case False
    then have "(2::nat) ^ 3 \<le> 2 ^ k" by (intro power_increasing) simp_all
    then have "(8 :: usize) \<le> 2 ^ k" using u [of k] k11 by (simp add: word_le_nat_alt)
    then show ?thesis using False k(2) i(2) by (simp add: layout_class_def max_def)
  qed
  then have e: "layout_class sz align = of_nat (osize i)" and t: "unat (layout_class sz align) = 2 ^ (i + 3)"
    using u [of "i + 3"] i(1) by (simp_all add: osize_def)
  have "trailing_zeros (layout_class sz align) = i + 3" unfolding trailing_zeros_def t using t nat_ctz_pow2 [of "i + 3"] by auto
  moreover have "(2::nat) ^ (i + 3) \<le> 2 ^ 11" using i(1) by (intro power_increasing) auto
  then have "layout_class sz align \<le> 2048" using t by (simp add: word_le_nat_alt)
  moreover have "(2::nat) ^ k \<le> osize i" unfolding osize_def using i(2) by (intro power_increasing) simp_all
  then have "unat sz \<le> osize i" "unat align \<le> osize i" using k(3) w by simp_all
  ultimately show thesis using that i(1) e by simp
qed

lemma layout_class_large:
  assumes "2048 < unat sz" "unat sz \<le> 2 ^ 63" "unat align \<le> 2048"
  shows "2048 < layout_class sz align"
proof -
  have w: "unat (max sz align) = unat sz" using assms by (simp add: max_def word_le_nat_alt)
  then have "0 < unat (max sz align)" "unat (max sz align) \<le> 2 ^ 63" using assms by simp_all
  from unat_next_power_of_two [OF this] obtain k where k: "k \<le> 63" "next_power_of_two (max sz align) = 2 ^ k" "unat sz \<le> 2 ^ k"
    using w by auto
  have "unat (2 ^ k :: usize) = 2 ^ k" using k(1) by (intro unat_pow2) simp
  then have "2048 < (2 ^ k :: usize)" using k(3) assms(1) by (simp add: word_less_nat_alt)
  then have "2048 < max (2 ^ k :: usize) 8" by (rule less_le_trans) (rule max.cobounded1)
  then show ?thesis unfolding layout_class_def k(2) .
qed

text \<open>The bytes of an object.\<close>

definition obj_bytes :: "usize \<times> nat \<Rightarrow> nat set" where
  "obj_bytes ob = {unat (fst ob) ..< unat (fst ob) + osize (snd ob)}"

lemma obj_bytes_page:
  assumes "low_page p" "i < 9" "k < ocount i"
  shows "obj_bytes (obj i p k, i) \<subseteq> {0xFFFFFFFF00000000 + unat (ppn_val p) * 4096 ..< 0xFFFFFFFF00000000 + unat (ppn_val p) * 4096 + 4096}"
proof -
  have "Suc k * osize i \<le> ocount i * osize i" using assms(3) by (intro mult_le_mono1) simp
  also have "\<dots> = 4096" using osize_count [OF assms(2)] by (simp add: mult.commute)
  finally have "k * osize i + osize i \<le> 4096" by simp
  then show ?thesis using unat_obj [OF assms(1,2), of k] assms(3) by (auto simp: obj_bytes_def)
qed

lemma obj_bytes_disjoint:
  assumes "low_page p" "i < 9" "k < ocount i" "l < ocount i" "k \<noteq> l"
  shows "obj_bytes (obj i p k, i) \<inter> obj_bytes (obj i p l, i) = {}"
proof -
  have *: "obj_bytes (obj i p k, i) \<inter> obj_bytes (obj i p l, i) = {}" if "k < l" "l < ocount i" for k l
  proof -
    have "Suc k * osize i \<le> l * osize i" using that by (intro mult_le_mono1) simp
    then show ?thesis using unat_obj [OF assms(1,2), of k] unat_obj [OF assms(1,2), of l] that by (auto simp: obj_bytes_def)
  qed
  show ?thesis using assms(3-5) * [of k l] * [of l k] by (cases "k < l") (simp_all add: Int_commute)
qed

lemma live_obj:
  assumes "heap_ok F0 F h fr" and "(x, i) \<in> live h fr"
  obtains p s k where "slab_of h p = Some s" "slab_cache s = i" "x = obj i p k" "k < ocount i" "low_page p" "i < 9" "unat (ppn_val p) \<in> F0 - F" "x \<notin> set (fr p)"
proof -
  from assms(2) obtain p s where p: "slab_of h p = Some s" "slab_cache s = i" "x \<in> set (objs i p)" "x \<notin> set (fr p)"
    by (auto simp: live_def live_in_def split: option.splits)
  then obtain k where "x = obj i p k" "k < ocount i" by (auto simp: objs_def)
  moreover have "low_page p" "i < 9" using heap_okD(3) [OF assms(1) p(1)] p(2) by (auto simp: slab_ok_def)
  ultimately show thesis using that p heap_okD(4) [OF assms(1) p(1)] by blast
qed

text \<open>Distinct objects of the heap, in use or free, share no byte.\<close>

lemma objects_disjoint:
  assumes ok: "heap_ok F0 F h fr" and x: "slab_of h p = Some s" "x \<in> set (objs (slab_cache s) p)"
    and y: "slab_of h q = Some t" "y \<in> set (objs (slab_cache t) q)" and "x \<noteq> y"
  shows "obj_bytes (x, slab_cache s) \<inter> obj_bytes (y, slab_cache t) = {}"
proof -
  obtain k where k: "x = obj (slab_cache s) p k" "k < ocount (slab_cache s)" using x(2) by (auto simp: objs_def)
  obtain l where l: "y = obj (slab_cache t) q l" "l < ocount (slab_cache t)" using y(2) by (auto simp: objs_def)
  have lp: "low_page p" "slab_cache s < 9" "low_page q" "slab_cache t < 9"
    using heap_okD(3) [OF ok x(1)] heap_okD(3) [OF ok y(1)] by (auto simp: slab_ok_def)
  show ?thesis
  proof (cases "p = q")
    case True
    then have "t = s" using x(1) y(1) by simp
    then show ?thesis using obj_bytes_disjoint [OF lp(1,2) k(2), of l] l assms(6) k(1) True by auto
  next
    case False
    then have "unat (ppn_val p) \<noteq> unat (ppn_val q)" by (cases p; cases q) (simp add: word_unat_eq_iff)
    then have "{0xFFFFFFFF00000000 + unat (ppn_val p) * 4096 ..< 0xFFFFFFFF00000000 + unat (ppn_val p) * 4096 + 4096}
      \<inter> {0xFFFFFFFF00000000 + unat (ppn_val q) * 4096 ..< 0xFFFFFFFF00000000 + unat (ppn_val q) * 4096 + 4096} = {}" by auto
    then show ?thesis using obj_bytes_page [OF lp(1,2) k(2)] obj_bytes_page [OF lp(3,4) l(2)] unfolding k(1) l(1) by blast
  qed
qed

lemma live_disjoint:
  assumes ok: "heap_ok F0 F h fr" and "a \<in> live h fr" "b \<in> live h fr" "a \<noteq> b"
  shows "obj_bytes a \<inter> obj_bytes b = {}"
proof -
  obtain x i y j where ab: "a = (x, i)" "b = (y, j)" by (cases a; cases b)
  obtain p s where p: "slab_of h p = Some s" "slab_cache s = i" "x \<in> set (objs i p)"
    using assms(2) ab(1) by (auto simp: live_def live_in_def split: option.splits)
  obtain q t where q: "slab_of h q = Some t" "slab_cache t = j" "y \<in> set (objs j q)"
    using assms(3) ab(2) by (auto simp: live_def live_in_def split: option.splits)
  have "x \<noteq> y"
  proof
    assume "x = y"
    then have "p = q" using p q heap_okD(3) [OF ok p(1)] heap_okD(3) [OF ok q(1)]
      by (intro objs_page_unique [of x i p j q]) (auto simp: slab_ok_def)
    with p q \<open>x = y\<close> assms(4) ab show False by simp
  qed
  then show ?thesis using objects_disjoint [OF ok p(1) _ q(1), of x y] p q ab by simp
qed

lemma slub_alloc_ok:
  assumes "heap_ok F0 F h fr" and "unat sz \<le> 2048" "unat align \<le> 2048" "0 < unat align"
  obtains i where "i < 9" "unat sz \<le> osize i" "unat align \<le> osize i" "allocated F0 F h fr i (slub_alloc sz align h)"
proof -
  obtain i where i: "i < 9" "trailing_zeros (layout_class sz align) - 3 = i" "layout_class sz align \<le> 2048" "unat sz \<le> osize i" "unat align \<le> osize i"
    by (rule layout_class_ok [OF assms(2-4)])
  have "slub_alloc sz align h = cache_alloc i h"
    using i(2,3) i(1) heap_okD(1) [OF assms(1)] by (simp add: slub_alloc_def Let_def index_def)
  then show thesis using that i(1,4,5) cache_alloc_ok [OF assms(1) i(1)] by simp
qed

lemma obj_aligned:
  assumes "low_page p" "i < 9" "k < ocount i" and "unat align = 2 ^ a" "unat align \<le> osize i"
  shows "unat align dvd unat (obj i p k)"
proof -
  have "a \<le> i + 3" using assms(4,5) by (simp add: osize_def)
  then have d: "unat align dvd osize i" unfolding assms(4) osize_def by (rule le_imp_power_dvd)
  have "osize i dvd 4096" using osize_count [OF assms(2)] by (metis dvd_triv_left)
  moreover have "(4096::nat) dvd 0xFFFFFFFF00000000" by simp
  ultimately have "osize i dvd unat (obj i p k)"
    unfolding unat_obj [OF assms(1,2) less_imp_le [OF assms(3)]] by (intro dvd_add) (auto intro: dvd_trans)
  with d show ?thesis by (rule dvd_trans)
qed

text \<open>The client may write words into the objects it holds.\<close>

lemma heap_ok_write:
  assumes ok: "heap_ok F0 F h fr" and "(x, i) \<in> live h fr" and "unat a \<in> obj_bytes (x, i)"
  shows "heap_ok F0 F (h\<lparr>heap_mem := store (heap_mem h) a v\<rparr>) fr" "live (h\<lparr>heap_mem := store (heap_mem h) a v\<rparr>) fr = live h fr"
proof -
  let ?h = "h\<lparr>heap_mem := store (heap_mem h) a v\<rparr>"
  have so: "slab_of ?h = slab_of h" by (simp add: slab_of_def get_page_state_def page_index_def fun_eq_iff)
  then show "live ?h fr = live h fr" by (simp add: live_def live_in_def)
  obtain p s k where p: "slab_of h p = Some s" "slab_cache s = i" "x = obj i p k" "k < ocount i" "low_page p" "i < 9" "unat (ppn_val p) \<in> F0 - F" "x \<notin> set (fr p)"
    by (rule live_obj [OF ok assms(2)])
  have x: "x \<in> set (objs i p)" using p(3,4) by (simp add: objs_def)
  have "slab_ok (heap_mem ?h) fr q t" if q: "slab_of h q = Some t" for q t
  proof -
    note qok = heap_okD(3) [OF ok q]
    have "load (store (heap_mem h) a v) y = load (heap_mem h) y" if y: "y \<in> set (fr q)" for y
    proof -
      have yo: "y \<in> set (objs (slab_cache t) q)" using qok y by (auto simp: slab_ok_def)
      have "x \<noteq> y"
      proof
        assume "x = y"
        then have "p = q" using x yo p(2,5,6) qok by (intro objs_page_unique [of x i p "slab_cache t" q]) (auto simp: slab_ok_def)
        with y p(8) \<open>x = y\<close> show False by simp
      qed
      from objects_disjoint [OF ok p(1) _ q yo this] x p(2) have "obj_bytes (x, i) \<inter> obj_bytes (y, slab_cache t) = {}" by simp
      moreover have "unat y \<in> obj_bytes (y, slab_cache t)" by (simp add: obj_bytes_def)
      ultimately have "a \<noteq> y" using assms(3) by auto
      then show ?thesis by (simp add: load_store)
    qed
    then have "chain (store (heap_mem h) a v) (va_val (freelist t)) (fr q)"
      using qok chain_frame [of "heap_mem h" "va_val (freelist t)" "fr q"] by (auto simp: slab_ok_def)
    then show ?thesis using qok by (simp add: slab_ok_def)
  qed
  moreover have "cache_ok ?h j (caches h ! j)" if "j < 9" for j
    by (rule cache_ok_cong [OF heap_okD(2) [OF ok that]]) (simp add: so)
  moreover have "has_free (heap_frames ?h) F"
  proof -
    have "unat a \<in> {0xFFFFFFFF00000000 + unat (ppn_val p) * 4096 ..< 0xFFFFFFFF00000000 + unat (ppn_val p) * 4096 + 4096}"
      using obj_bytes_page [OF p(5,6,4)] assms(3) unfolding p(3) by blast
    moreover from this have "unat (virt_to_phys a) = unat a - 0xFFFFFFFF00000000"
      unfolding virt_to_phys_def by (subst unat_word_minus) (simp_all add: PHYS_VIRT_OFFSET_def)
    ultimately have "unat (virt_to_phys a) div 4096 = unat (ppn_val p)" by auto
    then have "store (heap_mem h) a v y = heap_mem h y" if "unat y div 4096 \<in> F" for y
      using that p(7) by (auto simp: store_def)
    then show ?thesis using has_free_frame [OF heap_okD(5) [OF ok], of "store (heap_mem h) a v"] by simp
  qed
  ultimately show "heap_ok F0 F ?h fr" using ok by (simp add: heap_ok_def so)
qed

section \<open>Properties\<close>

text \<open>C14. Allocation with a layout of at most 2048 bytes always returns: the loop over the slabs ends and nothing panics. The
  pointer is aligned as the layout asks and points to enough bytes, which belong to no object in use; no memory
  outside the free page frames is written, so the contents of all objects stay; the heap is well formed again.
  The null pointer is returned only if no page frame is free. A larger layout is a panic (\<open>unimplemented!\<close>).\<close>

theorem slub_alloc_correct:
  assumes "heap_ok F0 F h fr" and "unat align = 2 ^ a" "unat align \<le> 2048" "unat sz \<le> 2 ^ 63"
  shows "if unat sz \<le> 2048
    then \<exists>x h' F' fr'. slub_alloc sz align h = Inr (x, h') \<and> heap_ok F0 F' h' fr' \<and> F' \<subseteq> F \<and> untouched F (heap_mem h) (heap_mem h')
      \<and> (if x = 0 then F = {} \<and> live h' fr' = live h fr
         else \<exists>i. unat sz \<le> osize i \<and> unat align dvd unat x \<and> live h' fr' = insert (x, i) (live h fr)
           \<and> (\<forall>ob \<in> live h fr. obj_bytes ob \<inter> obj_bytes (x, i) = {}))
    else slub_alloc sz align h = Inl Unimplemented"
proof (cases "unat sz \<le> 2048")
  case True
  have "0 < unat align" using assms(2) by simp
  with assms(1) True assms(3) obtain i where i: "i < 9" "unat sz \<le> osize i" "unat align \<le> osize i" "allocated F0 F h fr i (slub_alloc sz align h)"
    by (rule slub_alloc_ok)
  then obtain x h' F' fr' where x: "slub_alloc sz align h = Inr (x, h')" "heap_ok F0 F' h' fr'" "F' \<subseteq> F" "untouched F (heap_mem h) (heap_mem h')"
    "if x = 0 then F = {} \<and> live h' fr' = live h fr else (x, i) \<notin> live h fr \<and> live h' fr' = insert (x, i) (live h fr)"
    unfolding allocated_def by blast
  have "unat align dvd unat x \<and> (\<forall>ob \<in> live h fr. obj_bytes ob \<inter> obj_bytes (x, i) = {})" if "x \<noteq> 0"
  proof -
    have l: "live h' fr' = insert (x, i) (live h fr)" "(x, i) \<notin> live h fr" using x(5) that by simp_all
    then obtain p k where "low_page p" "k < ocount i" "x = obj i p k" using live_obj [OF x(2), of x i] by blast
    then have "unat align dvd unat x" using obj_aligned [OF _ i(1) _ assms(2) i(3)] by blast
    moreover have "obj_bytes ob \<inter> obj_bytes (x, i) = {}" if "ob \<in> live h fr" for ob
      using live_disjoint [OF x(2), of ob "(x, i)"] l that by auto
    ultimately show ?thesis by blast
  qed
  with True x i(2) show ?thesis by (auto intro!: exI [of _ x] exI [of _ h'] exI [of _ F'] exI [of _ fr'] exI [of _ i])
next
  case False
  then have "2048 < layout_class sz align" using assms(3,4) by (intro layout_class_large) simp_all
  then have "\<not> layout_class sz align \<le> 2048" by simp
  then show ?thesis using False by (simp add: slub_alloc_def Let_def del: not_le)
qed

text \<open>The heap as \<open>init_buddy_system\<close> leaves it: no slabs yet.\<close>

definition heap_start :: "nat set \<Rightarrow> heap \<Rightarrow> bool" where
  "heap_start F0 h \<longleftrightarrow> caches h = SLUB_ALLOCATOR \<and> (\<forall>p. slab_of h p = None) \<and> has_free (heap_frames h) F0
     \<and> F0 \<subseteq> {unat (ram_start_ppn h) ..< unat (ram_start_ppn h) + length (mem_map h)} \<and> F0 \<subseteq> {..< 2 ^ 20 - 1}"

lemma SLUB_ALLOCATOR_eq:
  "SLUB_ALLOCATOR = map (\<lambda>i. \<lparr>object_size = of_nat (osize i), active_slab_ppn = None, partial_slabs_head = None\<rparr>) [0 ..< 9]"
  by (simp add: SLUB_ALLOCATOR_def kmem_cache_new_def osize_def upt_rec [of _ "9"])

lemma heap_start_ok:
  assumes "heap_start F0 h"
  shows "heap_ok F0 F0 h (\<lambda>_. [])" and "live h (\<lambda>_. []) = {}"
proof -
  have "cache_ok h i (SLUB_ALLOCATOR ! i)" if "i < 9" for i
    using that unfolding SLUB_ALLOCATOR_eq cache_ok_def by (simp add: exI [of _ "[]"])
  moreover have "length SLUB_ALLOCATOR = 9" by (simp add: SLUB_ALLOCATOR_eq)
  ultimately show "heap_ok F0 F0 h (\<lambda>_. [])" using assms by (simp add: heap_start_def heap_ok_def)
  show "live h (\<lambda>_. []) = {}" using assms by (simp add: heap_start_def live_def live_in_def)
qed

text \<open>Histories of allocations, of writes of the clients into their objects, and of page frames that others take from the
  buddy allocator. The second component is the set of objects handed out.\<close>

inductive heap_reach :: "nat set \<Rightarrow> heap \<Rightarrow> (usize \<times> nat) set \<Rightarrow> bool" for F0 where
  start: "heap_start F0 h \<Longrightarrow> heap_reach F0 h {}"
| null: "heap_reach F0 h L \<Longrightarrow> slub_alloc sz align h = Inr (0, h') \<Longrightarrow> unat sz \<le> 2048 \<Longrightarrow> unat align = 2 ^ a \<Longrightarrow> unat align \<le> 2048
    \<Longrightarrow> heap_reach F0 h' L"
| alloc: "heap_reach F0 h L \<Longrightarrow> slub_alloc sz align h = Inr (x, h') \<Longrightarrow> x \<noteq> 0 \<Longrightarrow> unat sz \<le> 2048 \<Longrightarrow> unat align = 2 ^ a \<Longrightarrow> unat align \<le> 2048
    \<Longrightarrow> trailing_zeros (layout_class sz align) - 3 = i \<Longrightarrow> heap_reach F0 h' (insert (x, i) L)"
| client_write: "heap_reach F0 h L \<Longrightarrow> ob \<in> L \<Longrightarrow> unat b \<in> obj_bytes ob \<Longrightarrow> heap_reach F0 (h\<lparr>heap_mem := store (heap_mem h) b v\<rparr>) L"

lemma heap_reach_ok: "heap_reach F0 h L \<Longrightarrow> \<exists>F fr. heap_ok F0 F h fr \<and> L = live h fr"
proof (induction rule: heap_reach.induct)
  case (start h)
  then show ?case using heap_start_ok by metis
next
  case (null h L sz align h' a)
  then obtain F fr where h: "heap_ok F0 F h fr" "L = live h fr" by blast
  have "0 < unat align" using null(4) by simp
  from slub_alloc_ok [OF h(1) null(3,5) this] obtain i where "allocated F0 F h fr i (Inr (0, h'))" using null(2) by metis
  then obtain F' fr' where "heap_ok F0 F' h' fr'" "live h' fr' = live h fr" unfolding allocated_def by auto
  then show ?case using h(2) by blast
next
  case (alloc h L sz align x h' a i)
  then obtain F fr where h: "heap_ok F0 F h fr" "L = live h fr" by blast
  have pos: "0 < unat align" using alloc(5) by simp
  obtain i' where i': "i' < 9" "trailing_zeros (layout_class sz align) - 3 = i'" "layout_class sz align \<le> 2048" by (rule layout_class_ok [OF alloc(4,6) pos])
  then have "i < 9" "slub_alloc sz align h = cache_alloc i h"
    using alloc(7) heap_okD(1) [OF h(1)] by (simp_all add: slub_alloc_def Let_def index_def)
  then have "allocated F0 F h fr i (Inr (x, h'))" using cache_alloc_ok [OF h(1), of i] alloc(2) by simp
  then obtain F' fr' where "heap_ok F0 F' h' fr'" "live h' fr' = insert (x, i) (live h fr)" using alloc(3) unfolding allocated_def by auto
  then show ?case using h(2) by blast
next
  case (client_write h L ob b v)
  then obtain F fr where h: "heap_ok F0 F h fr" "L = live h fr" by blast
  with heap_ok_write [OF h(1), of "fst ob" "snd ob" b v] client_write(2,3) show ?case by auto
qed

text \<open>C5. In every history the objects handed out share no bytes and lie in the page frames of the heap, outside the frames
  that the buddy allocator still has to give, and the next allocation returns again.\<close>

theorem slub_reach_safe:
  assumes "heap_reach F0 h L"
  shows "(\<forall>a \<in> L. \<forall>b \<in> L. a \<noteq> b \<longrightarrow> obj_bytes a \<inter> obj_bytes b = {})
    \<and> (\<exists>F. has_free (heap_frames h) F \<and> (\<forall>(x, i) \<in> L. unat (virt_to_phys x) div 4096 \<in> F0 - F))
    \<and> (\<forall>sz align k. unat sz \<le> 2048 \<longrightarrow> unat align = 2 ^ k \<longrightarrow> unat align \<le> 2048 \<longrightarrow> is_ok (slub_alloc sz align h))"
proof -
  obtain F fr where h: "heap_ok F0 F h fr" "L = live h fr" using heap_reach_ok [OF assms] by blast
  have "is_ok (slub_alloc sz align h)" if "unat sz \<le> 2048" "unat align = 2 ^ k" "unat align \<le> 2048" for sz align k
  proof -
    have "0 < unat align" using that(2) by simp
    from slub_alloc_ok [OF h(1) that(1,3) this] show ?thesis unfolding allocated_def by fastforce
  qed
  moreover have "unat (virt_to_phys x) div 4096 \<in> F0 - F" if "(x, i) \<in> L" for x i
    using live_obj [OF h(1), of x i] that h(2) obj_page by metis
  ultimately show ?thesis using live_disjoint [OF h(1)] h(2) heap_okD(5) [OF h(1)] by blast
qed

section \<open>Freeing\<close>

lemma unat_ppn_from_usize: "unat pa < 2 ^ 44 \<Longrightarrow> ppn_from_usize pa = PhysPageNum pa"
proof -
  assume pa: "unat pa < 2 ^ 44"
  have m: "shl 1 PPN_WIDTH_SV39 - 1 = (mask 44 :: usize)"
    by (simp add: shl_def PPN_WIDTH_SV39_def PA_WIDTH_SV39_def PAGE_SIZE_BITS_def push_bit_of_1 mask_eq_decr_exp)
  have "unat (pa AND mask 44) = unat pa" using pa by (simp add: unat_and_mask)
  then have "pa AND mask 44 = pa" by (simp only: word_unat_eq_iff)
  then show ?thesis unfolding ppn_from_usize_def m by simp
qed

text \<open>C34. No object can be freed. \<open>dealloc\<close> converts the physical address of the object with the conversion that takes a page
  number, and looks the address up in \<open>MEM_MAP\<close> as if it were one: whenever the last page number of RAM is not above the
  first physical address of RAM, as on every machine with less than 4096 times as much RAM as its base address, the index
  is out of bounds and the kernel panics.\<close>

theorem slub_dealloc_panics:
  assumes "heap_ok F0 F h fr" and "(x, i) \<in> live h fr" and "unat sz \<le> 2048" "unat align \<le> 2048" "0 < unat align"
    and "unat (ram_start_ppn h) + length (mem_map h) \<le> 4096 * unat (ram_start_ppn h)"
  shows "slub_dealloc x sz align h = Inl Index_out_of_bounds"
proof -
  obtain p k where p: "x = obj i p k" "k < ocount i" "low_page p" "i < 9" "unat (ppn_val p) \<in> F0 - F"
    using live_obj [OF assms(1,2)] by metis
  have pa: "unat (virt_to_phys x) = unat (ppn_val p) * 4096 + k * osize i" "k * osize i < 4096"
    using unat_phys_obj [OF p(3,4,2)] p(1) by simp_all
  have low: "unat (ppn_val p) < 2 ^ 20" using p(3) by (simp add: low_page_def)
  then have "unat (virt_to_phys x) < 2 ^ 44" using pa by simp
  then have ppn: "ppn_from_usize (virt_to_phys x) = PhysPageNum (virt_to_phys x)" by (rule unat_ppn_from_usize)
  have ram: "unat (ram_start_ppn h) \<le> unat (ppn_val p)" using assms(1) p(5) unfolding heap_ok_def by auto
  then have "unat (ram_start_ppn h) \<le> unat (virt_to_phys x)" using pa(1) by simp
  then have "page_index h (PhysPageNum (virt_to_phys x)) = unat (virt_to_phys x) - unat (ram_start_ppn h)"
    using page_index_low [of h "PhysPageNum (virt_to_phys x)"] by simp
  moreover have "4096 * unat (ram_start_ppn h) \<le> unat (virt_to_phys x)" using ram pa(1) by simp
  ultimately have "get_page_state h (PhysPageNum (virt_to_phys x)) = Inl Index_out_of_bounds"
    using assms(6) by (simp add: get_page_state_def index_def)
  moreover have "layout_class sz align \<le> 2048" by (rule layout_class_ok [OF assms(3-5)])
  moreover from this have "\<not> 2048 < layout_class sz align" by simp
  ultimately show ?thesis unfolding slub_dealloc_def Let_def ppn by (simp del: not_less)
qed

text \<open>A machine with 128 MiB of RAM at \<open>0x80000000\<close>.\<close>

lemma heap_start_example:
  "\<exists>h. heap_start {0x80200 ..< 0x88000} h \<and> ram_start_ppn h = 0x80000 \<and> length (mem_map h) = 0x8000"
proof -
  obtain b where b: "has_free b {0x80200 ..< 0x88000}" using boot_free by blast
  define h where "h = \<lparr>caches = SLUB_ALLOCATOR, mem_map = replicate 0x8000 \<lparr>ref_count = 0, page_state = Free\<rparr>, ram_start_ppn = 0x80000,
    heap_buddy = fst b, heap_mem = snd b\<rparr>"
  have "slab_of h p = None" for p by (simp add: slab_of_def get_page_state_def h_def index_def)
  then have "heap_start {0x80200 ..< 0x88000} h" using b unfolding heap_start_def by (auto simp: h_def)
  then show ?thesis by (intro exI [of _ h]) (simp add: h_def)
qed

lemma layout_100: "layout_class 100 8 = 128" "trailing_zeros (128 :: usize) = 7"
  by code_simp+

lemma one_free_object:
  assumes "heap_start F0 h" and "q \<in> F0"
  shows "\<exists>x h' F fr. slub_alloc 100 8 h = Inr (x, h') \<and> x \<noteq> 0 \<and> heap_ok F0 F h' fr \<and> live h' fr = {(x, 4)} \<and> same_ram h h'"
proof -
  note ok = heap_start_ok [OF assms(1)]
  have "slub_alloc 100 8 h = cache_alloc 4 h" using heap_okD(1) [OF ok(1)] by (simp add: slub_alloc_def index_def layout_100 Let_def)
  then have "allocated F0 F0 h (\<lambda>_. []) 4 (slub_alloc 100 8 h)" using cache_alloc_ok [OF ok(1), of 4] by simp
  then show ?thesis using ok(2) assms(2) unfolding allocated_def by (force split: if_splits)
qed

theorem slub_alloc_correct_witness:
  "\<exists>h x h'. heap_start {0x80200 ..< 0x88000} h \<and> slub_alloc 100 8 h = Inr (x, h') \<and> (8::nat) dvd unat x"
proof -
  obtain h where h: "heap_start {0x80200 ..< 0x88000} h" using heap_start_example by blast
  have "unat (8 :: usize) = 2 ^ 3" "unat (100 :: usize) \<le> 2048" by simp_all
  with slub_alloc_correct [OF heap_start_ok(1) [OF h], of 8 3 100] show ?thesis using h by (auto split: if_splits)
qed

theorem slub_reach_safe_witness:
  "\<exists>h L. heap_reach {0x80200 ..< 0x88000} h L \<and> L \<noteq> {} \<and> is_ok (slub_alloc 16 16 h)"
proof -
  obtain h where h: "heap_start {0x80200 ..< 0x88000} h" using heap_start_example by blast
  have "0x80200 \<in> {0x80200 ..< 0x88000 :: nat}" by simp
  from one_free_object [OF h this] obtain x h' where x: "slub_alloc 100 8 h = Inr (x, h')" "x \<noteq> 0" by blast
  have r: "heap_reach {0x80200 ..< 0x88000} h' {(x, 4)}"
    by (rule heap_reach.alloc [OF heap_reach.start [OF h] x, of 3]) (simp_all add: layout_100)
  have "unat (16 :: usize) = 2 ^ 4" by simp
  then have "is_ok (slub_alloc 16 16 h')" using slub_reach_safe [OF r, THEN conjunct2, THEN conjunct2, rule_format, of 16 16 4] by simp
  with r show ?thesis by blast
qed

theorem slub_dealloc_panics_witness:
  "\<exists>h x h'. heap_start {0x80200 ..< 0x88000} h \<and> slub_alloc 100 8 h = Inr (x, h') \<and> slub_dealloc x 100 8 h' = Inl Index_out_of_bounds"
proof -
  obtain h where h: "heap_start {0x80200 ..< 0x88000} h" "ram_start_ppn h = 0x80000" "length (mem_map h) = 0x8000" using heap_start_example by blast
  have "0x80200 \<in> {0x80200 ..< 0x88000 :: nat}" by simp
  from one_free_object [OF h(1) this] obtain x h' F fr where x: "slub_alloc 100 8 h = Inr (x, h')" "heap_ok {0x80200 ..< 0x88000} F h' fr"
    "live h' fr = {(x, 4)}" "same_ram h h'" by blast
  have "slub_dealloc x 100 8 h' = Inl Index_out_of_bounds"
    by (rule slub_dealloc_panics [OF x(2), of x 4]) (use x(3,4) h(2,3) in \<open>simp_all add: same_ram_def\<close>)
  with h(1) x(1) show ?thesis by blast
qed

section \<open>Freeing the last object of a slab\<close>

text \<open>The first allocation from an empty cache: the new slab is the active one and stands on the list of partial slabs, too.\<close>

lemma first_alloc:
  assumes ok: "heap_ok F0 F h fr" and i: "i < 9" and "active_slab_ppn (caches h ! i) = None" "partial_slabs_head (caches h ! i) = None" and "F \<noteq> {}"
  obtains x h1 fr1 p s F1 where "cache_alloc i h = Inr (x, h1)" "heap_ok F0 F1 h1 fr1" "slab_of h1 p = Some s" "slab_cache s = i" "inuse s = 1"
    "caches h1 ! i = (caches h ! i)\<lparr>partial_slabs_head := Some p, active_slab_ppn := Some p\<rparr>" "x \<in> set (objs i p)" "low_page p" "unat (ppn_val p) \<in> F0 - F1"
proof -
  have c: "index (caches h) i = Inr (caches h ! i)" using heap_okD(1) [OF ok] i by (simp add: index_def)
  from ok i assms(4) show thesis
  proof (cases rule: new_slab_ok [case_names oom slab])
    case oom
    then show thesis using assms(5) by simp
  next
    case (slab p h' s)
    let ?c = "(caches h' ! i)\<lparr>active_slab_ppn := Some p\<rparr>" and ?fr = "fr(p := objs i p)"
    let ?h = "set_cache h' i ?c"
    have l: "length (caches h') = 9" by (rule heap_okD(1) [OF slab(2)])
    have "alloc_step i h = Inr (Inr ?h)" using c assms(3,4) slab(1) l i by (simp add: alloc_step_def index_def)
    then have e: "cache_alloc i h = cache_alloc i ?h" unfolding cache_alloc_def by (rule loop_res_simps(3))
    have "cache_ok h' i ?c" using heap_okD(2) [OF slab(2) i] slab(4,5) by (simp add: cache_ok_def)
    note ok' = heap_ok_set_cache [OF slab(2) i this]
    have s': "slab_of ?h p = Some s" using slab(4) by simp
    note sok = heap_okD(3) [OF slab(2,4), unfolded slab_ok_def slab(5)]
    then have lp: "low_page p" by simp
    obtain x xs where o: "objs i p = x # xs" using objs_facts(2) [OF lp i] by (cases "objs i p") simp_all
    from s' obtain pg where pg: "get_page_state ?h p = Inr pg" "page_state pg = Slab (Slub (freelist s) (inuse s) i (has_next s) (next_partial s))"
      using slab(5) by (elim slab_ofD) simp
    have x: "va_val (freelist s) = x" "x \<noteq> 0" using sok o by auto
    have n: "inuse s = 0" using sok objs_facts(2) [OF lp i] by (simp add: unat_eq_0)
    let ?s = "Slub (VirtAddr (load (heap_mem ?h) x)) (inuse s + 1) i (has_next s) (next_partial s)"
    let ?h1 = "set_page ?h p (pg\<lparr>page_state := Slab ?s\<rparr>)"
    have "alloc_step i ?h = Inr (Inl (x, ?h1))" using l i pg x by (simp add: alloc_step_def index_def caches_set_cache)
    then have "cache_alloc i ?h = Inr (x, ?h1)" unfolding cache_alloc_def by (rule loop_res_simps(2))
    then have r: "cache_alloc i h = Inr (x, ?h1)" using e by simp
    have "(fr(p := objs i p)) p = x # xs" using o by simp
    note t = take_object(1) [OF ok' s' this slab(5) pg(1) refl]
    have s1: "slab_of ?h1 p = Some ?s" by (subst slab_of_set_page [OF get_page_index [OF pg(1)], of _ ?s]) simp_all
    show thesis by (rule that [OF r t s1]) (use n o lp l i slab(7) heap_okD(4) [OF slab(2,4)] in \<open>simp_all add: caches_set_cache\<close>)
  qed
qed

lemma one_page_order: "i < 9 \<Longrightarrow> next_power_of_two (max (shr (of_nat (osize i) + PAGE_SIZE - 1) PAGE_SIZE_BITS) 1) = 1"
proof -
  assume i: "i < 9"
  have u: "unat (of_nat (osize i) :: usize) = osize i" using osize_bound [OF i] by (subst unat_of_nat) simp
  have "unat (of_nat (osize i) + 4095 :: usize) = osize i + 4095" by (subst unat_word_plus) (use u osize_bound [OF i] in simp_all)
  then have "unat (shr (of_nat (osize i) + 4095) PAGE_SIZE_BITS) = (osize i + 4095) div 4096"
    by (simp add: unat_shr PAGE_SIZE_BITS_def)
  also have "\<dots> = 1" using osize_pos(1) [of i] osize_bound [OF i] by (intro div_nat_eqI) (simp_all add: Suc_le_eq)
  finally have "shr (of_nat (osize i) + 4095) PAGE_SIZE_BITS = 1" by (simp only: word_unat_eq_iff) simp
  then have "shr (of_nat (osize i) + PAGE_SIZE - 1) PAGE_SIZE_BITS = 1" by (simp add: PAGE_SIZE_def add.commute)
  then show ?thesis by (simp add: next_power_of_two_def)
qed

lemma alloc_step_free_page:
  assumes "index (caches h) i = Inr c" "active_slab_ppn c = None" "partial_slabs_head c = Some p" "get_page_state h p = Inr pg" "page_state pg = Free"
  shows "cache_alloc i h = Inl (Panicked ''FATAL: Memory corruption! Found non-Head page in partial_slabs_head'')"
proof -
  have "alloc_step i h = Inl (Panicked ''FATAL: Memory corruption! Found non-Head page in partial_slabs_head'')"
    using assms(2-5) by (simp add: alloc_step_def assms(1))
  then show ?thesis unfolding cache_alloc_def by (rule loop_res_simps(1))
qed

text \<open>C35. A cache does not survive that its only object is freed. The slab of the object is returned to the buddy allocator
  and is no longer active, but it still heads the list of partial slabs, where \<open>alloc_new_slab\<close> has put it; the next
  allocation of that size takes the page from the list, finds that it is no slab, and panics.\<close>

theorem freed_slab_panics:
  assumes "heap_ok F0 F h fr" and "i < 9" and "active_slab_ppn (caches h ! i) = None" "partial_slabs_head (caches h ! i) = None"
    and "F \<noteq> {}" and "0 \<notin> F0"
  shows "\<exists>x h1 p h2. cache_alloc i h = Inr (x, h1) \<and> x \<in> set (objs i p) \<and> free_object i x p h1 = Inr h2
    \<and> cache_alloc i h2 = Inl (Panicked ''FATAL: Memory corruption! Found non-Head page in partial_slabs_head'')"
proof -
  obtain x h1 fr1 p s F1 where a: "cache_alloc i h = Inr (x, h1)" "heap_ok F0 F1 h1 fr1" "slab_of h1 p = Some s" "slab_cache s = i" "inuse s = 1"
    "caches h1 ! i = (caches h ! i)\<lparr>partial_slabs_head := Some p, active_slab_ppn := Some p\<rparr>" "x \<in> set (objs i p)" "low_page p" "unat (ppn_val p) \<in> F0 - F1"
    by (rule first_alloc [OF assms(1-5)])
  obtain pg where pg: "get_page_state h1 p = Inr pg" "page_state pg = Slab (Slub (freelist s) 1 i (has_next s) (next_partial s))"
    using a(3-5) by (elim slab_ofD) simp
  have c: "index (caches h1) i = Inr (caches h1 ! i)" using heap_okD(1) [OF a(2)] assms(2) by (simp add: index_def)
  have os: "object_size (caches h1 ! i) = of_nat (osize i)" using heap_okD(2) [OF a(2) assms(2)] by (simp add: cache_ok_def)
  let ?m = "store (heap_mem h1) x (va_val (freelist s))"
  let ?c = "(caches h1 ! i)\<lparr>active_slab_ppn := None\<rparr>"
  let ?pg = "pg\<lparr>page_state := Slab (Slub (va_from_usize x) 0 i (has_next s) (next_partial s))\<rparr>"
  let ?h3 = "set_cache (set_page (h1\<lparr>heap_mem := ?m\<rparr>) p ?pg) i ?c"
  let ?h4 = "set_page ?h3 p \<lparr>ref_count = 0, page_state = Free\<rparr>"
  have ix: "page_index h1 p < length (mem_map h1)" by (rule get_page_index [OF pg(1)])
  then have "get_page_state ?h3 p = Inr ?pg" using get_set_page [of "h1\<lparr>heap_mem := ?m\<rparr>" p ?pg p] by (simp add: page_index_def)
  then have w: "write_page p 0 Free ?h3 = Inr ?h4" by (simp add: write_page_def)
  have "has_free (heap_buddy h1, ?m) F1"
  proof (rule has_free_frame [OF heap_okD(5) [OF a(2)]])
    fix y :: usize
    assume "unat y div 4096 \<in> F1"
    then show "?m y = heap_mem h1 y" using objs_facts(4) [OF a(8) assms(2) a(7)] a(9) by (auto simp: store_def)
  qed
  moreover have "buddy_owned p 1" using a(8,9) assms(6) by (auto simp: buddy_owned_def order_one MAX_ORDER_def low_page_def intro: gr0I)
  moreover have "buddy_run p 1 \<inter> F1 = {}" using a(9) by (simp add: buddy_run_def order_one)
  ultimately obtain b where b: "buddy_dealloc (heap_buddy h1, ?m) p 1 = Inr b" using frames.dealloc_some by blast
  let ?h5 = "set_frames ?h4 b"
  have "free_object i x p h1 = Inr ?h5"
    using pg c a(6) os w b by (cases b) (simp add: free_object_def Let_def one_page_order [OF assms(2)])
  moreover have "cache_alloc i ?h5 = Inl (Panicked ''FATAL: Memory corruption! Found non-Head page in partial_slabs_head'')"
  proof (rule alloc_step_free_page)
    show "index (caches ?h5) i = Inr ?c" using heap_okD(1) [OF a(2)] assms(2) by (simp add: set_cache_def index_def)
    have "get_page_state ?h4 p = Inr \<lparr>ref_count = 0, page_state = Free\<rparr>"
      by (subst get_set_page) (use ix in \<open>simp_all add: page_index_def\<close>)
    then show "get_page_state ?h5 p = Inr \<lparr>ref_count = 0, page_state = Free\<rparr>" by (simp add: get_page_state_def page_index_def)
  qed (simp_all add: a(6))
  ultimately show ?thesis using a(1,7) by blast
qed

theorem freed_slab_panics_witness:
  "\<exists>h x h1 p h2 e. heap_start {0x80200 ..< 0x88000} h \<and> cache_alloc 8 h = Inr (x, h1) \<and> free_object 8 x p h1 = Inr h2 \<and> cache_alloc 8 h2 = Inl e"
proof -
  obtain h where h: "heap_start {0x80200 ..< 0x88000} h" using heap_start_example by blast
  have e: "active_slab_ppn (caches h ! 8) = None" "partial_slabs_head (caches h ! 8) = None"
    using h by (simp_all add: heap_start_def SLUB_ALLOCATOR_eq)
  have "{0x80200 ..< 0x88000 :: nat} \<noteq> {}" "0 \<notin> {0x80200 ..< 0x88000 :: nat}" by auto
  from freed_slab_panics [OF heap_start_ok(1) [OF h] _ e this] h show ?thesis by fastforce
qed

end
