(* ===== verification/Handover.thy ===== *)
theory Handover
  imports Map_Segment Slub
begin

text \<open>
  \<open>init_buddy_system\<close> of \<open>src/mm/mod.rs\<close>: the memory that is still available in the boot allocator goes to the
  buddy allocator, and the page descriptors are set up. \<open>MEM_MAP\<close> is the list of the descriptors; the frames it
  lies in were taken from the boot allocator, so no write to a free page reaches it. The message at the end is
  not modelled. The theorem connects the invariant of the boot allocator with the start state of the heap.
\<close>

section \<open>The loops\<close>

fun mark_free :: "usize \<Rightarrow> nat list \<Rightarrow> page list \<Rightarrow> page list res" where
  "mark_free ram_start [] mm = Inr mm"
| "mark_free ram_start (ppn_idx # is) mm =
     (let local_idx = unat (of_nat ppn_idx - ram_start) in
      require (local_idx < length mm) Index_out_of_bounds
        (mark_free ram_start is (mm[local_idx := \<lparr>ref_count = 0, page_state = Free\<rparr>])))"

definition hand_over_region ::
  "usize \<Rightarrow> mem_region \<Rightarrow> page list \<times> buddy_state \<Rightarrow> (page list \<times> buddy_state) res" where
  "hand_over_region ram_start region s = (case s of (mm, b) \<Rightarrow>
     let start_addr = pa_from_usize (pa_val (mr_base region));
         end_addr = pa_from_usize (pa_val (mr_base region) + mr_size region);
         start_ppn = ppn_val (pa_ceil start_addr);
         end_ppn = ppn_val (pa_floor end_addr)
     in rbind (mark_free ram_start [unat start_ppn ..< unat end_ppn] mm) (\<lambda>mm'.
        rbind (add_free_region b start_ppn end_ppn) (\<lambda>b'. Inr (mm', b'))))"

fun hand_over :: "usize \<Rightarrow> region_array \<Rightarrow> nat list \<Rightarrow> page list \<times> buddy_state \<Rightarrow> (page list \<times> buddy_state) res" where
  "hand_over ram_start a [] s = Inr s"
| "hand_over ram_start a (i # is) s =
     rbind (index (ra_regions a) i) (\<lambda>region.
     rbind (hand_over_region ram_start region s) (hand_over ram_start a is))"

definition init_buddy_system :: "memblock \<Rightarrow> usize \<Rightarrow> heap \<Rightarrow> heap res" where
  "init_buddy_system mb ram_end h =
     (let ram_start = ram_start_ppn h;
          total_pages = ram_end - ram_start;
          mm = replicate (unat total_pages) \<lparr>ref_count = 1, page_state = Reserved\<rparr>
      in rbind (hand_over ram_start (mb_available mb) [0 ..< ra_count (mb_available mb)] (mm, heap_frames h))
           (\<lambda>(mm', b'). Inr (set_frames (h\<lparr>mem_map := mm'\<rparr>) b')))"

section \<open>One region\<close>

text \<open>The pages that lie inside a set of bytes.\<close>

definition whole_pages :: "nat set \<Rightarrow> nat set" where
  "whole_pages C = {n. {n * 4096 ..< n * 4096 + 4096} \<subseteq> C}"

abbreviation region_lo :: "mem_region \<Rightarrow> nat" where
  "region_lo r \<equiv> (rlo r + 4095) div 4096"

abbreviation region_hi :: "mem_region \<Rightarrow> nat" where
  "region_hi r \<equiv> rhi r div 4096"

lemma page_bounds:
  "a \<le> n * 4096 \<longleftrightarrow> (a + 4095) div 4096 \<le> n" "n * 4096 + 4096 \<le> b \<longleftrightarrow> n < b div 4096"
  for a b n :: nat
proof -
  have "(a + 4095) div 4096 < Suc n \<longleftrightarrow> a + 4095 < Suc n * 4096" by (rule div_less_iff_less_mult) simp
  then show "a \<le> n * 4096 \<longleftrightarrow> (a + 4095) div 4096 \<le> n" by (simp add: less_Suc_eq_le)
  have "Suc n \<le> b div 4096 \<longleftrightarrow> Suc n * 4096 \<le> b" by (rule less_eq_div_iff_mult_less_eq) simp
  then show "n * 4096 + 4096 \<le> b \<longleftrightarrow> n < b div 4096" by (simp add: Suc_le_eq add.commute)
qed

lemma whole_pages_region: "whole_pages (bytes r) = {region_lo r ..< region_hi r}"
proof -
  have "n \<in> whole_pages (bytes r) \<longleftrightarrow> rlo r \<le> n * 4096 \<and> n * 4096 + 4096 \<le> rhi r" for n
    unfolding whole_pages_def bytes_def mem_Collect_eq by (simp add: ivl_subset)
  then show ?thesis unfolding page_bounds by (intro set_eqI) (simp only: atLeastLessThan_iff)
qed

text \<open>Regions are separated, so a page that lies in their union lies in one of them.\<close>

lemma whole_pages_regions:
  assumes "regions_wf rs"
  shows "whole_pages (\<Union>r \<in> set rs. bytes r) = (\<Union>r \<in> set rs. {region_lo r ..< region_hi r})"
proof -
  have sep: "rhi r < rlo s \<or> rhi s < rlo r \<or> r = s" if "r \<in> set rs" "s \<in> set rs" for r s
    using assms that unfolding regions_wf_def sorted_wrt_iff_nth_less by (metis in_set_conv_nth linorder_neqE_nat)
  have "\<exists>r \<in> set rs. {p ..< p + 4096} \<subseteq> bytes r" if sub: "{p ..< p + 4096} \<subseteq> (\<Union>r \<in> set rs. bytes r)" for p
  proof -
    have "p \<in> (\<Union>r \<in> set rs. bytes r)" using sub by (rule subsetD) simp
    then obtain r where r: "r \<in> set rs" "rlo r \<le> p" "p < rhi r" by (auto simp: bytes_def)
    have "rhi r \<notin> (\<Union>r \<in> set rs. bytes r)" using sep [OF r(1)] r(1) by (fastforce simp: bytes_def)
    then have "\<not> rhi r < p + 4096" using sub r(3) by (meson atLeastLessThan_iff less_imp_le subsetD)
    then show ?thesis using r by (intro bexI [of _ r]) (auto simp: bytes_def)
  qed
  then have "whole_pages (\<Union>r \<in> set rs. bytes r) = (\<Union>r \<in> set rs. whole_pages (bytes r))"
    unfolding whole_pages_def by blast
  then show ?thesis by (simp add: whole_pages_region)
qed

section \<open>The descriptors\<close>

definition descriptors :: "nat \<Rightarrow> nat \<Rightarrow> nat set \<Rightarrow> page list" where
  "descriptors s n F = map (\<lambda>k. if s + k \<in> F then \<lparr>ref_count = 0, page_state = Free\<rparr>
     else \<lparr>ref_count = 1, page_state = Reserved\<rparr>) [0 ..< n]"

lemma length_descriptors [simp]: "length (descriptors s n F) = n"
  by (simp add: descriptors_def)

lemma descriptors_nth: "k < n \<Longrightarrow> descriptors s n F ! k = (if s + k \<in> F then \<lparr>ref_count = 0, page_state = Free\<rparr>
     else \<lparr>ref_count = 1, page_state = Reserved\<rparr>)"
  by (simp add: descriptors_def)

lemma descriptors_empty: "descriptors s n {} = replicate n \<lparr>ref_count = 1, page_state = Reserved\<rparr>"
  by (simp add: descriptors_def map_replicate_trivial map_replicate_const)

lemma descriptors_update:
  assumes "s \<le> i" and "i < s + n"
  shows "(descriptors s n F)[i - s := \<lparr>ref_count = 0, page_state = Free\<rparr>] = descriptors s n (insert i F)"
proof (rule nth_equalityI)
  fix k
  assume "k < length ((descriptors s n F)[i - s := \<lparr>ref_count = 0, page_state = Free\<rparr>])"
  then have k: "k < n" by simp
  have eq: "i = s + k \<longleftrightarrow> i - s = k" using assms by arith
  show "(descriptors s n F)[i - s := \<lparr>ref_count = 0, page_state = Free\<rparr>] ! k = descriptors s n (insert i F) ! k"
    using k by (cases "i = s + k") (auto simp: nth_list_update descriptors_nth eq [symmetric])
qed simp

lemma mark_free_ok:
  assumes "\<forall>i \<in> set is. unat s \<le> i \<and> i < unat s + n" and "unat s + n \<le> 2 ^ 64"
  shows "mark_free s is (descriptors (unat s) n F) = Inr (descriptors (unat s) n (F \<union> set is))"
  using assms(1)
proof (induction "is" arbitrary: F)
  case (Cons i "is")
  then have i: "unat s \<le> i" "i < unat s + n" by simp_all
  then have "unat (of_nat i :: usize) = i" using assms(2) by (simp add: unat_of_nat)
  then have idx: "unat (of_nat i - s) = i - unat s" using i by (simp add: unat_word_minus)
  have "i - unat s < n" using i by arith
  then show ?case using Cons.IH [of "insert i F"] Cons.prems
    by (simp add: idx require_def descriptors_update [OF i])
qed simp

section \<open>Handing a region over\<close>

lemma region_ppns:
  assumes "region_wf r" and "rhi r < 2 ^ 56"
  shows "unat (ppn_val (pa_ceil (pa_from_usize (pa_val (mr_base r))))) = region_lo r"
    and "unat (ppn_val (pa_floor (pa_from_usize (pa_val (mr_base r) + mr_size r)))) = region_hi r"
proof -
  have id: "pa_val (pa_from_usize v) = v" if "unat v < 2 ^ 56" for v
  proof -
    have "shl 1 PA_WIDTH_SV39 - 1 = (mask 56 :: usize)" by (simp add: PA_WIDTH_SV39_def shl_def mask_eq_exp_minus_1)
    then have "pa_val (pa_from_usize v) = v AND mask 56" by (simp add: pa_from_usize_def)
    then show ?thesis using that by (simp add: word_unat_eq_iff unat_and_mask)
  qed
  have e: "unat (pa_val (mr_base r) + mr_size r) = rhi r" using assms(1) by (simp add: region_wf_def unat_word_plus)
  have lo: "rlo r < 2 ^ 56" using assms(2) by simp
  show "unat (ppn_val (pa_ceil (pa_from_usize (pa_val (mr_base r))))) = region_lo r"
    using lo by (subst unat_pa_ceil) (simp_all add: id)
  show "unat (ppn_val (pa_floor (pa_from_usize (pa_val (mr_base r) + mr_size r)))) = region_hi r"
    using assms(2) e by (simp add: id)
qed

lemma hand_over_region_ok:
  assumes "has_free b F" and "region_wf r" and "unat s * 4096 \<le> rlo r" and "rhi r \<le> (unat s + n) * 4096"
    and "0 < unat s" and "unat s + n \<le> 2 ^ 20" and below: "F \<subseteq> {..< q}" "q < region_lo r" "q \<le> region_hi r"
  shows "\<exists>b'. hand_over_region s r (descriptors (unat s) n F, b) =
        Inr (descriptors (unat s) n (F \<union> {region_lo r ..< region_hi r}), b')
    \<and> has_free b' (F \<union> {region_lo r ..< region_hi r}) \<and> untouched {region_lo r ..< region_hi r} (snd b) (snd b')"
proof -
  let ?lo = "ppn_val (pa_ceil (pa_from_usize (pa_val (mr_base r))))"
    and ?hi = "ppn_val (pa_floor (pa_from_usize (pa_val (mr_base r) + mr_size r)))"
  have hi: "region_hi r \<le> unat s + n" using div_le_mono [OF assms(4), of 4096] by simp
  have lo: "unat s \<le> region_lo r" using div_le_mono [OF assms(3), of 4096] div_le_mono [of "rlo r" "rlo r + 4095" 4096] by simp
  have "(unat s + n) * 4096 \<le> 2 ^ 20 * 4096" using assms(6) by (rule mult_le_mono1)
  then have "rhi r < 2 ^ 56" using assms(4) by simp
  note rp = region_ppns [OF assms(2) this]
  have "mark_free s [unat ?lo ..< unat ?hi] (descriptors (unat s) n F)
      = Inr (descriptors (unat s) n (F \<union> set [unat ?lo ..< unat ?hi]))"
    unfolding rp using hi lo assms(6) by (intro mark_free_ok) auto
  then have mf: "mark_free s [unat ?lo ..< unat ?hi] (descriptors (unat s) n F)
      = Inr (descriptors (unat s) n (F \<union> {region_lo r ..< region_hi r}))" unfolding rp set_upt .
  obtain fl where fl: "buddy_inv b fl" "coalesced (block_set fl)" "free_pages fl = F" using assms(1) by (auto simp: has_free_def)
  have pos: "0 < unat ?lo" using lo assms(5) rp by linarith
  have le: "unat ?hi \<le> 2 ^ 52" using hi assms(6) rp by simp
  have dis: "{unat ?lo ..< unat ?hi} \<inter> free_pages fl = {}" and out: "unat ?lo - 1 \<notin> free_pages fl" "unat ?hi \<notin> free_pages fl"
    unfolding rp fl(3) using below by auto
  obtain b' fl' where b': "add_free_region b ?lo ?hi = Inr b'" "buddy_inv b' fl'"
    "free_pages fl' = F \<union> {region_lo r ..< region_hi r}" "coalesced (block_set fl')"
    "untouched {region_lo r ..< region_hi r} (snd b) (snd b')"
    using add_free_region_ok [OF fl(1) pos le dis] fl(2,3) out unfolding rp by blast
  have "has_free b' (F \<union> {region_lo r ..< region_hi r})" using b'(2-4) by (auto simp: has_free_def)
  moreover have "hand_over_region s r (descriptors (unat s) n F, b) =
      Inr (descriptors (unat s) n (F \<union> {region_lo r ..< region_hi r}), b')"
    unfolding hand_over_region_def Let_def prod.case mf b'(1) by simp
  ultimately show ?thesis using b'(5) by blast
qed

section \<open>Handing all regions over\<close>

definition region_pages :: "mem_region list \<Rightarrow> nat set" where
  "region_pages rs = (\<Union>r \<in> set rs. {region_lo r ..< region_hi r})"

lemma earlier_pages:
  assumes "regions_wf rs" and "k < length rs" and pos: "0 < rlo (rs ! k)"
  shows "region_pages (take k rs) \<subseteq> {..< (rlo (rs ! k) - 1) div 4096}"
    and "(rlo (rs ! k) - 1) div 4096 < region_lo (rs ! k)" and "(rlo (rs ! k) - 1) div 4096 \<le> region_hi (rs ! k)"
proof -
  let ?q = "(rlo (rs ! k) - 1) div 4096"
  have "region_hi r \<le> ?q" if "r \<in> set (take k rs)" for r
  proof -
    obtain j where j: "j < k" "r = rs ! j" using \<open>r \<in> set (take k rs)\<close> assms(2) by (auto simp: in_set_conv_nth)
    then have "rhi r < rlo (rs ! k)" using assms(1,2) unfolding regions_wf_def sorted_wrt_iff_nth_less by blast
    then show ?thesis by (intro div_le_mono) simp
  qed
  then show "region_pages (take k rs) \<subseteq> {..< ?q}" by (fastforce simp: region_pages_def)
  have "rlo (rs ! k) + 4095 = rlo (rs ! k) - 1 + 4096" using pos by simp
  then show "?q < region_lo (rs ! k)" by simp
  show "?q \<le> region_hi (rs ! k)" by (intro div_le_mono) simp
qed

lemma hand_over_ok:
  assumes "ra_inv a" and within: "\<forall>r \<in> set (ra_list a). unat s * 4096 \<le> rlo r \<and> rhi r \<le> (unat s + n) * 4096"
    and s: "0 < unat s" "unat s + n \<le> 2 ^ 20"
    and "k \<le> ra_count a" and "has_free b (region_pages (take k (ra_list a)))"
  shows "\<exists>b'. hand_over s a [k ..< ra_count a] (descriptors (unat s) n (region_pages (take k (ra_list a))), b)
      = Inr (descriptors (unat s) n (region_pages (ra_list a)), b')
    \<and> has_free b' (region_pages (ra_list a)) \<and> untouched (region_pages (ra_list a)) (snd b) (snd b')"
  using assms(5,6)
proof (induction "ra_count a - k" arbitrary: k b)
  case 0
  then show ?case using assms(1) by (simp add: ra_inv_def)
next
  case (Suc d)
  let ?L = "ra_list a"
  have ok: "ra_ok a" and wf: "regions_wf ?L" using assms(1) by (simp_all add: ra_inv_def)
  have k: "k < ra_count a" "k < length ?L" using Suc.hyps(2) ok by simp_all
  then have mem: "?L ! k \<in> set ?L" by simp
  then have r: "region_wf (?L ! k)" "unat s * 4096 \<le> rlo (?L ! k)" "rhi (?L ! k) \<le> (unat s + n) * 4096"
    using wf within by (simp_all add: regions_wf_def)
  have "0 < rlo (?L ! k)" using r(2) s(1) by linarith
  note ep = earlier_pages [OF wf k(2) this]
  have next_pages: "region_pages (take (Suc k) ?L) = region_pages (take k ?L) \<union> {region_lo (?L ! k) ..< region_hi (?L ! k)}"
    using k(2) by (auto simp: region_pages_def take_Suc_conv_app_nth)
  obtain b1 where b1: "hand_over_region s (?L ! k) (descriptors (unat s) n (region_pages (take k ?L)), b)
      = Inr (descriptors (unat s) n (region_pages (take (Suc k) ?L)), b1)" "has_free b1 (region_pages (take (Suc k) ?L))"
    "untouched {region_lo (?L ! k) ..< region_hi (?L ! k)} (snd b) (snd b1)"
    using hand_over_region_ok [OF Suc.prems(2) r s ep] unfolding next_pages by blast
  have "d = ra_count a - Suc k" "Suc k \<le> ra_count a" using Suc.hyps(2) k by simp_all
  from Suc.hyps(1) [OF this b1(2)] obtain b2 where b2:
    "hand_over s a [Suc k ..< ra_count a] (descriptors (unat s) n (region_pages (take (Suc k) ?L)), b1)
      = Inr (descriptors (unat s) n (region_pages ?L), b2)" "has_free b2 (region_pages ?L)"
    "untouched (region_pages ?L) (snd b1) (snd b2)" by blast
  have "{region_lo (?L ! k) ..< region_hi (?L ! k)} \<subseteq> region_pages ?L" using mem by (auto simp: region_pages_def)
  then have "untouched (region_pages ?L) (snd b) (snd b2)" using untouched_trans [OF b1(3) b2(3)] by blast
  moreover have "hand_over s a [k ..< ra_count a] (descriptors (unat s) n (region_pages (take k ?L)), b)
      = Inr (descriptors (unat s) n (region_pages ?L), b2)"
    using index_ra [OF ok k(1)] b1(1) b2(1) by (simp add: upt_conv_Cons [OF k(1)] del: index_eq_Inr_iff)
  ultimately show ?case using b2(2) by blast
qed

lemma covers_within:
  assumes "ra_inv a" and "covers a \<subseteq> {lo ..< hi}" and "r \<in> set (ra_list a)"
  shows "lo \<le> rlo r \<and> rhi r \<le> hi"
proof -
  have "bytes r \<subseteq> {lo ..< hi}" using assms(2,3) by (auto simp: covers_def)
  moreover have "0 < unat (mr_size r)" using assms(1,3) by (simp add: ra_inv_def regions_wf_def region_wf_def)
  ultimately show ?thesis by (simp add: bytes_def ivl_subset)
qed

lemma init_buddy_system_ok:
  assumes "mb_inv mb" and "heap_buddy h = buddy_new" and "0 < unat (ram_start_ppn h)"
    and "unat (ram_start_ppn h) \<le> unat ram_end" and "unat ram_end \<le> 2 ^ 20"
    and "covers (mb_available mb) \<subseteq> {unat (ram_start_ppn h) * 4096 ..< unat ram_end * 4096}"
  shows "\<exists>h'. init_buddy_system mb ram_end h = Inr h'
    \<and> mem_map h' = descriptors (unat (ram_start_ppn h)) (unat ram_end - unat (ram_start_ppn h)) (whole_pages (covers (mb_available mb)))
    \<and> has_free (heap_frames h') (whole_pages (covers (mb_available mb)))
    \<and> untouched (whole_pages (covers (mb_available mb))) (heap_mem h) (heap_mem h')
    \<and> ram_start_ppn h' = ram_start_ppn h \<and> caches h' = caches h"
proof -
  let ?s = "ram_start_ppn h" and ?n = "unat ram_end - unat (ram_start_ppn h)" and ?a = "mb_available mb"
  have ra: "ra_inv ?a" using assms(1) by (simp add: mb_inv_def)
  then have wp: "whole_pages (covers ?a) = region_pages (ra_list ?a)"
    by (simp add: covers_def region_pages_def ra_inv_def whole_pages_regions)
  have n: "unat (ram_end - ?s) = ?n" using assms(4) by (simp add: unat_word_minus)
  have sn: "unat ?s + ?n = unat ram_end" using assms(4) by simp
  have within: "\<forall>r \<in> set (ra_list ?a). unat ?s * 4096 \<le> rlo r \<and> rhi r \<le> (unat ?s + ?n) * 4096"
    unfolding sn using covers_within [OF ra assms(6)] by blast
  have e: "region_pages (take 0 (ra_list ?a)) = {}" by (simp add: region_pages_def)
  have free: "has_free (heap_frames h) (region_pages (take 0 (ra_list ?a)))" unfolding e assms(2) by (rule has_free_new)
  obtain b' where b': "hand_over ?s ?a [0 ..< ra_count ?a] (descriptors (unat ?s) ?n {}, heap_frames h)
      = Inr (descriptors (unat ?s) ?n (region_pages (ra_list ?a)), b')"
    "has_free b' (region_pages (ra_list ?a))" "untouched (region_pages (ra_list ?a)) (heap_mem h) (snd b')"
    using hand_over_ok [OF ra within assms(3) _ le0 free] assms(5) unfolding e sn by auto
  have "init_buddy_system mb ram_end h = Inr (set_frames (h\<lparr>mem_map := descriptors (unat ?s) ?n (region_pages (ra_list ?a))\<rparr>) b')"
    using b'(1) by (simp add: init_buddy_system_def Let_def n descriptors_empty)
  then show ?thesis using b'(2,3) unfolding wp by simp
qed

lemma whole_pages_bound: "whole_pages C \<subseteq> {a ..< b}" if "C \<subseteq> {a * 4096 ..< b * 4096}"
proof
  fix n
  assume "n \<in> whole_pages C"
  then have "n * 4096 \<in> C" by (auto simp: whole_pages_def)
  then show "n \<in> {a ..< b}" using that by auto
qed

lemma descriptors_no_slab:
  assumes "mem_map h = descriptors s n F"
  shows "slab_of h p = None"
  by (cases "page_index h p < n")
    (simp_all add: slab_of_def get_page_state_def assms index_def descriptors_nth)

section \<open>The hand-over\<close>

text \<open>C12. From a boot allocator that satisfies its invariant and whose available memory lies in RAM, \<open>init_buddy_system\<close>
  returns: the buddy allocator then owns exactly the pages that lie completely in the available memory, the descriptor of a
  page is \<open>Free\<close> when it is one of them and \<open>Reserved\<close> otherwise, no other memory is written, and the heap is in the state
  in which the histories of the slab allocator start.\<close>

theorem init_buddy_system_correct:
  assumes "mb_inv mb" and "caches h = SLUB_ALLOCATOR" and "heap_buddy h = buddy_new" and "0 < unat (ram_start_ppn h)"
    and "unat (ram_start_ppn h) \<le> unat ram_end" and "unat ram_end < 2 ^ 20"
    and "covers (mb_available mb) \<subseteq> {unat (ram_start_ppn h) * 4096 ..< unat ram_end * 4096}"
  shows "\<exists>h'. init_buddy_system mb ram_end h = Inr h' \<and> heap_start (whole_pages (covers (mb_available mb))) h'
    \<and> (\<forall>n \<in> {unat (ram_start_ppn h) ..< unat ram_end}. mem_map h' ! (n - unat (ram_start_ppn h)) =
        (if n \<in> whole_pages (covers (mb_available mb)) then \<lparr>ref_count = 0, page_state = Free\<rparr>
         else \<lparr>ref_count = 1, page_state = Reserved\<rparr>))
    \<and> untouched (whole_pages (covers (mb_available mb))) (heap_mem h) (heap_mem h')"
proof -
  let ?F = "whole_pages (covers (mb_available mb))"
  have le: "unat ram_end \<le> 2 ^ 20" using assms(6) by simp
  obtain h' where h': "init_buddy_system mb ram_end h = Inr h'"
    "mem_map h' = descriptors (unat (ram_start_ppn h)) (unat ram_end - unat (ram_start_ppn h)) ?F"
    "has_free (heap_frames h') ?F" "untouched ?F (heap_mem h) (heap_mem h')"
    "ram_start_ppn h' = ram_start_ppn h" "caches h' = caches h"
    using init_buddy_system_ok [OF assms(1,3-5) le assms(7)] by blast
  have F: "?F \<subseteq> {unat (ram_start_ppn h) ..< unat ram_end}" using whole_pages_bound [OF assms(7)] .
  then have "?F \<subseteq> {..< 2 ^ 20 - 1}" using assms(6) by auto
  then have "heap_start ?F h'" using h' assms(2,5) F descriptors_no_slab [OF h'(2)] by (simp add: heap_start_def)
  moreover have "mem_map h' ! (n - unat (ram_start_ppn h)) = (if n \<in> ?F then \<lparr>ref_count = 0, page_state = Free\<rparr>
      else \<lparr>ref_count = 1, page_state = Reserved\<rparr>)" if "n \<in> {unat (ram_start_ppn h) ..< unat ram_end}" for n
    using that by (auto simp: h'(2) descriptors_nth)
  ultimately show ?thesis using h'(1,4) by blast
qed

theorem init_buddy_system_correct_witness:
  "\<exists>mb h h'. init_add_memory memblock_new (PhysAddr 0x80000000) 0x8000000 = Inr mb
     \<and> init_buddy_system mb 0x88000 h = Inr h' \<and> heap_start (whole_pages {0x80000000 ..< 0x88000000}) h'"
proof -
  obtain mb where mb: "init_add_memory memblock_new (PhysAddr 0x80000000) 0x8000000 = Inr mb" "mb_inv mb"
    "covers (mb_available mb) = span (PhysAddr 0x80000000) 0x8000000" using boot_memblock by blast
  have c: "covers (mb_available mb) = {0x80000000 ..< 0x88000000}" using mb(3) by (simp add: span_def)
  define h where "h = \<lparr>caches = SLUB_ALLOCATOR, mem_map = [], ram_start_ppn = 0x80000, heap_buddy = buddy_new, heap_mem = (\<lambda>_. 0)\<rparr>"
  have "\<exists>h'. init_buddy_system mb 0x88000 h = Inr h' \<and> heap_start (whole_pages (covers (mb_available mb))) h'"
    using init_buddy_system_correct [OF mb(2), of h "0x88000"] by (auto simp: h_def c)
  then show ?thesis using mb(1) unfolding c by blast
qed

end
