(* ===== verification/Boot.thy ===== *)
theory Boot
  imports Handover
begin

text \<open>
  The boot code of \<open>src/mm/mod.rs\<close>: the early page table, the set-up of the boot allocator and of the kernel's page table
  from the device tree, the switch to that table and the removal of the temporary identity mapping.

  The device tree comes from the crate \<open>fdt\<close>: \<open>Fdt::from_ptr\<close> is the argument \<open>fdt_from_ptr\<close>, and the records below hold what
  the kernel reads of its result. The addresses of the linker script are a record of virtual addresses, the size of
  \<open>Page\<close> is an argument. The boot messages are not modelled. Until the switch the page tables are written through
  their physical addresses, which the early page table maps to themselves.
\<close>

section \<open>The early page table\<close>

record satp =
  satp_mode :: nat
  satp_asid :: nat
  satp_ppn :: usize

definition Sv39 :: nat where "Sv39 = 8"

definition enable_early_mmu :: "usize \<Rightarrow> usize \<Rightarrow> memory \<Rightarrow> satp \<times> memory" where
  "enable_early_mmu kernel_phys_addr pt_pa m =
     (let phy_base = kernel_phys_addr AND NOT (shl 1 30 - 1);
          virt_base = PHYS_VIRT_OFFSET + phy_base;
          flags = PTE_V OR PTE_R OR PTE_W OR PTE_X;
          ppn = shr phy_base PAGE_SIZE_BITS;
          pte = shl ppn 10 OR ucast flags;
          ident_idx = shr phy_base 30 AND (shl 1 9 - 1);
          higher_half_idx = shr virt_base 30 AND (shl 1 9 - 1)
      in (\<lparr>satp_mode = Sv39, satp_asid = 0, satp_ppn = shr pt_pa PAGE_SIZE_BITS\<rparr>,
          m(pt_pa + ident_idx * 8 := pte, pt_pa + higher_half_idx * 8 := pte)))"

section \<open>What the boot code reads\<close>

record fdt_region =
  starting_address :: usize
  region_size :: "usize option"

record fdt_node =
  node_name :: string
  node_reg :: "fdt_region list option"

record fdt =
  all_nodes :: "fdt_node list"
  memory_reservations :: "(usize \<times> usize) list"
  fdt_total_size :: usize

record linker =
  sym_skernel :: usize
  sym_ekernel :: usize
  sym_text_start :: usize
  sym_text_end :: usize
  sym_rodata_start :: usize
  sym_rodata_end :: usize
  sym_data_start :: usize
  sym_data_end :: usize
  sym_bss_start_with_stack :: usize
  sym_bss_end :: usize

text \<open>The statics that the boot code leaves to the rest of the kernel.\<close>

record boot =
  boot_mb :: memblock
  boot_mem :: memory
  boot_root_ppn :: phys_page_num
  boot_ram_start :: usize
  boot_ram_end :: usize
  boot_mem_map_pa :: phys_addr

definition unwrap_or_0 :: "usize option \<Rightarrow> usize" where
  "unwrap_or_0 x = (case x of None \<Rightarrow> 0 | Some v \<Rightarrow> v)"

abbreviation is_memory :: "fdt_node \<Rightarrow> bool" where
  "is_memory node \<equiv> prefix ''memory'' (node_name node)"

section \<open>The boot allocator\<close>

fun find_ram :: "fdt_node list \<Rightarrow> usize \<times> usize" where
  "find_ram [] = (0, 0)"
| "find_ram (node # nodes) =
     (if is_memory node
      then (case node_reg node of
              Some (memory_region # _) \<Rightarrow> (starting_address memory_region, unwrap_or_0 (region_size memory_region))
            | _ \<Rightarrow> find_ram nodes)
      else find_ram nodes)"

fun reserve_all :: "(usize \<times> usize) list \<Rightarrow> memblock \<Rightarrow> memblock res" where
  "reserve_all [] mb = Inr mb"
| "reserve_all ((address, sz) # rs) mb = rbind (reserve_memory mb (PhysAddr address) sz) (reserve_all rs)"

definition setup_memblock :: "linker \<Rightarrow> fdt \<Rightarrow> usize \<Rightarrow> memblock \<Rightarrow> memblock res" where
  "setup_memblock lk t dtb_addr mb =
     (let skernel = virt_to_phys (sym_skernel lk); ekernel = virt_to_phys (sym_ekernel lk);
          (ram_base, ram_size) = find_ram (all_nodes t)
      in rbind (init_add_memory mb (PhysAddr ram_base) ram_size) (\<lambda>mb1.
         rbind (reserve_memory mb1 (PhysAddr skernel) (ekernel - skernel)) (\<lambda>mb2.
         rbind (reserve_all (memory_reservations t) mb2) (\<lambda>mb3.
         reserve_memory mb3 (PhysAddr dtb_addr) (fdt_total_size t)))))"

section \<open>The page table of the kernel\<close>

text \<open>A memory region of a device node: reserved when it lies in RAM, mapped otherwise.\<close>

definition device_region :: "usize \<Rightarrow> usize \<Rightarrow> usize \<Rightarrow> fdt_region \<Rightarrow> memblock \<times> memory \<Rightarrow> (memblock \<times> memory) res" where
  "device_region ram_base ram_end root_pt memory_region s =
     (let base = starting_address memory_region; sz = unwrap_or_0 (region_size memory_region) in
      if sz > 0
      then let stop = base + sz in
           if base \<ge> ram_base \<and> stop \<le> ram_end
           then rbind (reserve_memory (fst s) (PhysAddr base) sz) (\<lambda>mb. Inr (mb, snd s))
           else map_segment base stop root_pt Linear (Map_flags (PTE_R OR PTE_W)) s
      else Inr s)"

fun device_regions :: "usize \<Rightarrow> usize \<Rightarrow> usize \<Rightarrow> fdt_region list \<Rightarrow> memblock \<times> memory \<Rightarrow> (memblock \<times> memory) res" where
  "device_regions ram_base ram_end root_pt [] s = Inr s"
| "device_regions ram_base ram_end root_pt (r # rs) s =
     rbind (device_region ram_base ram_end root_pt r s) (device_regions ram_base ram_end root_pt rs)"

fun device_nodes :: "usize \<Rightarrow> usize \<Rightarrow> usize \<Rightarrow> fdt_node list \<Rightarrow> memblock \<times> memory \<Rightarrow> (memblock \<times> memory) res" where
  "device_nodes ram_base ram_end root_pt [] s = Inr s"
| "device_nodes ram_base ram_end root_pt (node # nodes) s =
     (if is_memory node then device_nodes ram_base ram_end root_pt nodes s
      else case node_reg node of
             None \<Rightarrow> device_nodes ram_base ram_end root_pt nodes s
           | Some reg \<Rightarrow> rbind (device_regions ram_base ram_end root_pt reg s) (device_nodes ram_base ram_end root_pt nodes))"

text \<open>The calls of \<open>map_segment\<close> for the kernel and for the rest of RAM, in their order.\<close>

definition kernel_segments :: "linker \<Rightarrow> usize \<Rightarrow> usize \<Rightarrow> (usize \<times> usize \<times> boot_map_type \<times> u8) list" where
  "kernel_segments lk ram_base ram_end =
     (let stext = virt_to_phys (sym_text_start lk); etext = virt_to_phys (sym_text_end lk);
          srodata = virt_to_phys (sym_rodata_start lk); erodata = virt_to_phys (sym_rodata_end lk);
          sdata = virt_to_phys (sym_data_start lk); edata = virt_to_phys (sym_data_end lk);
          sbss_with_stack = virt_to_phys (sym_bss_start_with_stack lk); ebss = virt_to_phys (sym_bss_end lk);
          skernel = virt_to_phys (sym_skernel lk); ekernel = virt_to_phys (sym_ekernel lk);
          ram_start_after_kernel = align_up ekernel PAGE_SIZE
      in [(stext, etext, Linear, PTE_R OR PTE_X), (stext, etext, Identical, PTE_R OR PTE_X),
          (srodata, erodata, Linear, PTE_R), (srodata, erodata, Identical, PTE_R),
          (sdata, edata, Linear, PTE_R OR PTE_W), (sdata, edata, Identical, PTE_R OR PTE_W),
          (sbss_with_stack, ebss, Linear, PTE_R OR PTE_W), (sbss_with_stack, ebss, Identical, PTE_R OR PTE_W),
          (ram_start_after_kernel, ram_end, Linear, PTE_R OR PTE_W), (ram_base, skernel, Linear, PTE_R OR PTE_W)])"

fun map_segments ::
  "usize \<Rightarrow> (usize \<times> usize \<times> boot_map_type \<times> u8) list \<Rightarrow> memblock \<times> memory \<Rightarrow> (memblock \<times> memory) res" where
  "map_segments root_pt [] s = Inr s"
| "map_segments root_pt ((start, stop, mt, flags) # segs) s =
     rbind (map_segment start stop root_pt mt (Map_flags flags) s) (map_segments root_pt segs)"

definition mem_map_bytes :: "usize \<Rightarrow> usize \<Rightarrow> usize" where
  "mem_map_bytes size_of_page total_pages =
     (let mem_map_size = total_pages * size_of_page;
          mem_map_pages = shr (mem_map_size + PAGE_SIZE - 1) PAGE_SIZE_BITS
      in mem_map_pages * PAGE_SIZE)"

definition map_memory :: "linker \<Rightarrow> fdt \<Rightarrow> usize \<Rightarrow> memblock \<times> memory \<Rightarrow> (memblock \<times> memory) res" where
  "map_memory lk t root_pt s =
     (let (ram_base, ram_size) = find_ram (all_nodes t); ram_end = ram_base + ram_size
      in rbind (device_nodes ram_base ram_end root_pt (all_nodes t) s)
           (map_segments root_pt (kernel_segments lk ram_base ram_end)))"

definition publish_boot :: "usize \<Rightarrow> fdt \<Rightarrow> phys_addr \<Rightarrow> memblock \<times> memory \<Rightarrow> boot res" where
  "publish_boot size_of_page t root_pa s = (case s of (mb, m) \<Rightarrow>
     rbind (ppn_from_pa root_pa) (\<lambda>root_ppn.
       let (ram_base, ram_size) = find_ram (all_nodes t); ram_end = ram_base + ram_size;
           ram_start_ppn = shr ram_base PAGE_SIZE_BITS;
           ram_end_ppn = shr ram_end PAGE_SIZE_BITS;
           total_pages = ram_end_ppn - ram_start_ppn
       in rbind (early_alloc mb (mem_map_bytes size_of_page total_pages) PAGE_SIZE) (\<lambda>(r, mb).
          rbind (unwrap r) (\<lambda>mem_map_pa.
            Inr \<lparr>boot_mb = mb, boot_mem = m, boot_root_ppn = root_ppn, boot_ram_start = ram_start_ppn,
                 boot_ram_end = ram_end_ppn, boot_mem_map_pa = mem_map_pa\<rparr>))))"

definition setup_memory_and_mapping ::
  "(usize \<Rightarrow> fdt option) \<Rightarrow> usize \<Rightarrow> linker \<Rightarrow> usize \<Rightarrow> boot \<Rightarrow> boot res" where
  "setup_memory_and_mapping fdt_from_ptr size_of_page lk dtb_addr b =
     rbind (unwrap (fdt_from_ptr dtb_addr)) (\<lambda>t.
     rbind (setup_memblock lk t dtb_addr (boot_mb b)) (\<lambda>mb.
     rbind (early_alloc mb PAGE_SIZE PAGE_SIZE) (\<lambda>(r, mb).
     rbind (unwrap r) (\<lambda>root_pa.
       let m = write_zero_page (boot_mem b) (pa_val root_pa)
       in rbind (map_memory lk t (pa_val root_pa) (mb, m)) (publish_boot size_of_page t root_pa)))))"

section \<open>The switch\<close>

definition switch_to_final_page_table :: "boot \<Rightarrow> satp" where
  "switch_to_final_page_table b = \<lparr>satp_mode = Sv39, satp_asid = 0, satp_ppn = ppn_val (boot_root_ppn b)\<rparr>"

fun unmap_segments :: "usize \<Rightarrow> (usize \<times> usize \<times> boot_map_type) list \<Rightarrow> memblock \<times> memory \<Rightarrow> (memblock \<times> memory) res" where
  "unmap_segments root_pt [] s = Inr s"
| "unmap_segments root_pt ((start, stop, mt) # segs) s =
     rbind (map_segment start stop root_pt mt Unmap s) (unmap_segments root_pt segs)"

definition identity_segments :: "linker \<Rightarrow> (usize \<times> usize \<times> boot_map_type) list" where
  "identity_segments lk =
     (let stext = virt_to_phys (sym_text_start lk); etext = virt_to_phys (sym_text_end lk);
          srodata = virt_to_phys (sym_rodata_start lk); erodata = virt_to_phys (sym_rodata_end lk);
          sdata = virt_to_phys (sym_data_start lk); edata = virt_to_phys (sym_data_end lk);
          sbss_with_stack = virt_to_phys (sym_bss_start_with_stack lk); ebss = virt_to_phys (sym_bss_end lk)
      in [(stext, etext, Identical), (srodata, erodata, Identical), (sdata, edata, Identical), (sbss_with_stack, ebss, Identical)])"

definition unmap_temp_identity_area :: "linker \<Rightarrow> boot \<Rightarrow> boot res" where
  "unmap_temp_identity_area lk b =
     (let root_pa = pa_from_ppn (boot_root_ppn b); root_pt_va = phys_to_virt (pa_val root_pa)
      in rbind (unmap_segments root_pt_va (identity_segments lk) (boot_mb b, boot_mem b)) (\<lambda>(mb, m).
           Inr (b\<lparr>boot_mb := mb, boot_mem := m\<rparr>)))"

text \<open>The memory part of \<open>virt_rust_main\<close> (\<open>src/main.rs\<close>). \<open>MEM_MAP\<close>, the buddy allocator and the memory they work on
  are the fields of the heap.\<close>

definition start_memory ::
  "(usize \<Rightarrow> fdt option) \<Rightarrow> usize \<Rightarrow> linker \<Rightarrow> usize \<Rightarrow> boot \<Rightarrow> heap \<Rightarrow> (satp \<times> boot \<times> heap) res" where
  "start_memory fdt_from_ptr size_of_page lk dtb_addr b h =
     rbind (setup_memory_and_mapping fdt_from_ptr size_of_page lk dtb_addr b) (\<lambda>b1.
       let satp = switch_to_final_page_table b1
       in rbind (unmap_temp_identity_area lk b1) (\<lambda>b2.
          rbind (init_buddy_system (boot_mb b2) (boot_ram_end b2) (h\<lparr>ram_start_ppn := boot_ram_start b2, heap_mem := boot_mem b2\<rparr>))
            (\<lambda>h'. Inr (satp, b2, h'))))"

section \<open>Segments of an address space\<close>

type_synonym seg = "usize \<times> usize \<times> boot_map_type \<times> u8"

fun seg_pages :: "seg \<Rightarrow> (nat \<times> page_size) list" where
  "seg_pages (start, stop, mt, flags) = segment start stop"

fun seg_range :: "seg \<Rightarrow> nat set" where
  "seg_range (start, stop, mt, flags) = segment_range mt start stop"

fun seg_type :: "seg \<Rightarrow> boot_map_type" where
  "seg_type (start, stop, mt, flags) = mt"

fun seg_flags :: "seg \<Rightarrow> u8" where
  "seg_flags (start, stop, mt, flags) = flags"

fun seg_ok :: "seg \<Rightarrow> bool" where
  "seg_ok (start, stop, mt, flags) \<longleftrightarrow> unat start \<le> unat stop \<and> unat stop \<le> 2 ^ 32 \<and> leaf_flags flags"

definition segs_ok :: "seg list \<Rightarrow> bool" where
  "segs_ok segs \<longleftrightarrow> (\<forall>s \<in> set segs. seg_ok s) \<and> sorted_wrt (\<lambda>s t. seg_range s \<inter> seg_range t = {}) segs"

text \<open>A page table translates exactly the addresses of the segments, each to its physical address with its rights.\<close>

definition address_space :: "memory \<Rightarrow> usize \<Rightarrow> seg list \<Rightarrow> bool" where
  "address_space m r segs \<longleftrightarrow>
     (\<forall>s \<in> set segs. \<forall>w. unat w \<in> seg_range s \<longrightarrow>
        translate m r w = Some (unat w - va_offset (seg_type s), seg_flags s OR PTE_V))
     \<and> (\<forall>w. (\<forall>s \<in> set segs. unat w \<notin> seg_range s) \<longrightarrow> translate m r w = None)"

text \<open>The state between two segments: \<open>dn\<close> are mapped, \<open>todo\<close> can still be mapped.\<close>

definition boot_map :: "usize \<Rightarrow> seg list \<Rightarrow> seg list \<Rightarrow> memblock \<Rightarrow> memory \<Rightarrow> bool" where
  "boot_map r dn todo mb m \<longleftrightarrow> boot_inv mb m r \<and> address_space m r dn
     \<and> (\<forall>s \<in> set dn. \<forall>x \<in> set (seg_pages s). leaf_at m r (page_key (seg_type s) x) \<noteq> None)
     \<and> (\<forall>s \<in> set todo. \<forall>x \<in> set (seg_pages s). vacant m r (page_key (seg_type s) x))"

lemma seg_pages_ok: "seg_ok s \<Longrightarrow> pages_ok (seg_pages s)"
  using seg_bounds by (cases s) (auto intro: segment_pages_ok(1))

lemma seg_pages_range:
  assumes "seg_ok s"
  shows "(\<exists>x \<in> set (seg_pages s). n \<in> {fst x + va_offset (seg_type s) ..< fst x + va_offset (seg_type s) + page_bytes (snd x)})
    \<longleftrightarrow> n \<in> seg_range s"
proof (cases s)
  case (fields start stop mt flags)
  have "unat start \<le> unat stop" "unat stop \<le> 2 ^ 32" using assms by (simp_all add: fields)
  from segment_pages_ok(2) [OF seg_bounds(1-4) [OF this]] show ?thesis by (simp add: fields segment_range_def)
qed

lemma keys_apart:
  assumes "seg_ok s" and "seg_ok t" and "seg_range s \<inter> seg_range t = {}" and x: "x \<in> set (seg_pages s)" and y: "y \<in> set (seg_pages t)"
  shows "\<not> prefix (page_key (seg_type s) x) (page_key (seg_type t) y)"
proof
  assume p: "prefix (page_key (seg_type s) x) (page_key (seg_type t) y)"
  let ?w = "pa_to_va (seg_type t) (of_nat (fst y))"
  note px = pages_ok_mem [OF seg_pages_ok [OF assms(1)] x] and py = pages_ok_mem [OF seg_pages_ok [OF assms(2)] y]
  have lt: "fst y < 2 ^ 32" using py(2) page_bytes_pos [of "snd y"] by linarith
  have len: "length (page_key mt v) = target_level (snd v)" for mt v
    using target_level_bounds [of "snd v"] by (simp add: page_key_def va_path_eq)
  from p have le: "target_level (snd x) \<le> target_level (snd y)" using prefix_length_le len by metis
  from p have "page_key (seg_type s) x = take (target_level (snd x)) (page_key (seg_type t) y)"
    using len by (metis append_eq_conv_conj prefix_def)
  also have "\<dots> = take (target_level (snd x)) (va_path ?w)" using le by (simp add: page_key_def min_absorb1)
  finally have "unat ?w \<in> {fst x + va_offset (seg_type s) ..< fst x + va_offset (seg_type s) + page_bytes (snd x)}"
    using page_key_iff [OF px pa_to_va_facts(2) [OF lt], of "seg_type t" "seg_type s"] by simp
  then have "unat ?w \<in> seg_range s" using seg_pages_range [OF assms(1)] x by blast
  moreover have "unat ?w \<in> {fst y + va_offset (seg_type t) ..< fst y + va_offset (seg_type t) + page_bytes (snd y)}"
    using pa_to_va_facts(1) [OF lt, of "seg_type t"] page_bytes_pos [of "snd y"] by simp
  then have "unat ?w \<in> seg_range t" using seg_pages_range [OF assms(2)] y by blast
  ultimately show False using assms(3) by blast
qed

lemma page_key_entry: "entry_path (page_key mt x)"
  unfolding page_key_path by (rule page_path_parts(3))

lemma segs_ok_append:
  "segs_ok (xs @ ys) \<longleftrightarrow> segs_ok xs \<and> segs_ok ys \<and> (\<forall>s \<in> set xs. \<forall>t \<in> set ys. seg_range s \<inter> seg_range t = {})"
  by (auto simp: segs_ok_def sorted_wrt_append)

lemma segs_ok_Cons:
  "segs_ok (s # ys) \<longleftrightarrow> seg_ok s \<and> segs_ok ys \<and> (\<forall>t \<in> set ys. seg_range s \<inter> seg_range t = {})"
  by (auto simp: segs_ok_def)

section \<open>Mapping one segment after the other\<close>

lemma map_step:
  assumes st: "boot_map r dn ((start, stop, mt, flags) # todo) mb m" and ok: "segs_ok (dn @ (start, stop, mt, flags) # todo)"
  shows "case map_segment start stop r mt (Map_flags flags) (mb, m) of
      Inl f \<Rightarrow> boot_fault f \<and> \<not> frames_left mb (2 * length (segment start stop))
    | Inr (mb', m') \<Rightarrow> frames_taken (2 * length (segment start stop)) mb mb' \<and> boot_map r (dn @ [(start, stop, mt, flags)]) todo mb' m'"
proof -
  let ?s = "(start, stop, mt, flags)"
  have inv: "boot_inv mb m r" and sp: "address_space m r dn"
    and lv: "\<forall>s \<in> set dn. \<forall>x \<in> set (seg_pages s). leaf_at m r (page_key (seg_type s) x) \<noteq> None"
    and vc: "\<forall>s \<in> set (?s # todo). \<forall>x \<in> set (seg_pages s). vacant m r (page_key (seg_type s) x)"
    using st unfolding boot_map_def by blast+
  have s: "seg_ok ?s" and t: "\<forall>t \<in> set todo. seg_ok t \<and> seg_range ?s \<inter> seg_range t = {}"
    and d: "\<forall>t \<in> set dn. seg_range t \<inter> seg_range ?s = {}"
    using ok unfolding segs_ok_append segs_ok_Cons by (auto simp: segs_ok_def)
  have so: "unat start \<le> unat stop" "unat stop \<le> 2 ^ 32" "leaf_flags flags" using s by simp_all
  have vs: "\<forall>x \<in> set (segment start stop). vacant m r (page_key mt x)" using vc by simp
  note mc = map_segment_cases [OF inv so(3,1,2) vs]
  show ?thesis
  proof (cases "map_segment start stop r mt (Map_flags flags) (mb, m)")
    case (Inl f)
    then show ?thesis using mc by simp
  next
    case (Inr q)
    obtain mb' m' where q: "map_segment start stop r mt (Map_flags flags) (mb, m) = Inr (mb', m')" using Inr by (cases q) simp
    have res: "boot_inv mb' m' r" "frames_taken (2 * length (segment start stop)) mb mb'"
      "\<forall>x \<in> set (segment start stop). leaf_at m' r (page_key mt x) \<noteq> None"
      and keep: "\<forall>Q. entry_path Q \<longrightarrow> leaf_at m r Q \<noteq> None \<longrightarrow> leaf_at m' r Q \<noteq> None"
      and vp: "\<forall>Q. entry_path Q \<longrightarrow> vacant m r Q \<longrightarrow>
        (\<forall>x \<in> set (segment start stop). \<not> prefix (page_key mt x) Q \<and> \<not> prefix Q (page_key mt x)) \<longrightarrow> vacant m' r Q"
      and tr: "\<forall>w. translate m' r w = (if unat w \<in> segment_range mt start stop
        then Some (unat w - va_offset mt, flags OR PTE_V) else translate m r w)"
      using mc unfolding q by simp_all
    have "translate m' r w = Some (unat w - va_offset (seg_type t), seg_flags t OR PTE_V)"
      if tt: "t \<in> set (dn @ [?s])" "unat w \<in> seg_range t" for t w
    proof (cases "t = ?s")
      case False
      then have "t \<in> set dn" using tt(1) by simp
      moreover from this d tt(2) have "unat w \<notin> segment_range mt start stop" by auto
      ultimately show ?thesis using tr sp tt(2) by (simp add: address_space_def)
    qed (use tr tt in simp)
    moreover have "translate m' r w = None" if "\<forall>t \<in> set (dn @ [?s]). unat w \<notin> seg_range t" for w
      using tr sp that by (simp add: address_space_def)
    ultimately have "address_space m' r (dn @ [?s])" unfolding address_space_def by blast
    moreover have "vacant m' r (page_key (seg_type t) y)" if ty: "t \<in> set todo" "y \<in> set (seg_pages t)" for t y
    proof -
      have "\<not> prefix (page_key mt x) (page_key (seg_type t) y)" "\<not> prefix (page_key (seg_type t) y) (page_key mt x)"
        if "x \<in> set (segment start stop)" for x
        using keys_apart [OF s, of t x y] keys_apart [of t ?s y x] t ty that s by auto
      moreover have "vacant m r (page_key (seg_type t) y)" using vc ty by simp
      ultimately show ?thesis using vp page_key_entry by blast
    qed
    moreover have "leaf_at m' r (page_key (seg_type t) y) \<noteq> None" if "t \<in> set (dn @ [?s])" "y \<in> set (seg_pages t)" for t y
    proof (cases "t = ?s")
      case False
      then have "leaf_at m r (page_key (seg_type t) y) \<noteq> None" using that lv by simp
      then show ?thesis using keep page_key_entry by blast
    qed (use res(3) that in simp)
    ultimately have "boot_map r (dn @ [?s]) todo mb' m'" using res(1) unfolding boot_map_def by blast
    then show ?thesis using res(2) unfolding q by simp
  qed
qed

fun seg_frames :: "seg list \<Rightarrow> nat" where
  "seg_frames [] = 0"
| "seg_frames (s # ss) = 2 * length (seg_pages s) + seg_frames ss"

lemma map_segments_cases:
  assumes "boot_map r dn (segs @ todo) mb m" and "segs_ok (dn @ segs @ todo)"
  shows "case map_segments r segs (mb, m) of
      Inl f \<Rightarrow> boot_fault f \<and> \<not> frames_left mb (seg_frames segs)
    | Inr (mb', m') \<Rightarrow> frames_taken (seg_frames segs) mb mb' \<and> boot_map r (dn @ segs) todo mb' m'"
  using assms
proof (induction segs arbitrary: dn mb m)
  case (Cons s segs)
  obtain start stop mt flags where s: "s = (start, stop, mt, flags)" by (cases s)
  have st: "boot_map r dn ((start, stop, mt, flags) # segs @ todo) mb m" using Cons.prems(1) s by simp
  have ok: "segs_ok (dn @ (start, stop, mt, flags) # segs @ todo)" using Cons.prems(2) s by simp
  note step = map_step [OF st ok]
  show ?case
  proof (cases "map_segment start stop r mt (Map_flags flags) (mb, m)")
    case (Inl f)
    then show ?thesis using step frames_left_le [of "2 * length (segment start stop)" "seg_frames (s # segs)" mb]
      by (auto simp: s)
  next
    case (Inr q)
    obtain mb1 m1 where q: "map_segment start stop r mt (Map_flags flags) (mb, m) = Inr (mb1, m1)" using Inr by (cases q) simp
    have t1: "frames_taken (2 * length (segment start stop)) mb mb1" "boot_map r (dn @ [s]) (segs @ todo) mb1 m1"
      using step unfolding q s by simp_all
    have "segs_ok ((dn @ [s]) @ segs @ todo)" using Cons.prems(2) by simp
    note ih = Cons.IH [OF t1(2) this]
    show ?thesis
    proof (cases "map_segments r segs (mb1, m1)")
      case (Inl f)
      then show ?thesis using ih q frames_taken_left [OF t1(1), of "seg_frames segs"] by (auto simp: s add.commute)
    next
      case (Inr q2)
      then show ?thesis using ih q frames_taken_trans [OF t1(1), of "seg_frames segs"] by (cases q2) (auto simp: s)
    qed
  qed
qed simp

section \<open>The root table\<close>

lemma zero_table:
  assumes z: "\<forall>j < 512. m (slot r j) = 0"
  shows "path_ok q \<Longrightarrow> table_at m r q = (if q = [] then Some r else None)"
    and "entry_path Q \<Longrightarrow> pte_at m r Q = None" and "entry_path Q \<Longrightarrow> vacant m r Q" and "translate m r w = None"
proof -
  show t: "table_at m r q = (if q = [] then Some r else None)" if "path_ok q" for q
    using that z by (cases q) (simp_all add: path_ok_def)
  show p: "pte_at m r Q = None" if Q: "entry_path Q" for Q
  proof -
    have "path_ok (butlast Q)" using Q by (auto simp: entry_path_def path_ok_def dest: in_set_butlastD)
    moreover have "last Q < 512" using Q by (simp add: entry_path_def)
    ultimately show ?thesis using t z by (simp add: pte_at_def)
  qed
  show "vacant m r Q" if Q: "entry_path Q" for Q
  proof -
    have "entry_path Q'" if "Q' \<noteq> []" "strict_prefix Q' Q" for Q'
      using that Q by (auto simp: entry_path_def strict_prefix_def prefix_def)
    then show ?thesis using p Q by (simp add: vacant_def leaf_at_def)
  qed
  have "leaf_at m r (take (Suc k) (va_path w)) = None" if "k < 3" for k
    using p [of "take (Suc k) (va_path w)"] take_vpn_path_ok(2) [of "Suc k"] that by (simp add: leaf_at_def va_path_def)
  then have "sv39_walk m r (va_path w) \<noteq> Some (p, f, n)" for p f n unfolding sv39_walk_leaf by (auto simp: va_path_eq)
  then have "sv39_walk m r (va_path w) = None" by (metis not_None_eq prod_cases3)
  then show "translate m r w = None" by (simp add: translate_def)
qed

lemma fresh_root:
  assumes "boot_ok mb" and "early_alloc mb PAGE_SIZE PAGE_SIZE = Inr (Some p, mb')"
  shows "boot_map (pa_val p) [] todo mb' (write_zero_page m (pa_val p))"
proof -
  let ?r = "pa_val p" and ?m = "write_zero_page m (pa_val p)"
  note ea = early_alloc_page [OF assms]
  have z: "\<forall>j < 512. ?m (slot ?r j) = 0"
    using write_zero_page_eq [OF ea(1), of m] slot_in_page [OF ea(1)] by simp
  note zt = zero_table [OF z]
  have "tables_wf ?m ?r" unfolding tables_wf_def using ea(1) zt(1) by (auto split: if_splits)
  moreover have "table_bytes a \<inter> covers (mb_available mb') = {}" if "path_ok q" "table_at ?m ?r q = Some a" for q a
    using that zt(1) [OF that(1)] ea(3) by (auto split: if_splits)
  ultimately have "boot_inv mb' ?m ?r" using ea(4) unfolding boot_frames.pt_inv_def by blast
  then show ?thesis using zt(3,4) page_key_entry by (simp add: boot_map_def address_space_def)
qed

section \<open>The devices\<close>

definition device_list :: "fdt_node list \<Rightarrow> fdt_region list" where
  "device_list nodes = concat (map (\<lambda>node. if is_memory node then [] else case node_reg node of None \<Rightarrow> [] | Some reg \<Rightarrow> reg) nodes)"

abbreviation dev_size :: "fdt_region \<Rightarrow> usize" where
  "dev_size d \<equiv> unwrap_or_0 (region_size d)"

abbreviation in_ram :: "usize \<Rightarrow> usize \<Rightarrow> fdt_region \<Rightarrow> bool" where
  "in_ram ram_base ram_end d \<equiv> ram_base \<le> starting_address d \<and> starting_address d + dev_size d \<le> ram_end"

definition device_segs :: "usize \<Rightarrow> usize \<Rightarrow> fdt_region list \<Rightarrow> seg list" where
  "device_segs ram_base ram_end ds = map (\<lambda>d. (starting_address d, starting_address d + dev_size d, Linear, PTE_R OR PTE_W))
     (filter (\<lambda>d. 0 < dev_size d \<and> \<not> in_ram ram_base ram_end d) ds)"

definition firmware :: "usize \<Rightarrow> usize \<Rightarrow> fdt_region list \<Rightarrow> nat set" where
  "firmware ram_base ram_end ds =
     (\<Union>d \<in> {d \<in> set ds. in_ram ram_base ram_end d}. span (PhysAddr (starting_address d)) (dev_size d))"

lemma device_regions_append:
  "device_regions rb re r (ds @ es) s = rbind (device_regions rb re r ds s) (device_regions rb re r es)"
proof (induction ds arbitrary: s)
  case (Cons d ds)
  then have "device_regions rb re r (ds @ es) = (\<lambda>t. rbind (device_regions rb re r ds t) (device_regions rb re r es))" by blast
  then show ?case by (simp add: rbind_assoc)
qed simp

lemma device_nodes_flat: "device_nodes rb re r nodes s = device_regions rb re r (device_list nodes) s"
proof (induction nodes arbitrary: s)
  case (Cons n nodes)
  then have "device_nodes rb re r nodes = device_regions rb re r (device_list nodes)" by blast
  then show ?case by (simp add: device_list_def device_regions_append split: option.splits)
qed (simp add: device_list_def)

lemma reserve_cases:
  assumes "mb_inv mb" and "no_wrap b z"
  shows "case reserve_memory mb b z of Inl f \<Rightarrow> boot_fault f
    | Inr mb' \<Rightarrow> mb_inv mb' \<and> covers (mb_available mb') = covers (mb_available mb) - span b z"
proof (cases "reserve_memory mb b z")
  case (Inl f)
  then show ?thesis using reserve_memory_fault [OF assms Inl] by (simp add: boot_fault_def)
next
  case (Inr mb')
  have mi: "ra_inv (mb_available mb)" "ra_inv (mb_reserved mb)" "ra_inv (mb_allocated mb)" using assms(1) by (simp_all add: mb_inv_def)
  obtain a c where ac: "remove_region (mb_available mb) b z = Inr a" "add_region (mb_reserved mb) b z = Inr c"
    "mb' = mb\<lparr>mb_available := a, mb_reserved := c\<rparr>" using Inr by (auto simp: reserve_memory_def)
  have "ra_inv a" "ra_inv c" "covers a = covers (mb_available mb) - span b z"
    using region_store.transfer [OF mi(1,2) assms(2) ac(1,2)] by simp_all
  then show ?thesis using Inr mi(3) by (simp add: ac(3) mb_inv_def)
qed

lemma reserve_step:
  assumes st: "boot_map r dn todo mb m" and nw: "no_wrap b z"
  shows "case reserve_memory mb b z of Inl f \<Rightarrow> boot_fault f
    | Inr mb' \<Rightarrow> boot_map r dn todo mb' m \<and> covers (mb_available mb') = covers (mb_available mb) - span b z"
proof -
  have inv: "boot_inv mb m r" using st by (simp add: boot_map_def)
  have ok: "boot_ok mb" using boot_frames.pt_invD(1) [OF inv] .
  then have "mb_inv mb" by (simp add: boot_ok_def)
  note rc = reserve_cases [OF this nw]
  have "boot_map r dn todo mb' m" if "mb_inv mb'" "covers (mb_available mb') = covers (mb_available mb) - span b z" for mb'
  proof -
    have "boot_ok mb'" using ok that by (auto simp: boot_ok_def)
    then have "boot_inv mb' m r" using inv that(2) unfolding boot_frames.pt_inv_def by auto
    then show ?thesis using st by (simp add: boot_map_def)
  qed
  then show ?thesis using rc by (simp split: sum.splits)
qed

lemma device_region_cases:
  assumes st: "boot_map r dn (device_segs rb re (d # ds) @ todo) mb m" and ok: "segs_ok (dn @ device_segs rb re (d # ds) @ todo)"
    and nw: "no_wrap (PhysAddr (starting_address d)) (dev_size d)"
  shows "case device_region rb re r d (mb, m) of Inl f \<Rightarrow> boot_fault f
    | Inr (mb', m') \<Rightarrow> boot_map r (dn @ device_segs rb re [d]) (device_segs rb re ds @ todo) mb' m'
        \<and> covers (mb_available mb') \<subseteq> covers (mb_available mb) - firmware rb re [d]"
proof -
  consider (empty) "dev_size d = 0" | (ram) "0 < dev_size d" "in_ram rb re d" | (mmio) "0 < dev_size d" "\<not> in_ram rb re d"
    using word_neq_0_conv by blast
  then show ?thesis
  proof cases
    case empty
    then have "firmware rb re [d] = {}" by (simp add: firmware_def)
    then show ?thesis using empty st by (simp add: device_region_def device_segs_def Let_def)
  next
    case ram
    then have fw: "firmware rb re [d] = span (PhysAddr (starting_address d)) (dev_size d)" by (auto simp: firmware_def)
    have "boot_map r dn (device_segs rb re ds @ todo) mb m" using st ram by (simp add: device_segs_def)
    from reserve_step [OF this nw] show ?thesis unfolding fw using ram
      by (cases "reserve_memory mb (PhysAddr (starting_address d)) (dev_size d)") (simp_all add: device_region_def device_segs_def Let_def)
  next
    case mmio
    let ?s = "(starting_address d, starting_address d + dev_size d, Linear, PTE_R OR PTE_W)"
    have ds: "device_segs rb re (d # ds) = ?s # device_segs rb re ds" "device_segs rb re [d] = [?s]" "firmware rb re [d] = {}"
      using mmio by (auto simp: device_segs_def firmware_def)
    have dr: "device_region rb re r d (mb, m) = map_segment (starting_address d) (starting_address d + dev_size d) r Linear
        (Map_flags (PTE_R OR PTE_W)) (mb, m)" using mmio by (auto simp: device_region_def Let_def)
    have bok: "boot_ok mb" using st boot_frames.pt_invD(1) by (auto simp: boot_map_def)
    from map_step [OF st [unfolded ds append_Cons] ok [unfolded ds append_Cons]] show ?thesis
      unfolding dr ds using frames_taken_ok [OF bok] by (auto split: sum.splits)
  qed
qed

lemma device_regions_cases:
  assumes "boot_map r dn (device_segs rb re ds @ todo) mb m" and "segs_ok (dn @ device_segs rb re ds @ todo)"
    and "\<forall>d \<in> set ds. no_wrap (PhysAddr (starting_address d)) (dev_size d)"
  shows "case device_regions rb re r ds (mb, m) of Inl f \<Rightarrow> boot_fault f
    | Inr (mb', m') \<Rightarrow> boot_map r (dn @ device_segs rb re ds) todo mb' m'
        \<and> covers (mb_available mb') \<subseteq> covers (mb_available mb) - firmware rb re ds"
  using assms
proof (induction ds arbitrary: dn mb m)
  case Nil
  then show ?case by (simp add: device_segs_def firmware_def)
next
  case (Cons d ds)
  have sp: "device_segs rb re (d # ds) = device_segs rb re [d] @ device_segs rb re ds" by (simp add: device_segs_def)
  have fw: "firmware rb re (d # ds) = firmware rb re [d] \<union> firmware rb re ds" by (auto simp: firmware_def)
  have "no_wrap (PhysAddr (starting_address d)) (dev_size d)" using Cons.prems(3) by simp
  note step = device_region_cases [OF Cons.prems(1,2) this]
  show ?case
  proof (cases "device_region rb re r d (mb, m)")
    case (Inl f)
    then show ?thesis using step by simp
  next
    case (Inr q)
    obtain mb1 m1 where q: "device_region rb re r d (mb, m) = Inr (mb1, m1)" using Inr by (cases q) simp
    have s1: "boot_map r (dn @ device_segs rb re [d]) (device_segs rb re ds @ todo) mb1 m1"
      "covers (mb_available mb1) \<subseteq> covers (mb_available mb) - firmware rb re [d]" using step unfolding q by simp_all
    have ok: "segs_ok ((dn @ device_segs rb re [d]) @ device_segs rb re ds @ todo)" using Cons.prems(2) unfolding sp by simp
    have "\<forall>d \<in> set ds. no_wrap (PhysAddr (starting_address d)) (dev_size d)" using Cons.prems(3) by simp
    from Cons.IH [OF s1(1) ok this] s1(2) show ?thesis unfolding sp fw device_regions.simps q
      by (auto split: sum.splits)
  qed
qed

section \<open>The boot allocator before the page table\<close>

lemma reserve_all_cases:
  assumes "mb_inv mb" and "\<forall>(a, z) \<in> set rs. no_wrap (PhysAddr a) z"
  shows "case reserve_all rs mb of Inl f \<Rightarrow> boot_fault f
    | Inr mb' \<Rightarrow> mb_inv mb' \<and> covers (mb_available mb') = covers (mb_available mb) - (\<Union>(a, z) \<in> set rs. span (PhysAddr a) z)"
  using assms
proof (induction rs arbitrary: mb)
  case (Cons x rs)
  obtain a z where x: "x = (a, z)" by (cases x)
  have nw: "no_wrap (PhysAddr a) z" "\<forall>(a, z) \<in> set rs. no_wrap (PhysAddr a) z" using Cons.prems(2) x by simp_all
  show ?case
  proof (cases "reserve_memory mb (PhysAddr a) z")
    case (Inl f)
    then show ?thesis using reserve_cases [OF Cons.prems(1) nw(1)] x by simp
  next
    case (Inr mb1)
    then have m1: "mb_inv mb1" "covers (mb_available mb1) = covers (mb_available mb) - span (PhysAddr a) z"
      using reserve_cases [OF Cons.prems(1) nw(1)] by simp_all
    from Cons.IH [OF m1(1) nw(2)] show ?thesis using Inr x m1(2) by (auto split: sum.splits)
  qed
qed simp

text \<open>What is taken out of RAM before the first allocation.\<close>

definition kept_out :: "linker \<Rightarrow> fdt \<Rightarrow> usize \<Rightarrow> nat set" where
  "kept_out lk t dtb_addr = span (PhysAddr (virt_to_phys (sym_skernel lk))) (virt_to_phys (sym_ekernel lk) - virt_to_phys (sym_skernel lk))
     \<union> (\<Union>(a, z) \<in> set (memory_reservations t). span (PhysAddr a) z) \<union> span (PhysAddr dtb_addr) (fdt_total_size t)"

text \<open>The assumptions on the machine: RAM is a page-aligned range above page 0 and below 4 GiB, no region of the device tree and of
  the linker script wraps around, the segments to map do not share a page, and the page descriptors are smaller than the
  address at which RAM starts.\<close>

definition boot_segs :: "linker \<Rightarrow> fdt \<Rightarrow> seg list" where
  "boot_segs lk t = (case find_ram (all_nodes t) of (rb, rz) \<Rightarrow>
     device_segs rb (rb + rz) (device_list (all_nodes t)) @ kernel_segments lk rb (rb + rz))"

definition ram_ok :: "usize \<Rightarrow> usize \<Rightarrow> usize \<Rightarrow> bool" where
  "ram_ok size_of_page rb rz \<longleftrightarrow> 4096 \<le> unat rb \<and> unat rb + unat rz < 2 ^ 32 \<and> 4096 dvd unat rb \<and> 4096 dvd unat rz
     \<and> 0 < unat rz \<and> 0 < unat size_of_page \<and> unat rz div 4096 * unat size_of_page + 4096 \<le> unat rb"

definition machine_ok :: "usize \<Rightarrow> linker \<Rightarrow> fdt \<Rightarrow> usize \<Rightarrow> bool" where
  "machine_ok size_of_page lk t dtb_addr \<longleftrightarrow>
     (case find_ram (all_nodes t) of (rb, rz) \<Rightarrow> ram_ok size_of_page rb rz)
     \<and> no_wrap (PhysAddr (virt_to_phys (sym_skernel lk))) (virt_to_phys (sym_ekernel lk) - virt_to_phys (sym_skernel lk))
     \<and> no_wrap (PhysAddr dtb_addr) (fdt_total_size t)
     \<and> (\<forall>(a, z) \<in> set (memory_reservations t). no_wrap (PhysAddr a) z)
     \<and> (\<forall>d \<in> set (device_list (all_nodes t)). no_wrap (PhysAddr (starting_address d)) (dev_size d))
     \<and> segs_ok (boot_segs lk t)"

text \<open>A step of the boot code either stops because the boot allocator does, or its result satisfies \<open>Q\<close>.\<close>

definition boots :: "'a res \<Rightarrow> ('a \<Rightarrow> bool) \<Rightarrow> bool" where
  "boots c Q \<longleftrightarrow> (case c of Inl f \<Rightarrow> boot_fault f | Inr x \<Rightarrow> Q x)"

lemma boots_bind:
  assumes "boots c P" and "\<And>x. P x \<Longrightarrow> boots (k x) Q"
  shows "boots (rbind c k) Q"
  using assms by (cases c) (simp_all add: boots_def)

lemma boots_Inr [simp]: "boots (Inr x) Q \<longleftrightarrow> Q x"
  by (simp add: boots_def)

lemma boots_mono: "boots c P \<Longrightarrow> (\<And>x. P x \<Longrightarrow> Q x) \<Longrightarrow> boots c Q"
  by (cases c) (simp_all add: boots_def)

lemma boots_reserve:
  "mb_inv mb \<Longrightarrow> no_wrap b z \<Longrightarrow>
   boots (reserve_memory mb b z) (\<lambda>mb'. mb_inv mb' \<and> covers (mb_available mb') = covers (mb_available mb) - span b z)"
  unfolding boots_def by (rule reserve_cases)

lemma setup_memblock_boots:
  assumes "machine_ok sz lk t dtb_addr" and "find_ram (all_nodes t) = (rb, rz)"
  shows "boots (setup_memblock lk t dtb_addr memblock_new)
    (\<lambda>mb. boot_ok mb \<and> covers (mb_available mb) = span (PhysAddr rb) rz - kept_out lk t dtb_addr)"
proof -
  let ?k = "PhysAddr (virt_to_phys (sym_skernel lk))" and ?kz = "virt_to_phys (sym_ekernel lk) - virt_to_phys (sym_skernel lk)"
  have nw: "no_wrap (PhysAddr rb) rz" "no_wrap ?k ?kz" "no_wrap (PhysAddr dtb_addr) (fdt_total_size t)"
    "\<forall>(a, z) \<in> set (memory_reservations t). no_wrap (PhysAddr a) z" and ram: "4096 \<le> unat rb" "unat rb + unat rz \<le> 2 ^ 32"
    using assms by (simp_all add: machine_ok_def ram_ok_def no_wrap_def)
  have span: "span (PhysAddr rb) rz \<subseteq> {4096 ..< 2 ^ 56}" using ram by (auto simp: span_def)
  have new: "boots (init_add_memory memblock_new (PhysAddr rb) rz) (\<lambda>mb. mb_inv mb \<and> covers (mb_available mb) = span (PhysAddr rb) rz)"
    using region_faults(2) [OF ra_inv_new(1) nw(1)] region_store.add_cover [OF ra_inv_new(1) nw(1)] ra_inv_new
    by (auto simp: boots_def init_add_memory_def memblock_new_def rbind_def boot_fault_def mb_inv_def split: sum.splits)
  show ?thesis unfolding setup_memblock_def Let_def assms(2) prod.case
  proof (rule boots_bind [OF new], elim conjE, rule boots_bind [OF boots_reserve [OF _ nw(2)]], assumption, elim conjE)
    fix mb1 mb2
    assume m2: "mb_inv mb2" "covers (mb_available mb2) = covers (mb_available mb1) - span ?k ?kz"
      and m1: "covers (mb_available mb1) = span (PhysAddr rb) rz"
    show "boots (rbind (reserve_all (memory_reservations t) mb2) (\<lambda>mb3. reserve_memory mb3 (PhysAddr dtb_addr) (fdt_total_size t)))
      (\<lambda>mb. boot_ok mb \<and> covers (mb_available mb) = span (PhysAddr rb) rz - kept_out lk t dtb_addr)"
    proof (rule boots_bind [OF reserve_all_cases [OF m2(1) nw(4), folded boots_def]], elim conjE)
      fix mb3
      assume m3: "mb_inv mb3" "covers (mb_available mb3) = covers (mb_available mb2) - (\<Union>(a, z) \<in> set (memory_reservations t). span (PhysAddr a) z)"
      show "boots (reserve_memory mb3 (PhysAddr dtb_addr) (fdt_total_size t))
        (\<lambda>mb. boot_ok mb \<and> covers (mb_available mb) = span (PhysAddr rb) rz - kept_out lk t dtb_addr)"
        using m1 m2(2) m3(2) span by (intro boots_mono [OF boots_reserve [OF m3(1) nw(3)]]) (auto simp: boot_ok_def kept_out_def)
    qed
  qed
qed

lemma large_alloc_cases:
  assumes st: "boot_map r dn todo mb m" and z: "z \<noteq> 0" and lo: "covers (mb_available mb) \<subseteq> {unat z ..}"
  shows "case early_alloc mb z PAGE_SIZE of Inl f \<Rightarrow> boot_fault f | Inr (None, mb') \<Rightarrow> True
    | Inr (Some p, mb') \<Rightarrow> boot_map r dn todo mb' m \<and> span p z \<subseteq> covers (mb_available mb)
        \<and> covers (mb_available mb') = covers (mb_available mb) - span p z"
proof -
  have inv: "boot_inv mb m r" using st by (simp add: boot_map_def)
  have ok: "boot_ok mb" using boot_frames.pt_invD(1) [OF inv] .
  then have mi: "mb_inv mb" by (simp add: boot_ok_def)
  have "unat z \<le> rhi q" if q: "q \<in> set (ra_list (mb_available mb))" for q
  proof -
    have "0 < unat (mr_size q)" using mi q by (simp add: mb_inv_def ra_inv_def regions_wf_def region_wf_def)
    then have "rlo q \<in> covers (mb_available mb)" using q by (auto simp: covers_def bytes_def intro!: bexI [of _ q])
    then show ?thesis using lo by auto
  qed
  then have req: "alloc_request_ok mb z 12" using z by (simp add: alloc_request_ok_def)
  show ?thesis
  proof (cases "early_alloc mb z PAGE_SIZE")
    case (Inl f)
    then show ?thesis using early_alloc_fault [OF mi req, folded PAGE_SIZE_pow, OF Inl] by (simp add: boot_fault_def)
  next
    case (Inr q)
    obtain p mb' where q: "q = (p, mb')" by (cases q)
    show ?thesis
    proof (cases p)
      case (Some a)
      have ret: "early_alloc_loop mb z (2 ^ 12) (ra_count (mb_available mb)) = Inr (Some a, mb')"
        using Inr q Some by (simp add: early_alloc_def PAGE_SIZE_pow)
      from early_alloc_loop_spec [OF mi req order_refl ret]
      have sp: "span a z \<subseteq> covers (mb_available mb)" "no_wrap a z" "mb_reserved mb' = mb_reserved mb"
        "remove_region (mb_available mb) a z = Inr (mb_available mb')" "add_region (mb_allocated mb) a z = Inr (mb_allocated mb')" by simp_all
      have ri: "ra_inv (mb_available mb)" "ra_inv (mb_allocated mb)" "ra_inv (mb_reserved mb)" using mi by (simp_all add: mb_inv_def)
      have tf: "ra_inv (mb_available mb')" "ra_inv (mb_allocated mb')" "covers (mb_available mb') = covers (mb_available mb) - span a z"
        using region_store.transfer [OF ri(1,2) sp(2,4,5)] by simp_all
      then have "boot_ok mb'" using ok ri(3) sp(3) by (auto simp: boot_ok_def mb_inv_def)
      then have "boot_inv mb' m r" using inv tf(3) unfolding boot_frames.pt_inv_def by auto
      then show ?thesis using Inr q Some st sp(1) tf(3) by (simp add: boot_map_def)
    qed (use Inr q in simp)
  qed
qed

section \<open>The whole set-up\<close>

lemma root_boots:
  assumes ok: "boot_ok mb"
  shows "boots (early_alloc mb PAGE_SIZE PAGE_SIZE) (\<lambda>(r, mb'). \<forall>p. r = Some p \<longrightarrow>
    boot_map (pa_val p) [] todo mb' (write_zero_page m (pa_val p)) \<and> covers (mb_available mb') \<subseteq> covers (mb_available mb)
    \<and> ppn_from_pa p = Inr (pa_floor p) \<and> pa_from_ppn (pa_floor p) = p)"
proof (cases "early_alloc mb PAGE_SIZE PAGE_SIZE")
  case (Inl f)
  have "mb_inv mb" using ok by (simp add: boot_ok_def)
  from early_alloc_fault [OF this boot_request_ok [OF ok], folded PAGE_SIZE_pow, OF Inl] Inl
  show ?thesis by (simp add: boots_def boot_fault_def)
next
  case (Inr q)
  have "boot_map (pa_val p) [] todo mb' (write_zero_page m (pa_val p)) \<and> covers (mb_available mb') \<subseteq> covers (mb_available mb)
    \<and> ppn_from_pa p = Inr (pa_floor p) \<and> pa_from_ppn (pa_floor p) = p" if q: "q = (Some p, mb')" for p mb'
  proof -
    have e: "early_alloc mb PAGE_SIZE PAGE_SIZE = Inr (Some p, mb')" using Inr q by simp
    note ea = early_alloc_page [OF ok e]
    obtain a where a: "p = PhysAddr a" by (cases p)
    have "unat a \<in> table_bytes (pa_val p)" using a by simp
    then have "unat a \<in> {4096 ..< 2 ^ 56}" using ea(2) ok unfolding boot_ok_def by blast
    then have lt: "unat a div 4096 < 2 ^ 44" by (simp add: less_mult_imp_div_less)
    have "unat a div 4096 * 4096 = unat a" using ea(1) a by simp
    then have "unat (pa_val (pa_from_ppn (pa_floor p))) = unat a" using lt a by simp
    then have "pa_from_ppn (pa_floor p) = p" using a by (metis phys_addr.exhaust_sel phys_addr.sel word_unat_eq_iff)
    moreover have "ppn_from_pa p = Inr (pa_floor p)" using ea(1) by (simp add: ppn_from_pa_def mod_eq_0_iff_dvd)
    ultimately show ?thesis using fresh_root [OF ok e] ea(3) by blast
  qed
  then show ?thesis using Inr by (auto simp: boots_def)
qed

lemma mem_map_bytes_bounds:
  assumes "ram_ok sz rb rz"
  shows "mem_map_bytes sz (shr (rb + rz) PAGE_SIZE_BITS - shr rb PAGE_SIZE_BITS) \<noteq> 0"
    and "unat (mem_map_bytes sz (shr (rb + rz) PAGE_SIZE_BITS - shr rb PAGE_SIZE_BITS)) \<le> unat rb"
proof -
  have r: "unat rb + unat rz \<le> 2 ^ 32" "4096 dvd unat rb" "4096 dvd unat rz" "0 < unat rz" "0 < unat sz"
    "unat rz div 4096 * unat sz + 4096 \<le> unat rb" using assms by (simp_all add: ram_ok_def)
  have e: "unat (rb + rz) = unat rb + unat rz" using r(1) by (simp add: unat_word_plus)
  have n: "unat (shr (rb + rz) PAGE_SIZE_BITS - shr rb PAGE_SIZE_BITS) = unat rz div 4096" (is "unat ?n = _")
    using r(2) e by (simp add: unat_word_minus unat_shr PAGE_SIZE_BITS_def div_plus_div_distrib_dvd_left)
  have lt: "unat rz div 4096 * unat sz + 4096 < 2 ^ 64" using r(1,6) by simp
  have m: "unat (?n * sz) = unat rz div 4096 * unat sz" using lt n by (simp add: unat_word_ariths)
  have "unat (x + PAGE_SIZE - 1) = unat x + 4095" if "unat x + 4096 < 2 ^ 64" for x :: usize
  proof -
    have eq: "x + PAGE_SIZE - 1 = x + 4095" by (simp add: PAGE_SIZE_def)
    show ?thesis unfolding eq using that by (simp add: unat_word_plus)
  qed
  from this [of "?n * sz"] have "unat (?n * sz + PAGE_SIZE - 1) = unat rz div 4096 * unat sz + 4095" using lt unfolding m .
  then have p: "unat (shr (?n * sz + PAGE_SIZE - 1) PAGE_SIZE_BITS) = (unat rz div 4096 * unat sz + 4095) div 4096" (is "unat ?p = ?k")
    by (simp add: unat_shr PAGE_SIZE_BITS_def)
  have k: "?k * 4096 \<le> unat rz div 4096 * unat sz + 4095" by (rule div_times_less_eq_dividend)
  then have b: "unat (?p * PAGE_SIZE) = ?k * 4096" using lt p by (simp add: unat_word_ariths PAGE_SIZE_def)
  have "0 < unat rz div 4096" using r(3,4) by (auto elim!: dvdE)
  then have "1 \<le> unat rz div 4096 * unat sz" using r(5) by (simp add: Suc_le_eq)
  then have "0 < ?k" by (simp add: div_greater_zero_iff)
  then have "unat (?p * PAGE_SIZE) \<noteq> 0" unfolding b by simp
  then show "mem_map_bytes sz ?n \<noteq> 0" unfolding mem_map_bytes_def Let_def by (metis unat_0)
  show "unat (mem_map_bytes sz ?n) \<le> unat rb" unfolding mem_map_bytes_def Let_def b using k r(6) by linarith
qed

text \<open>What the set-up establishes: the page table is the address space of the segments, the memory still available is RAM
  without the kernel, the device tree, the reservations, the firmware, the page tables and the page descriptors.\<close>

definition booted :: "usize \<Rightarrow> linker \<Rightarrow> fdt \<Rightarrow> usize \<Rightarrow> boot \<Rightarrow> bool" where
  "booted sz lk t dtb_addr b \<longleftrightarrow> (case find_ram (all_nodes t) of (rb, rz) \<Rightarrow>
     let F = kept_out lk t dtb_addr \<union> firmware rb (rb + rz) (device_list (all_nodes t));
         M = span (boot_mem_map_pa b) (mem_map_bytes sz (boot_ram_end b - boot_ram_start b))
     in boot_map (pa_val (pa_from_ppn (boot_root_ppn b))) (boot_segs lk t) [] (boot_mb b) (boot_mem b)
        \<and> covers (mb_available (boot_mb b)) \<subseteq> span (PhysAddr rb) rz - F - M \<and> M \<subseteq> span (PhysAddr rb) rz - F
        \<and> boot_ram_start b = shr rb PAGE_SIZE_BITS \<and> boot_ram_end b = shr (rb + rz) PAGE_SIZE_BITS)"

lemma boots_bind_unwrap: "(\<And>p. r = Some p \<Longrightarrow> boots (k p) Q) \<Longrightarrow> boots (rbind (unwrap r) k) Q"
  by (cases r) (simp_all add: boots_def boot_fault_def)

lemma large_alloc_boots:
  assumes "boot_map r dn todo mb m" and "z \<noteq> 0" and "covers (mb_available mb) \<subseteq> {unat z ..}"
  shows "boots (early_alloc mb z PAGE_SIZE) (\<lambda>(q, mb'). \<forall>p. q = Some p \<longrightarrow>
    boot_map r dn todo mb' m \<and> span p z \<subseteq> covers (mb_available mb) \<and> covers (mb_available mb') = covers (mb_available mb) - span p z)"
  using large_alloc_cases [OF assms] by (auto simp: boots_def split: sum.splits option.splits)

lemma map_segments_boots:
  assumes "boot_map r dn segs mb m" and "segs_ok (dn @ segs)"
  shows "boots (map_segments r segs (mb, m)) (\<lambda>(mb', m'). boot_map r (dn @ segs) [] mb' m' \<and> covers (mb_available mb') \<subseteq> covers (mb_available mb))"
proof -
  have "boot_ok mb" using assms(1) boot_frames.pt_invD(1) by (auto simp: boot_map_def)
  then show ?thesis using map_segments_cases [of r dn segs "[]" mb m] assms frames_taken_ok
    by (auto simp: boots_def split: sum.splits)
qed

lemma map_memory_boots:
  assumes ok: "machine_ok sz lk t dtb_addr" and ram: "find_ram (all_nodes t) = (rb, rz)"
    and st: "boot_map r [] (boot_segs lk t) mb m"
  shows "boots (map_memory lk t r (mb, m)) (\<lambda>(mb', m'). boot_map r (boot_segs lk t) [] mb' m'
    \<and> covers (mb_available mb') \<subseteq> covers (mb_available mb) - firmware rb (rb + rz) (device_list (all_nodes t)))"
proof -
  let ?re = "rb + rz" and ?ds = "device_list (all_nodes t)"
  let ?dsegs = "device_segs rb ?re ?ds" and ?ksegs = "kernel_segments lk rb ?re"
  have nw: "\<forall>d \<in> set ?ds. no_wrap (PhysAddr (starting_address d)) (dev_size d)"
    and sok: "segs_ok (?dsegs @ ?ksegs)" and segs: "boot_segs lk t = ?dsegs @ ?ksegs"
    using ok ram by (simp_all add: machine_ok_def boot_segs_def)
  have dev: "boots (device_nodes rb ?re r (all_nodes t) (mb, m)) (\<lambda>(mb', m'). boot_map r ?dsegs ?ksegs mb' m'
      \<and> covers (mb_available mb') \<subseteq> covers (mb_available mb) - firmware rb ?re ?ds)"
    using device_regions_cases [of r "[]" rb ?re ?ds ?ksegs mb m, unfolded append_Nil] st sok nw
    unfolding device_nodes_flat boots_def segs by simp
  show ?thesis unfolding map_memory_def ram Let_def prod.case segs
  proof (rule boots_bind [OF dev], clarify)
    fix mb1 m1
    assume s: "boot_map r ?dsegs ?ksegs mb1 m1" "covers (mb_available mb1) \<subseteq> covers (mb_available mb) - firmware rb ?re ?ds"
    show "boots (map_segments r ?ksegs (mb1, m1)) (\<lambda>(mb', m'). boot_map r (?dsegs @ ?ksegs) [] mb' m'
        \<and> covers (mb_available mb') \<subseteq> covers (mb_available mb) - firmware rb ?re ?ds)"
      using s(2) by (intro boots_mono [OF map_segments_boots [OF s(1) sok]]) auto
  qed
qed

lemma publish_boots:
  assumes ok: "machine_ok sz lk t dtb_addr" and ram: "find_ram (all_nodes t) = (rb, rz)"
    and st: "boot_map (pa_val root) (boot_segs lk t) [] mb m"
    and c: "covers (mb_available mb) \<subseteq> span (PhysAddr rb) rz - (kept_out lk t dtb_addr \<union> firmware rb (rb + rz) (device_list (all_nodes t)))"
    and rt: "ppn_from_pa root = Inr (pa_floor root)" "pa_from_ppn (pa_floor root) = root"
  shows "boots (publish_boot sz t root (mb, m)) (booted sz lk t dtb_addr)"
proof -
  let ?z = "mem_map_bytes sz (shr (rb + rz) PAGE_SIZE_BITS - shr rb PAGE_SIZE_BITS)"
  have rok: "ram_ok sz rb rz" using ok ram by (simp add: machine_ok_def)
  note mm = mem_map_bytes_bounds [OF rok]
  have "covers (mb_available mb) \<subseteq> {unat ?z ..}" using c mm(2) by (fastforce simp: span_def)
  note la = large_alloc_boots [OF st mm(1) this]
  show ?thesis unfolding publish_boot_def prod.case rt(1) rbind_simps ram Let_def
  proof (rule boots_bind [OF la], clarify)
    fix q mb'
    assume q: "\<forall>p. q = Some p \<longrightarrow> boot_map (pa_val root) (boot_segs lk t) [] mb' m
      \<and> span p ?z \<subseteq> covers (mb_available mb) \<and> covers (mb_available mb') = covers (mb_available mb) - span p ?z"
    show "boots (rbind (unwrap q) (\<lambda>mem_map_pa. Inr \<lparr>boot_mb = mb', boot_mem = m, boot_root_ppn = pa_floor root,
        boot_ram_start = shr rb PAGE_SIZE_BITS, boot_ram_end = shr (rb + rz) PAGE_SIZE_BITS, boot_mem_map_pa = mem_map_pa\<rparr>))
      (booted sz lk t dtb_addr)"
      using q c rt(2) by (cases q) (auto simp: boots_def boot_fault_def booted_def ram Let_def)
  qed
qed

lemma setup_boots:
  assumes fdt: "fdt_from_ptr dtb_addr = Some t" and ok: "machine_ok sz lk t dtb_addr" and new: "boot_mb b = memblock_new"
  shows "boots (setup_memory_and_mapping fdt_from_ptr sz lk dtb_addr b) (booted sz lk t dtb_addr)"
proof -
  obtain rb rz where ram: "find_ram (all_nodes t) = (rb, rz)" by (cases "find_ram (all_nodes t)")
  let ?zero = "\<lambda>p. write_zero_page (boot_mem b) (pa_val p)"
  show ?thesis unfolding setup_memory_and_mapping_def fdt new unwrap_simps rbind_simps Let_def
  proof (rule boots_bind [OF setup_memblock_boots [OF ok ram]], elim conjE)
    fix mb
    assume mb: "boot_ok mb" "covers (mb_available mb) = span (PhysAddr rb) rz - kept_out lk t dtb_addr"
    show "boots (rbind (early_alloc mb PAGE_SIZE PAGE_SIZE) (\<lambda>(r, mb). rbind (unwrap r) (\<lambda>p.
        rbind (map_memory lk t (pa_val p) (mb, ?zero p)) (publish_boot sz t p)))) (booted sz lk t dtb_addr)"
    proof (rule boots_bind [OF root_boots [OF mb(1), of "boot_segs lk t" "boot_mem b"]], clarify, rule boots_bind_unwrap)
      fix r mb1 p
      assume "\<forall>p. r = Some p \<longrightarrow> boot_map (pa_val p) [] (boot_segs lk t) mb1 (?zero p)
        \<and> covers (mb_available mb1) \<subseteq> covers (mb_available mb) \<and> ppn_from_pa p = Inr (pa_floor p) \<and> pa_from_ppn (pa_floor p) = p"
        and "r = Some p"
      then have p: "boot_map (pa_val p) [] (boot_segs lk t) mb1 (?zero p)" "covers (mb_available mb1) \<subseteq> covers (mb_available mb)"
        "ppn_from_pa p = Inr (pa_floor p)" "pa_from_ppn (pa_floor p) = p" by simp_all
      show "boots (rbind (map_memory lk t (pa_val p) (mb1, ?zero p)) (publish_boot sz t p)) (booted sz lk t dtb_addr)"
      proof (rule boots_bind [OF map_memory_boots [OF ok ram p(1)]], clarify)
        fix mb2 m2
        assume s: "boot_map (pa_val p) (boot_segs lk t) [] mb2 m2"
          "covers (mb_available mb2) \<subseteq> covers (mb_available mb1) - firmware rb (rb + rz) (device_list (all_nodes t))"
        show "boots (publish_boot sz t p (mb2, m2)) (booted sz lk t dtb_addr)"
          using s(2) p(2) mb(2) by (intro publish_boots [OF ok ram s(1) _ p(3,4)]) blast
      qed
    qed
  qed
qed

section \<open>Removing the identity mapping\<close>

abbreviation strip :: "seg \<Rightarrow> usize \<times> usize \<times> boot_map_type" where
  "strip \<equiv> \<lambda>(start, stop, mt, flags). (start, stop, mt)"

lemma unmap_segments_ok:
  assumes "boot_inv mb m r" and "segs_ok us"
    and "\<forall>s \<in> set us. \<forall>x \<in> set (seg_pages s). pte_at m r (page_key (seg_type s) x) \<noteq> None"
  shows "\<exists>m'. unmap_segments (phys_to_virt r) (map strip us) (mb, m) = Inr (mb, m') \<and> boot_inv mb m' r
    \<and> (\<forall>w. translate m' r w = (if \<exists>s \<in> set us. unat w \<in> seg_range s then None else translate m r w))"
  using assms
proof (induction us arbitrary: m)
  case (Cons s us)
  obtain start stop mt flags where s: "s = (start, stop, mt, flags)" by (cases s)
  have ok: "seg_ok s" "segs_ok us" "\<forall>t \<in> set us. seg_range s \<inter> seg_range t = {}" using Cons.prems(2) by (simp_all add: segs_ok_Cons)
  have so: "unat start \<le> unat stop" "unat stop \<le> 2 ^ 32" using ok(1) s by simp_all
  have valid: "\<forall>x \<in> set (segment start stop). pte_at m r (page_key mt x) \<noteq> None" using Cons.prems(3) s by simp
  obtain m1 where m1: "map_segment start stop (phys_to_virt r) mt Unmap (mb, m) = Inr (mb, m1)" "boot_inv mb m1 r"
    and tr: "\<forall>w. translate m1 r w = (if unat w \<in> seg_range s then None else translate m r w)"
    and keep: "\<forall>Q. entry_path Q \<longrightarrow> (\<forall>x \<in> set (segment start stop). \<not> prefix (page_key mt x) Q) \<longrightarrow> pte_at m1 r Q = pte_at m r Q"
    using unmap_segment_ok [OF Cons.prems(1) so valid] unfolding s seg_range.simps segment_range_def by blast
  have "pte_at m1 r (page_key (seg_type t) y) \<noteq> None" if t: "t \<in> set us" "y \<in> set (seg_pages t)" for t y
  proof -
    have tok: "seg_ok t" using ok(2) t(1) by (simp add: segs_ok_def)
    have "\<not> prefix (page_key mt x) (page_key (seg_type t) y)" if "x \<in> set (segment start stop)" for x
      using keys_apart [OF ok(1) tok _ _ t(2), of x] ok(3) t(1) that s by simp
    then have "pte_at m1 r (page_key (seg_type t) y) = pte_at m r (page_key (seg_type t) y)" using keep page_key_entry by blast
    then show ?thesis using Cons.prems(3) t by simp
  qed
  then obtain m2 where m2: "unmap_segments (phys_to_virt r) (map strip us) (mb, m1) = Inr (mb, m2)" "boot_inv mb m2 r"
    "\<forall>w. translate m2 r w = (if \<exists>s \<in> set us. unat w \<in> seg_range s then None else translate m1 r w)"
    using Cons.IH [OF m1(2) ok(2)] by blast
  then show ?case using m1(1) tr by (intro exI [of _ m2]) (auto simp: s)
qed simp

lemma segs_ok_filter: "segs_ok segs \<Longrightarrow> segs_ok (filter P segs)"
  by (auto simp: segs_ok_def intro: sorted_wrt_filter)

lemma segs_ok_disjoint:
  assumes "segs_ok segs" and "s \<in> set segs" and "t \<in> set segs" and "s \<noteq> t"
  shows "seg_range s \<inter> seg_range t = {}"
proof -
  obtain i j where ij: "i < length segs" "j < length segs" "s = segs ! i" "t = segs ! j" using assms(2,3) by (auto simp: in_set_conv_nth)
  then have "i < j \<or> j < i" using assms(4) by (metis linorder_neqE_nat)
  then show ?thesis using assms(1) ij unfolding segs_ok_def sorted_wrt_iff_nth_less by blast
qed

definition linear_segs :: "seg list \<Rightarrow> seg list" where
  "linear_segs segs = filter (\<lambda>s. seg_type s = Linear) segs"

lemma identity_segments_eq: "identity_segments lk = map strip (filter (\<lambda>s. seg_type s = Identical) (boot_segs lk t))"
  by (auto simp: identity_segments_def boot_segs_def kernel_segments_def device_segs_def Let_def filter_map comp_def split: prod.splits)

lemma unmap_boot:
  assumes st: "boot_map r segs [] mb m" and ok: "segs_ok segs"
  shows "\<exists>m'. unmap_segments (phys_to_virt r) (map strip (filter (\<lambda>s. seg_type s = Identical) segs)) (mb, m) = Inr (mb, m')
    \<and> boot_inv mb m' r \<and> address_space m' r (linear_segs segs)"
proof -
  let ?us = "filter (\<lambda>s. seg_type s = Identical) segs"
  have inv: "boot_inv mb m r" and sp: "address_space m r segs"
    and lv: "\<forall>s \<in> set segs. \<forall>x \<in> set (seg_pages s). leaf_at m r (page_key (seg_type s) x) \<noteq> None"
    using st unfolding boot_map_def by blast+
  have "\<forall>s \<in> set ?us. \<forall>x \<in> set (seg_pages s). pte_at m r (page_key (seg_type s) x) \<noteq> None"
    using lv leaf_at_pte unfolding set_filter by blast
  from unmap_segments_ok [OF inv segs_ok_filter [OF ok] this] obtain m' where m':
    "unmap_segments (phys_to_virt r) (map strip ?us) (mb, m) = Inr (mb, m')" "boot_inv mb m' r"
    "\<forall>w. translate m' r w = (if \<exists>s \<in> set ?us. unat w \<in> seg_range s then None else translate m r w)" by blast
  have "translate m' r w = Some (unat w - va_offset (seg_type s), seg_flags s OR PTE_V)"
    if s: "s \<in> set (linear_segs segs)" "unat w \<in> seg_range s" for s w
  proof -
    have mem: "s \<in> set segs" "seg_type s = Linear" using s(1) by (simp_all add: linear_segs_def)
    have "unat w \<notin> seg_range u" if "u \<in> set ?us" for u
    proof -
      have "u \<in> set segs" "s \<noteq> u" using that mem(2) by auto
      then show ?thesis using segs_ok_disjoint [OF ok mem(1)] s(2) by blast
    qed
    then have none: "\<not> (\<exists>u \<in> set ?us. unat w \<in> seg_range u)" by blast
    have "translate m' r w = translate m r w" unfolding m'(3) [rule_format] if_not_P [OF none] ..
    then show ?thesis using sp mem(1) s(2) by (simp add: address_space_def)
  qed
  moreover have "translate m' r w = None" if lin: "\<forall>s \<in> set (linear_segs segs). unat w \<notin> seg_range s" for w
  proof (cases "\<exists>s \<in> set ?us. unat w \<in> seg_range s")
    case False
    have "unat w \<notin> seg_range s" if "s \<in> set segs" for s
    proof (cases "seg_type s")
      case Identical
      then have "s \<in> set ?us" using \<open>s \<in> set segs\<close> by simp
      then show ?thesis using False by blast
    next
      case Linear
      then have "s \<in> set (linear_segs segs)" using \<open>s \<in> set segs\<close> by (simp add: linear_segs_def)
      then show ?thesis using lin by blast
    qed
    then have "translate m r w = None" using sp unfolding address_space_def by blast
    then show ?thesis unfolding m'(3) [rule_format] if_not_P [OF False] .
  next
    case True
    show ?thesis unfolding m'(3) [rule_format] if_P [OF True] ..
  qed
  ultimately have "address_space m' r (linear_segs segs)" unfolding address_space_def by blast
  with m'(1,2) show ?thesis by blast
qed

section \<open>The state the kernel starts from\<close>

text \<open>Writes to the pages of \<open>C\<close> do not reach a page table that lies outside \<open>C\<close>.\<close>

definition tables_apart :: "nat set \<Rightarrow> memory \<Rightarrow> usize \<Rightarrow> bool" where
  "tables_apart C m r \<longleftrightarrow> (\<forall>p a. path_ok p \<longrightarrow> table_at m r p = Some a \<longrightarrow> page_aligned a \<and> table_bytes a \<inter> C = {})"

lemma boot_tables_apart: "boot_inv mb m r \<Longrightarrow> tables_apart (covers (mb_available mb)) m r"
  using boot_frames.pt_invD(4) unfolding tables_apart_def by blast

lemma table_slot_untouched:
  assumes inv: "tables_apart C m r" and ut: "untouched (whole_pages C) m m'"
    and p: "path_ok p" "table_at m r p = Some a" and j: "j < 512"
  shows "m' (slot a j) = m (slot a j)"
proof -
  have al: "page_aligned a" and dis: "table_bytes a \<inter> C = {}" using inv p by (auto simp: tables_apart_def)
  have "unat (slot a j) div 4096 = unat a div 4096"
    using unat_slot [OF al j] al j by (auto elim!: dvdE)
  moreover have "unat a div 4096 \<notin> whole_pages C"
  proof
    assume "unat a div 4096 \<in> whole_pages C"
    then have "{unat a ..< unat a + 4096} \<subseteq> C" using al by (simp add: whole_pages_def)
    moreover have "unat a \<in> {unat a ..< unat a + 4096}" by simp
    ultimately show False using dis by blast
  qed
  ultimately show ?thesis using ut by (simp add: untouched_def)
qed

lemma table_at_untouched:
  assumes inv: "tables_apart C m r" and ut: "untouched (whole_pages C) m m'"
  shows "path_ok p \<Longrightarrow> table_at m' r p = table_at m r p"
proof (induction p rule: rev_induct)
  case (snoc i p)
  have p: "path_ok p" "i < 512" using snoc.prems by (auto simp: path_ok_def)
  show ?case
  proof (cases "table_at m r p")
    case (Some u)
    then show ?thesis using snoc.IH [OF p(1)] table_slot_untouched [OF inv ut p(1) Some p(2)]
      by (simp add: table_at_snoc step_table_def)
  qed (use snoc.IH [OF p(1)] in \<open>simp add: table_at_snoc\<close>)
qed simp

lemma tables_apart_untouched:
  assumes "tables_apart C m r" and "untouched (whole_pages C) m m'"
  shows "tables_apart C m' r"
  using assms(1) table_at_untouched [OF assms] unfolding tables_apart_def by metis

lemma translate_untouched:
  assumes inv: "tables_apart C m r" and ut: "untouched (whole_pages C) m m'"
  shows "translate m' r w = translate m r w"
proof -
  note slot = table_slot_untouched [OF inv ut] and t = table_at_untouched [OF inv ut]
  have "leaf_at m' r Q = leaf_at m r Q" if Q: "entry_path Q" for Q
  proof -
    have q: "path_ok (butlast Q)" "last Q < 512" using Q by (auto simp: entry_path_def path_ok_def dest: in_set_butlastD)
    have "pte_at m' r Q = pte_at m r Q"
      using t [OF q(1)] slot [OF q(1) _ q(2)] by (cases "table_at m r (butlast Q)") (simp_all add: pte_at_def)
    then show ?thesis by (simp add: leaf_at_def)
  qed
  then have "leaf_at m' r (take (Suc k) (va_path w)) = leaf_at m r (take (Suc k) (va_path w))" if "k < length (va_path w)" for k
    using that take_vpn_path_ok(2) [of "Suc k"] by (simp add: va_path_def)
  then have "sv39_walk m' r (va_path w) = sv39_walk m r (va_path w)" by (rule sv39_walk_cong)
  then show ?thesis by (simp only: translate_def)
qed

definition started :: "usize \<Rightarrow> linker \<Rightarrow> fdt \<Rightarrow> usize \<Rightarrow> satp \<times> boot \<times> heap \<Rightarrow> bool" where
  "started sz lk t dtb_addr x \<longleftrightarrow> (case x of (satp, b, h) \<Rightarrow> case find_ram (all_nodes t) of (rb, rz) \<Rightarrow>
     satp = \<lparr>satp_mode = 8, satp_asid = 0, satp_ppn = ppn_val (boot_root_ppn b)\<rparr>
     \<and> address_space (heap_mem h) (pa_val (pa_from_ppn (boot_root_ppn b))) (linear_segs (boot_segs lk t))
     \<and> heap_start (whole_pages (covers (mb_available (boot_mb b)))) h
     \<and> covers (mb_available (boot_mb b)) \<subseteq> span (PhysAddr rb) rz - (kept_out lk t dtb_addr
          \<union> firmware rb (rb + rz) (device_list (all_nodes t))
          \<union> span (boot_mem_map_pa b) (mem_map_bytes sz (boot_ram_end b - boot_ram_start b)))
     \<and> tables_apart (covers (mb_available (boot_mb b))) (heap_mem h) (pa_val (pa_from_ppn (boot_root_ppn b))))"

lemma unmap_booted:
  assumes "booted sz lk t dtb_addr b" and "machine_ok sz lk t dtb_addr"
  shows "\<exists>m. unmap_temp_identity_area lk b = Inr (b\<lparr>boot_mem := m\<rparr>)
    \<and> boot_inv (boot_mb b) m (pa_val (pa_from_ppn (boot_root_ppn b)))
    \<and> address_space m (pa_val (pa_from_ppn (boot_root_ppn b))) (linear_segs (boot_segs lk t))"
proof -
  let ?r = "pa_val (pa_from_ppn (boot_root_ppn b))"
  have st: "boot_map ?r (boot_segs lk t) [] (boot_mb b) (boot_mem b)"
    using assms(1) by (simp add: booted_def Let_def split: prod.splits)
  have ok: "segs_ok (boot_segs lk t)" using assms(2) by (simp add: machine_ok_def)
  obtain m where m: "unmap_segments (phys_to_virt ?r) (identity_segments lk) (boot_mb b, boot_mem b) = Inr (boot_mb b, m)"
    "boot_inv (boot_mb b) m ?r" "address_space m ?r (linear_segs (boot_segs lk t))"
    using unmap_boot [OF st ok] unfolding identity_segments_eq [of lk t] by blast
  have "unmap_temp_identity_area lk b = Inr (b\<lparr>boot_mem := m\<rparr>)"
    using m(1) by (simp add: unmap_temp_identity_area_def Let_def)
  then show ?thesis using m(2,3) by blast
qed

lemma start_after_setup:
  assumes bt: "booted sz lk t dtb_addr b" and ok: "machine_ok sz lk t dtb_addr"
    and h: "caches h = SLUB_ALLOCATOR" "heap_buddy h = buddy_new"
    and um: "unmap_temp_identity_area lk b = Inr (b\<lparr>boot_mem := m\<rparr>)"
    and inv: "boot_inv (boot_mb b) m (pa_val (pa_from_ppn (boot_root_ppn b)))"
    and sp: "address_space m (pa_val (pa_from_ppn (boot_root_ppn b))) (linear_segs (boot_segs lk t))"
  shows "\<exists>h'. init_buddy_system (boot_mb b) (boot_ram_end b) (h\<lparr>ram_start_ppn := boot_ram_start b, heap_mem := m\<rparr>) = Inr h'
    \<and> started sz lk t dtb_addr (switch_to_final_page_table b, b\<lparr>boot_mem := m\<rparr>, h')"
proof -
  obtain rb rz where ram: "find_ram (all_nodes t) = (rb, rz)" by (cases "find_ram (all_nodes t)")
  let ?h = "h\<lparr>ram_start_ppn := boot_ram_start b, heap_mem := m\<rparr>" and ?C = "covers (mb_available (boot_mb b))"
  let ?r = "pa_val (pa_from_ppn (boot_root_ppn b))"
  have r: "4096 \<le> unat rb" "unat rb + unat rz < 2 ^ 32" "4096 dvd unat rb" "4096 dvd unat rz"
    using ok ram by (simp_all add: machine_ok_def ram_ok_def)
  have b: "boot_ram_start b = shr rb PAGE_SIZE_BITS" "boot_ram_end b = shr (rb + rz) PAGE_SIZE_BITS"
    and cov: "?C \<subseteq> span (PhysAddr rb) rz - (kept_out lk t dtb_addr \<union> firmware rb (rb + rz) (device_list (all_nodes t))
          \<union> span (boot_mem_map_pa b) (mem_map_bytes sz (boot_ram_end b - boot_ram_start b)))"
    using bt ram by (auto simp: booted_def Let_def)
  have s: "unat (boot_ram_start b) = unat rb div 4096" by (simp add: b unat_shr PAGE_SIZE_BITS_def)
  have "unat (rb + rz) = unat rb + unat rz" using r(2) by (simp add: unat_word_plus)
  then have e: "unat (boot_ram_end b) = (unat rb + unat rz) div 4096" by (simp add: b unat_shr PAGE_SIZE_BITS_def)
  have s4: "unat (boot_ram_start b) * 4096 = unat rb" using s r(3) by simp
  have e4: "unat (boot_ram_end b) * 4096 = unat rb + unat rz" unfolding e using r(3,4) by (intro dvd_div_mult_self) simp
  have pos: "0 < unat (boot_ram_start b)" using s r(1) by (simp add: div_greater_zero_iff)
  have le: "unat (boot_ram_start b) \<le> unat (boot_ram_end b)" unfolding s e by (intro div_le_mono) simp
  have lt: "unat (boot_ram_end b) < 2 ^ 20" using r(2) e by (simp add: less_mult_imp_div_less)
  have ri: "?C \<subseteq> {unat (boot_ram_start b) * 4096 ..< unat (boot_ram_end b) * 4096}"
    unfolding s4 e4 using cov by (auto simp: span_def)
  have mi: "mb_inv (boot_mb b)" using boot_frames.pt_invD(1) [OF inv] by (simp add: boot_ok_def)
  obtain h' where h': "init_buddy_system (boot_mb b) (boot_ram_end b) ?h = Inr h'"
    "mem_map h' = descriptors (unat (boot_ram_start b)) (unat (boot_ram_end b) - unat (boot_ram_start b)) (whole_pages ?C)"
    "has_free (heap_frames h') (whole_pages ?C)" and ut: "untouched (whole_pages ?C) m (heap_mem h')"
    and hs: "ram_start_ppn h' = boot_ram_start b" "caches h' = caches h"
    using init_buddy_system_ok [of "boot_mb b" ?h "boot_ram_end b"] mi h(2) pos le lt ri by auto
  have "heap_start (whole_pages ?C) h'"
    using h' hs h(1) le lt whole_pages_bound [OF ri] descriptors_no_slab [OF h'(2)] by (auto simp: heap_start_def)
  moreover have "address_space (heap_mem h') ?r (linear_segs (boot_segs lk t))"
    using sp translate_untouched [OF boot_tables_apart [OF inv] ut] by (simp add: address_space_def)
  moreover have "tables_apart ?C (heap_mem h') ?r" by (rule tables_apart_untouched [OF boot_tables_apart [OF inv] ut])
  ultimately have "started sz lk t dtb_addr (switch_to_final_page_table b, b\<lparr>boot_mem := m\<rparr>, h')"
    using cov unfolding started_def prod.case ram by (simp add: switch_to_final_page_table_def Sv39_def)
  then show ?thesis using h'(1) by blast
qed

lemma start_memory_boots:
  assumes fdt: "fdt_from_ptr dtb_addr = Some t" and ok: "machine_ok sz lk t dtb_addr" and new: "boot_mb b = memblock_new"
    and h: "caches h = SLUB_ALLOCATOR" "heap_buddy h = buddy_new"
  shows "boots (start_memory fdt_from_ptr sz lk dtb_addr b h) (started sz lk t dtb_addr)"
  unfolding start_memory_def Let_def
proof (rule boots_bind [OF setup_boots [of fdt_from_ptr dtb_addr t sz lk b, OF fdt ok new]])
  fix b1
  assume bt: "booted sz lk t dtb_addr b1"
  obtain m where m: "unmap_temp_identity_area lk b1 = Inr (b1\<lparr>boot_mem := m\<rparr>)"
    "boot_inv (boot_mb b1) m (pa_val (pa_from_ppn (boot_root_ppn b1)))"
    "address_space m (pa_val (pa_from_ppn (boot_root_ppn b1))) (linear_segs (boot_segs lk t))"
    using unmap_booted [OF bt ok] by blast
  from start_after_setup [OF bt ok h m] m(1)
  show "boots (rbind (unmap_temp_identity_area lk b1) (\<lambda>b2.
      rbind (init_buddy_system (boot_mb b2) (boot_ram_end b2) (h\<lparr>ram_start_ppn := boot_ram_start b2, heap_mem := boot_mem b2\<rparr>))
        (\<lambda>h'. Inr (switch_to_final_page_table b1, b2, h')))) (started sz lk t dtb_addr)"
    by (auto simp: boots_def)
qed

section \<open>When the set-up succeeds\<close>

text \<open>A block of \<open>z\<close> bytes is left, or one and after it a region of 64 KiB, which holds the stacks of the first tasks. The boot
  allocator can deliver \<open>n\<close> frames, and \<open>P\<close> holds after any number of them up to \<open>n\<close>.\<close>

definition block_left :: "usize \<Rightarrow> memblock \<Rightarrow> bool" where
  "block_left z mb \<longleftrightarrow> (case early_alloc mb z PAGE_SIZE of Inr (Some _, _) \<Rightarrow> True | _ \<Rightarrow> False)"

definition wide_region :: "memblock \<Rightarrow> bool" where
  "wide_region mb \<longleftrightarrow> list_ex (\<lambda>r. 0x10000 \<le> mr_size r) (take (ra_count (mb_available mb)) (ra_regions (mb_available mb)))"

definition stacks_left :: "usize \<Rightarrow> memblock \<Rightarrow> bool" where
  "stacks_left z mb \<longleftrightarrow> (case early_alloc mb z PAGE_SIZE of Inr (Some _, mb') \<Rightarrow> wide_region mb' | _ \<Rightarrow> False)"

fun room :: "(memblock \<Rightarrow> bool) \<Rightarrow> memblock \<Rightarrow> nat \<Rightarrow> bool" where
  "room P mb 0 \<longleftrightarrow> P mb"
| "room P mb (Suc n) \<longleftrightarrow> P mb \<and> (case early_alloc mb PAGE_SIZE PAGE_SIZE of Inr (Some _, mb') \<Rightarrow> room P mb' n | _ \<Rightarrow> False)"

lemma stacks_block_left: "stacks_left z mb \<Longrightarrow> block_left z mb"
  by (auto simp: stacks_left_def block_left_def split: sum.splits option.splits)

lemma room_mono: "room P mb n \<Longrightarrow> (\<And>mb. P mb \<Longrightarrow> Q mb) \<Longrightarrow> room Q mb n"
  by (induction P mb n rule: room.induct) (auto split: sum.splits option.splits)

lemma room_frames: "room P mb n \<Longrightarrow> frames_left mb n"
  by (induction P mb n rule: room.induct) (auto split: sum.splits option.splits)

lemma room_take: "room P mb n \<Longrightarrow> j \<le> n \<Longrightarrow> take_frames mb j = Some mb' \<Longrightarrow> P mb'"
proof (induction P mb n arbitrary: j rule: room.induct)
  case (2 P mb n)
  then show ?case by (cases j) (auto split: sum.splits option.splits)
qed simp

lemma room_taken: "room P mb n \<Longrightarrow> frames_taken n mb mb' \<Longrightarrow> P mb'"
  unfolding frames_taken_def using room_take by blast

definition boot_room :: "(usize \<Rightarrow> memblock \<Rightarrow> bool) \<Rightarrow> usize \<Rightarrow> linker \<Rightarrow> fdt \<Rightarrow> usize \<Rightarrow> bool" where
  "boot_room P sz lk t dtb_addr \<longleftrightarrow> (case find_ram (all_nodes t) of (rb, rz) \<Rightarrow>
     (\<forall>d \<in> set (device_list (all_nodes t)). dev_size d = 0 \<or> \<not> in_ram rb (rb + rz) d)
     \<and> (case setup_memblock lk t dtb_addr memblock_new of Inl _ \<Rightarrow> False
        | Inr mb \<Rightarrow> room (P (mem_map_bytes sz (shr (rb + rz) PAGE_SIZE_BITS - shr rb PAGE_SIZE_BITS))) mb (Suc (seg_frames (boot_segs lk t)))))"

lemma boot_room_mono: "boot_room P sz lk t a \<Longrightarrow> (\<And>z mb. P z mb \<Longrightarrow> Q z mb) \<Longrightarrow> boot_room Q sz lk t a"
  unfolding boot_room_def by (auto simp del: room.simps split: prod.splits sum.splits intro: room_mono)

lemma map_segments_append: "map_segments r (xs @ ys) s = rbind (map_segments r xs s) (map_segments r ys)"
proof (induction xs arbitrary: s)
  case (Cons x xs)
  then have "map_segments r (xs @ ys) = (\<lambda>s. rbind (map_segments r xs s) (map_segments r ys))" by blast
  then show ?case by (cases x) (simp add: rbind_assoc)
qed simp

lemma device_regions_map:
  "\<forall>d \<in> set ds. dev_size d = 0 \<or> \<not> in_ram rb re d \<Longrightarrow> device_regions rb re r ds s = map_segments r (device_segs rb re ds) s"
proof (induction ds arbitrary: s)
  case (Cons d ds)
  have ih: "device_regions rb re r ds = map_segments r (device_segs rb re ds)" using Cons by auto
  have d: "dev_size d = 0 \<or> 0 < dev_size d \<and> \<not> in_ram rb re d" using Cons.prems word_neq_0_conv by auto
  then show ?case by (auto simp: ih device_region_def device_segs_def Let_def)
qed (simp add: device_segs_def)

lemma map_memory_map:
  assumes "find_ram (all_nodes t) = (rb, rz)"
    and "\<forall>d \<in> set (device_list (all_nodes t)). dev_size d = 0 \<or> \<not> in_ram rb (rb + rz) d"
  shows "map_memory lk t r s = map_segments r (boot_segs lk t) s"
  using assms by (simp add: map_memory_def boot_segs_def device_nodes_flat device_regions_map map_segments_append Let_def)

lemma setup_succeeds:
  assumes fdt: "fdt_from_ptr dtb_addr = Some t" and ok: "machine_ok sz lk t dtb_addr" and new: "boot_mb b = memblock_new"
    and room: "boot_room P sz lk t dtb_addr" and P: "\<And>z mb. P z mb \<Longrightarrow> block_left z mb"
  shows "\<exists>b' mb z q. setup_memory_and_mapping fdt_from_ptr sz lk dtb_addr b = Inr b' \<and> P z mb
    \<and> early_alloc mb z PAGE_SIZE = Inr (Some q, boot_mb b')"
proof -
  obtain rb rz where ram: "find_ram (all_nodes t) = (rb, rz)" by (cases "find_ram (all_nodes t)")
  let ?z = "mem_map_bytes sz (shr (rb + rz) PAGE_SIZE_BITS - shr rb PAGE_SIZE_BITS)" and ?n = "seg_frames (boot_segs lk t)"
  have out: "\<forall>d \<in> set (device_list (all_nodes t)). dev_size d = 0 \<or> \<not> in_ram rb (rb + rz) d"
    using room by (simp add: boot_room_def ram)
  obtain mb where mb: "setup_memblock lk t dtb_addr memblock_new = Inr mb" "room (P ?z) mb (Suc ?n)"
    using room by (auto simp: boot_room_def ram split: sum.splits)
  have bok: "boot_ok mb" using setup_memblock_boots [OF ok ram] mb(1) by (simp add: boots_def)
  obtain p mb1 where p: "early_alloc mb PAGE_SIZE PAGE_SIZE = Inr (Some p, mb1)" "room (P ?z) mb1 ?n"
    using mb(2) by (auto split: sum.splits option.splits)
  let ?m = "write_zero_page (boot_mem b) (pa_val p)"
  have rt: "boot_map (pa_val p) [] (boot_segs lk t) mb1 ?m" "ppn_from_pa p = Inr (pa_floor p)"
    using root_boots [OF bok, of "boot_segs lk t" "boot_mem b"] p(1) by (auto simp: boots_def)
  have sok: "segs_ok (boot_segs lk t)" using ok by (simp add: machine_ok_def)
  obtain mb2 m2 where m2: "map_segments (pa_val p) (boot_segs lk t) (mb1, ?m) = Inr (mb2, m2)" "frames_taken ?n mb1 mb2"
    using map_segments_cases [of "pa_val p" "[]" "boot_segs lk t" "[]" mb1 ?m] rt(1) sok room_frames [OF p(2)]
    by (auto split: sum.splits)
  have P2: "P ?z mb2" by (rule room_taken [OF p(2) m2(2)])
  obtain q mb3 where q: "early_alloc mb2 ?z PAGE_SIZE = Inr (Some q, mb3)"
    using P [OF P2] by (auto simp: block_left_def split: sum.splits option.splits)
  then obtain b' where "setup_memory_and_mapping fdt_from_ptr sz lk dtb_addr b = Inr b'" "boot_mb b' = mb3"
    using fdt new mb(1) p(1) m2(1) rt(2)
    by (simp add: setup_memory_and_mapping_def map_memory_map [OF ram out] publish_boot_def ram Let_def)
  then show ?thesis using P2 q by blast
qed

lemma start_memory_succeeds:
  assumes fdt: "fdt_from_ptr dtb_addr = Some t" and ok: "machine_ok sz lk t dtb_addr" and new: "boot_mb b = memblock_new"
    and h: "caches h = SLUB_ALLOCATOR" "heap_buddy h = buddy_new" and room: "boot_room P sz lk t dtb_addr"
    and P: "\<And>z mb. P z mb \<Longrightarrow> block_left z mb"
  shows "\<exists>satp b' h' mb z q. start_memory fdt_from_ptr sz lk dtb_addr b h = Inr (satp, b', h') \<and> P z mb
    \<and> early_alloc mb z PAGE_SIZE = Inr (Some q, boot_mb b')"
proof -
  obtain b1 mb z q where b1: "setup_memory_and_mapping fdt_from_ptr sz lk dtb_addr b = Inr b1"
    and q: "P z mb" "early_alloc mb z PAGE_SIZE = Inr (Some q, boot_mb b1)"
    using setup_succeeds [of fdt_from_ptr dtb_addr t sz lk b P, OF fdt ok new room P] by blast
  have bt: "booted sz lk t dtb_addr b1"
    using setup_boots [of fdt_from_ptr dtb_addr t sz lk b, OF fdt ok new] b1 by (simp add: boots_def)
  obtain m where m: "unmap_temp_identity_area lk b1 = Inr (b1\<lparr>boot_mem := m\<rparr>)"
    "boot_inv (boot_mb b1) m (pa_val (pa_from_ppn (boot_root_ppn b1)))"
    "address_space m (pa_val (pa_from_ppn (boot_root_ppn b1))) (linear_segs (boot_segs lk t))"
    using unmap_booted [OF bt ok] by blast
  from start_after_setup [OF bt ok h m] m(1) b1
  have "\<exists>satp h'. start_memory fdt_from_ptr sz lk dtb_addr b h = Inr (satp, b1\<lparr>boot_mem := m\<rparr>, h')"
    by (auto simp: start_memory_def Let_def)
  then show ?thesis using q by fastforce
qed

end
