(* ===== verification/Board.thy ===== *)
theory Board
  imports Address Ring_Buffer
begin

text \<open>
  The platform (\<open>src/bsp/qemu_virt.rs\<close>), the serial port driver (\<open>src/driver/uart.rs\<close>, feature \<open>uart_interrupt\<close>) and
  the console (\<open>src/console/mod.rs\<close>). The devices are a parameter: what a volatile read returns is a function of
  the accesses so far, and the accesses are recorded in their order. Formatting by \<open>core::fmt\<close> and the character
  output of the firmware are not modelled; the bytes handed to the firmware are.
\<close>

section \<open>Platform\<close>

definition UART_BASE :: usize where "UART_BASE = 0x10000000"
definition UART0_IRQ :: usize where "UART0_IRQ = 10"
definition CLINT_BASE :: usize where "CLINT_BASE = 0x2000000"
definition PLIC_BASE :: usize where "PLIC_BASE = 0xC000000"
definition PLIC_PRIORITY_BASE :: usize where "PLIC_PRIORITY_BASE = PLIC_BASE + 0x00"

definition plic_priority_addr :: "usize \<Rightarrow> usize" where
  "plic_priority_addr interrupt_id = PLIC_PRIORITY_BASE + interrupt_id * 4"

definition PLIC_ENABLE_BASE :: usize where "PLIC_ENABLE_BASE = PLIC_BASE + 0x2000"
definition PLIC_ENABLE_STRIDE :: usize where "PLIC_ENABLE_STRIDE = 0x80"

definition plic_context_id_s :: "usize \<Rightarrow> usize" where
  "plic_context_id_s hart_id = hart_id * 2 + 1"

definition plic_enable_addr :: "usize \<Rightarrow> usize \<Rightarrow> usize" where
  "plic_enable_addr hart_id irq = PLIC_ENABLE_BASE + plic_context_id_s hart_id * PLIC_ENABLE_STRIDE + (irq div 32) * 4"

definition PLIC_CONTEXT_BASE :: usize where "PLIC_CONTEXT_BASE = PLIC_BASE + 0x200000"
definition PLIC_CONTEXT_STRIDE :: usize where "PLIC_CONTEXT_STRIDE = 0x1000"

definition plic_context_addr :: "usize \<Rightarrow> usize" where
  "plic_context_addr hart_id = PLIC_CONTEXT_BASE + plic_context_id_s hart_id * PLIC_CONTEXT_STRIDE"

definition PLIC_CLAIM_COMPLETE_OFFSET :: usize where "PLIC_CLAIM_COMPLETE_OFFSET = 0x200004"

definition plic_claim_complete_addr :: "usize \<Rightarrow> usize" where
  "plic_claim_complete_addr hart_id = PLIC_BASE + PLIC_CLAIM_COMPLETE_OFFSET + plic_context_id_s hart_id * PLIC_CONTEXT_STRIDE"

definition MTIMECMP_BASE :: usize where "MTIMECMP_BASE = CLINT_BASE + 0x4000"

text \<open>The hart number is an \<open>i8\<close>: the product is taken at 8 bits and then sign-extended.\<close>

definition get_mtimecmp_addr :: "8 word \<Rightarrow> usize" where
  "get_mtimecmp_addr hart_id = MTIMECMP_BASE + scast (hart_id * 8)"

definition DLL :: usize where "DLL = 0"
definition DLM :: usize where "DLM = 1"
definition RHR :: usize where "RHR = 0"
definition THR :: usize where "THR = 0"
definition IER :: usize where "IER = 1"
definition FCR :: usize where "FCR = 2"
definition LCR :: usize where "LCR = 3"
definition LSR :: usize where "LSR = 5"

section \<open>Device accesses\<close>

datatype mmio = Read8 usize | Write8 usize u8 | Read32 usize | Write32 usize u32

record device =
  dev_read8 :: "mmio list \<Rightarrow> usize \<Rightarrow> u8"
  dev_read32 :: "mmio list \<Rightarrow> usize \<Rightarrow> u32"

definition read_volatile8 :: "device \<Rightarrow> usize \<Rightarrow> mmio list \<Rightarrow> u8 \<times> mmio list" where
  "read_volatile8 dev a tr = (dev_read8 dev tr a, tr @ [Read8 a])"

definition read_volatile32 :: "device \<Rightarrow> usize \<Rightarrow> mmio list \<Rightarrow> u32 \<times> mmio list" where
  "read_volatile32 dev a tr = (dev_read32 dev tr a, tr @ [Read32 a])"

definition write_volatile8 :: "usize \<Rightarrow> u8 \<Rightarrow> mmio list \<Rightarrow> mmio list" where
  "write_volatile8 a v tr = tr @ [Write8 a v]"

definition write_volatile32 :: "usize \<Rightarrow> u32 \<Rightarrow> mmio list \<Rightarrow> mmio list" where
  "write_volatile32 a v tr = tr @ [Write32 a v]"

section \<open>The serial port\<close>

record uart =
  base_address :: usize
  uart_transmit :: "u8 ring_buffer"
  uart_trace :: "mmio list"

definition uart_new :: "usize \<Rightarrow> u8 ring_buffer \<Rightarrow> mmio list \<Rightarrow> uart" where
  "uart_new base tx tr = \<lparr>base_address = base, uart_transmit = tx, uart_trace = tr\<rparr>"

text \<open>\<open>SerialPort::init\<close>; \<open>hart_id\<close> is the result of \<open>get_hart_id()\<close>.\<close>

definition uart_init :: "device \<Rightarrow> usize \<Rightarrow> uart \<Rightarrow> uart" where
  "uart_init dev hart_id s =
     (let ier_ptr = base_address s + IER; fcr_ptr = base_address s + FCR; lcr_ptr = base_address s + LCR;
          dll_ptr = base_address s + DLL; dlm_ptr = base_address s + DLM;
          priority_ptr = plic_priority_addr UART0_IRQ;
          enable_ptr = plic_enable_addr hart_id UART0_IRQ;
          threshold_ptr = plic_context_addr hart_id;
          tr = write_volatile8 ier_ptr 0 (uart_trace s);
          tr = write_volatile32 priority_ptr 1 tr;
          (current_enable, tr) = read_volatile32 dev enable_ptr tr;
          tr = write_volatile32 enable_ptr (current_enable OR push_bit 10 1) tr;
          tr = write_volatile32 threshold_ptr 0 tr;
          tr = write_volatile8 fcr_ptr (push_bit 0 1 OR push_bit 1 1 OR push_bit 2 1) tr;
          (lcr_value, tr) = read_volatile8 dev lcr_ptr tr;
          tr = write_volatile8 lcr_ptr (lcr_value OR push_bit 7 1) tr;
          tr = write_volatile8 dll_ptr 0x03 tr;
          tr = write_volatile8 dlm_ptr 0x00 tr;
          tr = write_volatile8 lcr_ptr 0x03 tr;
          (current_ier, tr) = read_volatile8 dev ier_ptr tr;
          tr = write_volatile8 ier_ptr (current_ier OR 0x01) tr
      in s\<lparr>uart_trace := tr\<rparr>)"

definition update_ier :: "device \<Rightarrow> (u8 \<Rightarrow> u8) \<Rightarrow> uart \<Rightarrow> uart" where
  "update_ier dev f s =
     (let ier_ptr = base_address s + IER; (current_ier, tr) = read_volatile8 dev ier_ptr (uart_trace s)
      in s\<lparr>uart_trace := write_volatile8 ier_ptr (f current_ier) tr\<rparr>)"

definition disable_receive_interrupt :: "device \<Rightarrow> uart \<Rightarrow> uart" where
  "disable_receive_interrupt dev = update_ier dev (\<lambda>v. v AND NOT 0x01)"

definition enable_receive_interrupt :: "device \<Rightarrow> uart \<Rightarrow> uart" where
  "enable_receive_interrupt dev = update_ier dev (\<lambda>v. v OR 0x01)"

definition disable_transmit_interrupt :: "device \<Rightarrow> uart \<Rightarrow> uart" where
  "disable_transmit_interrupt dev = update_ier dev (\<lambda>v. v AND NOT 0x02)"

definition enable_transmit_interrupt :: "device \<Rightarrow> uart \<Rightarrow> uart" where
  "enable_transmit_interrupt dev = update_ier dev (\<lambda>v. v OR 0x02)"

definition write_to_reg :: "u8 \<Rightarrow> uart \<Rightarrow> uart" where
  "write_to_reg c s = s\<lparr>uart_trace := write_volatile8 (base_address s + THR) c (uart_trace s)\<rparr>"

definition putchar :: "device \<Rightarrow> u8 \<Rightarrow> uart \<Rightarrow> ((unit, u8) result \<times> uart) res" where
  "putchar dev c s =
     (let s1 = disable_transmit_interrupt dev s
      in rbind (rb_push 4096 (uart_transmit s1) c) (\<lambda>(res, tx).
           Inr (res, enable_transmit_interrupt dev (s1\<lparr>uart_transmit := tx\<rparr>))))"

text \<open>\<open>while let Err(_) = self.putchar(c) {}\<close>, and \<open>write_str\<close> over it.\<close>

definition putchar_wait :: "device \<Rightarrow> u8 \<Rightarrow> uart \<Rightarrow> uart res" where
  "putchar_wait dev c s = loop_res (\<lambda>s. rbind (putchar dev c s) (\<lambda>(res, s').
     case res of Err _ \<Rightarrow> Inr (Inr s') | Ok _ \<Rightarrow> Inr (Inl s'))) s"

fun write_str :: "device \<Rightarrow> u8 list \<Rightarrow> uart \<Rightarrow> uart res" where
  "write_str dev [] s = Inr s"
| "write_str dev (c # cs) s = rbind (putchar_wait dev c s) (write_str dev cs)"

section \<open>The console\<close>

definition polling_putchar :: "device \<Rightarrow> u8 \<Rightarrow> mmio list \<Rightarrow> mmio list res" where
  "polling_putchar dev c tr =
     (let lsr_ptr = UART_BASE + LSR; thr_ptr = UART_BASE + THR
      in rbind (loop_res (\<lambda>tr. let (lsr, tr') = read_volatile8 dev lsr_ptr tr in
             if lsr AND push_bit 5 1 = 0 then Inr (Inr tr') else Inr (Inl tr')) tr)
           (\<lambda>tr. Inr (write_volatile8 thr_ptr c tr)))"

text \<open>The early messages: the result is the list of bytes given to the firmware's \<open>console_putchar\<close>.\<close>

definition early_print_str :: "u8 list \<Rightarrow> usize list" where
  "early_print_str s = map ucast s"

definition hex_digit :: "u8 \<Rightarrow> u8" where
  "hex_digit digit = (if digit < 10 then 48 + digit else 97 + digit - 10)"

definition hex_loop :: "u8 list \<Rightarrow> nat \<Rightarrow> usize \<Rightarrow> (u8 list \<times> nat) res" where
  "hex_loop buf i val = loop_res (\<lambda>(buf, i, val).
     if val > 0
     then require (0 < i) Index_out_of_bounds
       (let i' = i - 1; digit = ucast (val AND 0xF) in
        require (i' < length buf) Index_out_of_bounds (Inr (Inr (buf[i' := hex_digit digit], i', shr val 4))))
     else Inr (Inl (buf, i))) (buf, i, val)"

definition early_print_hex :: "usize \<Rightarrow> usize list res" where
  "early_print_hex val =
     (let start = early_print_str [48, 120] in
      if val = 0 then Inr (start @ early_print_str [48])
      else rbind (hex_loop (replicate 16 0) 16 val) (\<lambda>(buf, i). Inr (start @ map ucast (drop i buf))))"

section \<open>Hexadecimal numbers\<close>

text \<open>The digits of a number, most significant first, and the number a string of digits stands for.\<close>

fun hex_digits :: "nat \<Rightarrow> u8 list" where
  "hex_digits n = (if n = 0 then [] else hex_digits (n div 16) @ [hex_digit (of_nat (n mod 16))])"

declare hex_digits.simps [simp del]

definition digit_value :: "u8 \<Rightarrow> nat" where
  "digit_value d = (if d < 58 then unat d - 48 else unat d - 87)"

definition hex_value :: "u8 list \<Rightarrow> nat" where
  "hex_value ds = foldl (\<lambda>v d. v * 16 + digit_value d) 0 ds"

lemma hex_digits_0 [simp]: "hex_digits 0 = []"
  by (simp add: hex_digits.simps)

lemma digit_value_hex: "k < 16 \<Longrightarrow> digit_value (hex_digit (of_nat k)) = k"
proof -
  have "\<forall>k \<in> set [0 ..< 16]. digit_value (hex_digit (of_nat k)) = k" by code_simp
  then show "k < 16 \<Longrightarrow> digit_value (hex_digit (of_nat k)) = k" by simp
qed

lemma hex_value_digits: "hex_value (hex_digits n) = n"
proof (induction n rule: hex_digits.induct)
  case (1 n)
  then show ?case
    by (cases "n = 0") (simp_all add: hex_digits.simps [of n] hex_value_def digit_value_hex)
qed

lemma hex_digits_bound: "0 < n \<Longrightarrow> hex_digits n \<noteq> [] \<and> hd (hex_digits n) \<noteq> 48"
proof (induction n rule: hex_digits.induct)
  case (1 n)
  show ?case
  proof (cases "n div 16 = 0")
    case True
    then have "n < 16" by simp
    moreover have "\<forall>k \<in> set [1 ..< 16]. hex_digit (of_nat k) \<noteq> 48" by code_simp
    ultimately show ?thesis using "1.prems" True by (simp add: hex_digits.simps [of n] hex_digits.simps [of 0])
  next
    case False
    then show ?thesis using "1.IH" "1.prems" by (simp add: hex_digits.simps [of n])
  qed
qed

lemma length_hex_digits: "n < 16 ^ k \<Longrightarrow> length (hex_digits n) \<le> k"
proof (induction k arbitrary: n)
  case 0
  then show ?case by (simp add: hex_digits.simps)
next
  case (Suc k)
  then have "n div 16 < 16 ^ k" by (simp add: less_mult_imp_div_less)
  from Suc.IH [OF this] show ?case by (simp add: hex_digits.simps [of n])
qed

lemma hex_loop_digits:
  assumes "unat val < 16 ^ i" and "i \<le> length buf"
  shows "\<exists>buf' i'. hex_loop buf i val = Inr (buf', i') \<and> drop i' buf' = hex_digits (unat val) @ drop i buf"
  using assms
proof (induction i arbitrary: buf val)
  case 0
  then have "val = 0" by (simp add: unat_eq_0)
  then show ?case by (simp add: hex_loop_def loop_res_simps(2) hex_digits.simps)
next
  case (Suc k)
  show ?case
  proof (cases "val = 0")
    case True
    then show ?thesis by (simp add: hex_loop_def loop_res_simps(2) hex_digits.simps)
  next
    case False
    let ?d = "hex_digit (ucast (val AND 0xF))"
    have n: "unat (shr val 4) = unat val div 16" by (simp add: unat_shr)
    have m: "(val AND 0xF) = of_nat (unat val mod 16)"
    proof -
      have "val AND 0xF = val AND mask 4" by (simp add: mask_eq_exp_minus_1)
      then show ?thesis by (simp add: word_unat_eq_iff unat_and_mask unat_of_nat)
    qed
    have d: "?d = hex_digit (of_nat (unat val mod 16))"
    proof -
      have "(ucast (of_nat a :: usize) :: u8) = of_nat a" if "a < 16" for a :: nat
        using that by (simp add: word_unat_eq_iff unsigned_ucast_eq take_bit_eq_mod unat_of_nat)
      then show ?thesis unfolding m by simp
    qed
    have step: "hex_loop buf (Suc k) val = hex_loop (buf[k := ?d]) k (shr val 4)"
      unfolding hex_loop_def using False Suc.prems(2) by (intro loop_res_simps(3)) (simp add: word_neq_0_conv [symmetric] require_def)
    have "unat (shr val 4) < 16 ^ k" using Suc.prems(1) n by (simp add: less_mult_imp_div_less)
    from Suc.IH [OF this, of "buf[k := ?d]"] Suc.prems(2) obtain buf' i' where
      l: "hex_loop (buf[k := ?d]) k (shr val 4) = Inr (buf', i')" "drop i' buf' = hex_digits (unat val div 16) @ drop k (buf[k := ?d])"
      unfolding n by auto
    have "drop k (buf[k := ?d]) = ?d # drop (Suc k) buf" using Suc.prems(2) by (simp add: Cons_nth_drop_Suc [symmetric] drop_update_swap)
    moreover have "hex_digits (unat val) = hex_digits (unat val div 16) @ [?d]"
      using False unfolding d by (subst hex_digits.simps) (simp add: unat_eq_0)
    ultimately show ?thesis using l step by (intro exI [of _ buf'] exI [of _ i']) simp
  qed
qed

text \<open>C39. \<open>early_print_hex\<close> ends for every value, never writes outside its 16-byte buffer, and prints \<open>0x\<close> followed by one to sixteen
  digits without a leading zero (except for zero itself) whose value is the argument.\<close>

theorem early_print_hex_correct:
  "\<exists>ds. early_print_hex val = Inr (early_print_str ([48, 120] @ ds)) \<and> hex_value ds = unat val
     \<and> 1 \<le> length ds \<and> length ds \<le> 16 \<and> (hd ds = 48 \<longleftrightarrow> val = 0)"
proof (cases "val = 0")
  case True
  then show ?thesis
    by (intro exI [of _ "[48]"]) (simp add: early_print_hex_def early_print_str_def hex_value_def digit_value_def)
next
  case False
  have lt: "unat val < 16 ^ 16" using unat_usize_less [of val] by simp
  have pos: "0 < unat val" using False by (simp add: unat_gt_0)
  obtain buf i where "hex_loop (replicate 16 0) 16 val = Inr (buf, i)" "drop i buf = hex_digits (unat val)"
    using hex_loop_digits [OF lt, of "replicate 16 0"] by auto
  then have "early_print_hex val = Inr (early_print_str ([48, 120] @ hex_digits (unat val)))"
    using False by (simp add: early_print_hex_def early_print_str_def Let_def)
  then show ?thesis using hex_digits_bound [OF pos] length_hex_digits [OF lt] hex_value_digits False
    by (intro exI [of _ "hex_digits (unat val)"]) (simp add: Suc_le_eq)
qed

section \<open>Writing a string\<close>

lemma update_ier_simps [simp]:
  "base_address (update_ier dev f s) = base_address s" "uart_transmit (update_ier dev f s) = uart_transmit s"
  by (simp_all add: update_ier_def read_volatile8_def Let_def)

lemmas ier_ops = disable_transmit_interrupt_def enable_transmit_interrupt_def

text \<open>The last access of \<open>putchar\<close> sets the transmit interrupt enable.\<close>

definition transmit_on :: "uart \<Rightarrow> bool" where
  "transmit_on s \<longleftrightarrow> (\<exists>tr v. uart_trace s = tr @ [Write8 (base_address s + IER) (v OR 0x02)])"

lemma enable_transmit_on: "transmit_on (enable_transmit_interrupt dev s)"
  by (auto simp: transmit_on_def enable_transmit_interrupt_def update_ier_def read_volatile8_def write_volatile8_def Let_def)

lemma putchar_cases:
  assumes "rb_inv 4096 (uart_transmit s)"
  shows "\<exists>s'. base_address s' = base_address s \<and> transmit_on s' \<and> rb_inv 4096 (uart_transmit s')
    \<and> (if length (rb_list 4096 (uart_transmit s)) < 4096
       then putchar dev c s = Inr (Ok (), s') \<and> rb_list 4096 (uart_transmit s') = rb_list 4096 (uart_transmit s) @ [c]
       else putchar dev c s = Inr (Err c, s') \<and> uart_transmit s' = uart_transmit s)"
proof (cases rule: uart_buf.push_cases [OF assms, of c, case_names ok full])
  case (ok tx)
  let ?s = "enable_transmit_interrupt dev ((disable_transmit_interrupt dev s)\<lparr>uart_transmit := tx\<rparr>)"
  have "putchar dev c s = Inr (Ok (), ?s)" using ok(1) by (simp add: putchar_def ier_ops Let_def)
  then show ?thesis using ok enable_transmit_on by (intro exI [of _ ?s]) (simp add: ier_ops)
next
  case full
  let ?s = "enable_transmit_interrupt dev (disable_transmit_interrupt dev s)"
  have same: "(update_ier dev f s)\<lparr>uart_transmit := uart_transmit s\<rparr> = update_ier dev f s" for f
    by (simp add: update_ier_def read_volatile8_def Let_def)
  have "putchar dev c s = Inr (Err c, ?s)" using full(1) by (simp add: putchar_def ier_ops Let_def same)
  then show ?thesis using full assms enable_transmit_on by (intro exI [of _ ?s]) (simp add: ier_ops)
qed

lemma putchar_wait_room:
  assumes "rb_inv 4096 (uart_transmit s)" and "length (rb_list 4096 (uart_transmit s)) < 4096"
  shows "\<exists>s'. putchar_wait dev c s = Inr s' \<and> base_address s' = base_address s \<and> transmit_on s' \<and> rb_inv 4096 (uart_transmit s')
    \<and> rb_list 4096 (uart_transmit s') = rb_list 4096 (uart_transmit s) @ [c]"
  using putchar_cases [OF assms(1), of dev c] assms(2) by (auto simp: putchar_wait_def loop_res_simps(2))

lemma putchar_wait_full:
  assumes "rb_inv 4096 (uart_transmit s)" and "length (rb_list 4096 (uart_transmit s)) = 4096"
  shows "putchar_wait dev c s = Inl Diverges"
  unfolding putchar_wait_def
proof (rule loop_diverges [where P = "\<lambda>s. rb_inv 4096 (uart_transmit s) \<and> length (rb_list 4096 (uart_transmit s)) = 4096"])
  fix s :: uart
  assume "rb_inv 4096 (uart_transmit s) \<and> length (rb_list 4096 (uart_transmit s)) = 4096"
  then show "\<exists>s'. rbind (putchar dev c s) (\<lambda>(res, s'). case res of Ok _ \<Rightarrow> Inr (Inl s') | Err _ \<Rightarrow> Inr (Inr s')) = Inr (Inr s')
      \<and> rb_inv 4096 (uart_transmit s') \<and> length (rb_list 4096 (uart_transmit s')) = 4096"
    using putchar_cases [of s dev c] by (auto simp del: length_rb_list)
qed (use assms in simp)

lemma write_str_cases:
  assumes "rb_inv 4096 (uart_transmit s)"
  shows "if length (rb_list 4096 (uart_transmit s)) + length cs \<le> 4096
    then \<exists>s'. write_str dev cs s = Inr s' \<and> base_address s' = base_address s \<and> rb_inv 4096 (uart_transmit s')
      \<and> rb_list 4096 (uart_transmit s') = rb_list 4096 (uart_transmit s) @ cs \<and> (cs \<noteq> [] \<longrightarrow> transmit_on s')
    else write_str dev cs s = Inl Diverges"
  using assms
proof (induction cs arbitrary: s)
  case Nil
  then show ?case using uart_buf.bounded [of "uart_transmit s"] by simp
next
  case (Cons c cs)
  show ?case
  proof (cases "length (rb_list 4096 (uart_transmit s)) < 4096")
    case True
    then obtain s1 where s1: "putchar_wait dev c s = Inr s1" "base_address s1 = base_address s" "transmit_on s1"
      "rb_inv 4096 (uart_transmit s1)" "rb_list 4096 (uart_transmit s1) = rb_list 4096 (uart_transmit s) @ [c]"
      using putchar_wait_room [OF Cons.prems] by blast
    show ?thesis
    proof (cases cs)
      case Nil
      then show ?thesis using s1 True by (simp del: length_rb_list)
    next
      case (Cons d ds)
      then show ?thesis using Cons.IH [OF s1(4)] s1 by (simp del: length_rb_list add: s1(5) split: if_splits)
    qed
  next
    case False
    then have "length (rb_list 4096 (uart_transmit s)) = 4096" using uart_buf.bounded [OF Cons.prems] by simp
    then show ?thesis using putchar_wait_full [OF Cons.prems] by (simp del: length_rb_list)
  qed
qed

text \<open>C40. While no interrupt drains the transmit buffer, \<open>write_str\<close> returns exactly when the buffer has room for the whole string:
  the bytes are then appended in their order, and a non-empty write leaves the transmit interrupt enabled as its last device
  access, so that the handler will send them; without the room the driver spins forever.\<close>

theorem write_str_terminates:
  assumes "rb_inv 4096 (uart_transmit s)"
  shows "if length (rb_list 4096 (uart_transmit s)) + length cs \<le> 4096
    then \<exists>s'. write_str dev cs s = Inr s' \<and> base_address s' = base_address s \<and> rb_inv 4096 (uart_transmit s')
      \<and> rb_list 4096 (uart_transmit s') = rb_list 4096 (uart_transmit s) @ cs
      \<and> (cs \<noteq> [] \<longrightarrow> (\<exists>tr v. uart_trace s' = tr @ [Write8 (base_address s + IER) (v OR 0x02)]))
    else write_str dev cs s = Inl Diverges"
proof -
  have "base_address s' = base_address s \<Longrightarrow> transmit_on s' \<Longrightarrow> \<exists>tr v. uart_trace s' = tr @ [Write8 (base_address s + IER) (v OR 0x02)]"
    for s' by (simp add: transmit_on_def)
  then show ?thesis using write_str_cases [OF assms, of cs dev] by (auto simp del: length_rb_list split: if_splits)
qed

theorem write_str_terminates_witness:
  "\<exists>s'. write_str \<lparr>dev_read8 = (\<lambda>_ _. 0), dev_read32 = (\<lambda>_ _. 0)\<rparr> [72, 105] (uart_new UART_BASE (rb_new 4096) []) = Inr s' \<and> rb_list 4096 (uart_transmit s') = [72, 105]"
proof -
  have n: "rb_inv 4096 (rb_new 4096 :: u8 ring_buffer)" "rb_list 4096 (rb_new 4096 :: u8 ring_buffer) = []"
    by (rule conjunct1 [OF rb_new_inv], simp, rule conjunct2 [OF rb_new_inv], simp)
  have i: "rb_inv 4096 (uart_transmit (uart_new UART_BASE (rb_new 4096) []))" using n(1) by (simp add: uart_new_def)
  have "length (rb_list 4096 (uart_transmit (uart_new UART_BASE (rb_new 4096) []))) + length [72, 105 :: u8] \<le> 4096"
    using n(2) by (simp add: uart_new_def)
  with write_str_terminates [OF i, of "[72, 105]" "\<lparr>dev_read8 = (\<lambda>_ _. 0), dev_read32 = (\<lambda>_ _. 0)\<rparr>"]
  obtain s' where "write_str \<lparr>dev_read8 = (\<lambda>_ _. 0), dev_read32 = (\<lambda>_ _. 0)\<rparr> [72, 105] (uart_new UART_BASE (rb_new 4096) []) = Inr s'"
    "rb_list 4096 (uart_transmit s') = rb_list 4096 (uart_transmit (uart_new UART_BASE (rb_new 4096) [])) @ [72, 105]"
    unfolding if_P by meson
  then show ?thesis using n(2) by (intro exI [of _ s']) (simp del: write_str.simps add: uart_new_def)
qed

section \<open>Polling\<close>

text \<open>\<open>polling_putchar\<close> writes its byte after the first read of the line status that reports an empty holding register, and spins
  forever on a device that never does.\<close>

lemma polling_putchar_ready:
  assumes "\<forall>k < n. dev_read8 dev (tr @ replicate k (Read8 (UART_BASE + LSR))) (UART_BASE + LSR) AND push_bit 5 1 = 0"
    and "dev_read8 dev (tr @ replicate n (Read8 (UART_BASE + LSR))) (UART_BASE + LSR) AND push_bit 5 1 \<noteq> 0"
  shows "polling_putchar dev c tr = Inr (tr @ replicate (Suc n) (Read8 (UART_BASE + LSR)) @ [Write8 (UART_BASE + THR) c])"
  using assms
proof (induction n arbitrary: tr)
  case 0
  then show ?case by (simp add: polling_putchar_def read_volatile8_def write_volatile8_def loop_res_simps(2) Let_def)
next
  case (Suc n)
  let ?r = "Read8 (UART_BASE + LSR)"
  have first: "dev_read8 dev tr (UART_BASE + LSR) AND push_bit 5 1 = 0" using Suc.prems(1) by (metis append_Nil2 replicate_0 zero_less_Suc)
  have "polling_putchar dev c tr = polling_putchar dev c (tr @ [?r])"
    unfolding polling_putchar_def Let_def using first by (subst loop_res_simps(3)) (auto simp: read_volatile8_def)
  moreover have "\<forall>k < n. dev_read8 dev ((tr @ [?r]) @ replicate k ?r) (UART_BASE + LSR) AND push_bit 5 1 = 0"
    using Suc.prems(1) by (metis Suc_less_eq append_Cons append_Nil append_assoc replicate_Suc)
  moreover have "dev_read8 dev ((tr @ [?r]) @ replicate n ?r) (UART_BASE + LSR) AND push_bit 5 1 \<noteq> 0" using Suc.prems(2) by simp
  ultimately show ?case using Suc.IH [of "tr @ [?r]"] by simp
qed

lemma polling_putchar_stuck:
  assumes "\<And>tr. dev_read8 dev tr (UART_BASE + LSR) AND push_bit 5 1 = 0"
  shows "polling_putchar dev c tr = Inl Diverges"
  unfolding polling_putchar_def Let_def using assms
  by (subst loop_diverges [where P = "\<lambda>_. True"]) (simp_all add: read_volatile8_def)

end
