(* ===== verification/Start.thy ===== *)
theory Start
  imports Boot Board
begin

text \<open>
  What the boot code guarantees: the early page table of \<open>enable_early_mmu\<close>, and the state in which
  \<open>virt_rust_main\<close> (\<open>src/main.rs\<close>) reaches the scheduler. A concrete machine shows that the assumptions can hold and that
  the set-up then succeeds.
\<close>

section \<open>A machine\<close>

text \<open>14 MiB of RAM at \<open>0x80000000\<close> with the device tree at its start, a kernel of four segments of 2 MiB, one UART.\<close>

definition demo_tree :: fdt where
  "demo_tree = \<lparr>all_nodes = [
      \<lparr>node_name = ''memory@80000000'', node_reg = Some [\<lparr>starting_address = 0x80000000, region_size = Some 0xE00000\<rparr>]\<rparr>,
      \<lparr>node_name = ''serial@10000000'', node_reg = Some [\<lparr>starting_address = 0x10000000, region_size = Some 0x100\<rparr>]\<rparr>],
    memory_reservations = [], fdt_total_size = 0x1000\<rparr>"

definition demo_linker :: linker where
  "demo_linker = \<lparr>sym_skernel = phys_to_virt 0x80200000, sym_ekernel = phys_to_virt 0x80A00000,
    sym_text_start = phys_to_virt 0x80200000, sym_text_end = phys_to_virt 0x80400000,
    sym_rodata_start = phys_to_virt 0x80400000, sym_rodata_end = phys_to_virt 0x80600000,
    sym_data_start = phys_to_virt 0x80600000, sym_data_end = phys_to_virt 0x80800000,
    sym_bss_start_with_stack = phys_to_virt 0x80800000, sym_bss_end = phys_to_virt 0x80A00000\<rparr>"

definition demo_boot :: boot where
  "demo_boot = \<lparr>boot_mb = memblock_new, boot_mem = (\<lambda>_. 0), boot_root_ppn = PhysPageNum 0, boot_ram_start = 0, boot_ram_end = 0,
     boot_mem_map_pa = PhysAddr 0\<rparr>"

definition demo_heap :: heap where
  "demo_heap = \<lparr>caches = SLUB_ALLOCATOR, mem_map = [], ram_start_ppn = 0, heap_buddy = buddy_new, heap_mem = (\<lambda>_. 0)\<rparr>"

lemma demo_align: "align_up 0x80A00000 PAGE_SIZE = 0x80A00000"
  by code_simp

lemma demo_ram: "find_ram (all_nodes demo_tree) = (0x80000000, 0xE00000)"
  by (simp add: demo_tree_def unwrap_or_0_def)

lemma demo_devices: "device_list (all_nodes demo_tree) = [\<lparr>starting_address = 0x10000000, region_size = Some 0x100\<rparr>]"
  by (simp add: demo_tree_def device_list_def)

lemma demo_segs: "boot_segs demo_linker demo_tree =
  [(0x10000000, 0x10000100, Linear, PTE_R OR PTE_W),
   (0x80200000, 0x80400000, Linear, PTE_R OR PTE_X), (0x80200000, 0x80400000, Identical, PTE_R OR PTE_X),
   (0x80400000, 0x80600000, Linear, PTE_R), (0x80400000, 0x80600000, Identical, PTE_R),
   (0x80600000, 0x80800000, Linear, PTE_R OR PTE_W), (0x80600000, 0x80800000, Identical, PTE_R OR PTE_W),
   (0x80800000, 0x80A00000, Linear, PTE_R OR PTE_W), (0x80800000, 0x80A00000, Identical, PTE_R OR PTE_W),
   (0x80A00000, 0x80E00000, Linear, PTE_R OR PTE_W), (0x80000000, 0x80200000, Linear, PTE_R OR PTE_W)]"
  by (simp add: boot_segs_def demo_ram demo_devices device_segs_def kernel_segments_def demo_linker_def unwrap_or_0_def Let_def
      demo_align)

lemma demo_frames: "seg_frames (boot_segs demo_linker demo_tree) = 24"
  by (simp add: demo_segs segment_pages_def chunk_def page_bytes_def Let_def)

lemma ivl_disjoint: "{a ..< b} \<inter> {c ..< d} = {} \<longleftrightarrow> b \<le> a \<or> d \<le> c \<or> b \<le> c \<or> d \<le> a" for a b c d :: nat
  by (simp add: Int_atLeastLessThan max_def min_def) arith

lemma leaf_flags_boot: "leaf_flags (PTE_R OR PTE_W)" "leaf_flags (PTE_R OR PTE_X)" "leaf_flags PTE_R"
  by code_simp+

lemma demo_segs_ok: "segs_ok (boot_segs demo_linker demo_tree)"
  unfolding demo_segs segs_ok_def by (simp add: leaf_flags_boot segment_range_def va_offset_def ivl_disjoint)

lemma demo_machine_ok: "machine_ok 40 demo_linker demo_tree 0x80000000"
  using demo_segs_ok unfolding machine_ok_def demo_ram demo_devices prod.case
  by (simp add: ram_ok_def no_wrap_def demo_linker_def demo_tree_def unwrap_or_0_def)

lemma demo_room: "case init_add_memory memblock_new (PhysAddr 0x80000000) 0xE00000 of Inl _ \<Rightarrow> False | Inr mb \<Rightarrow>
   (case reserve_memory mb (PhysAddr 0x80200000) 0x800000 of Inl _ \<Rightarrow> False | Inr mb \<Rightarrow>
   (case reserve_memory mb (PhysAddr 0x80000000) 0x1000 of Inl _ \<Rightarrow> False | Inr mb \<Rightarrow> room (stacks_left 143360) mb 25))"
  by code_simp

lemma demo_mem_map: "mem_map_bytes 40 (shr (0x80000000 + 0xE00000) PAGE_SIZE_BITS - shr 0x80000000 PAGE_SIZE_BITS) = 143360"
  by code_simp

lemma demo_stack_room: "boot_room stacks_left 40 demo_linker demo_tree 0x80000000"
proof -
  have m: "memory_reservations demo_tree = []" "fdt_total_size demo_tree = 0x1000" by (simp_all add: demo_tree_def)
  have k: "virt_to_phys (sym_skernel demo_linker) = 0x80200000" "virt_to_phys (sym_ekernel demo_linker) - 0x80200000 = 0x800000"
    by (simp_all add: demo_linker_def)
  have "case setup_memblock demo_linker demo_tree 0x80000000 memblock_new of Inl _ \<Rightarrow> False | Inr mb \<Rightarrow> room (stacks_left 143360) mb 25"
    using demo_room unfolding setup_memblock_def demo_ram Let_def prod.case m k
    by (auto simp: rbind_def split: sum.splits)
  then show ?thesis unfolding boot_room_def demo_ram demo_devices prod.case demo_frames demo_mem_map
    by (simp add: unwrap_or_0_def split: sum.splits)
qed

lemma demo_boot_room: "boot_room block_left 40 demo_linker demo_tree 0x80000000"
  by (rule boot_room_mono [OF demo_stack_room stacks_block_left])

section \<open>The start of the kernel\<close>



section \<open>What the address space lacks\<close>

lemma started_space:
  assumes "started sz lk t dtb_addr (satp, b, h)"
  shows "address_space (heap_mem h) (pa_val (pa_from_ppn (boot_root_ppn b))) (linear_segs (boot_segs lk t))"
  using assms by (simp add: started_def split: prod.splits)

lemma boot_seg_flags: "s \<in> set (boot_segs lk t) \<Longrightarrow> \<not> flags_contain (seg_flags s OR PTE_V) PTE_U"
proof -
  have f: "\<not> flags_contain ((PTE_R OR PTE_W) OR PTE_V) PTE_U" "\<not> flags_contain ((PTE_R OR PTE_X) OR PTE_V) PTE_U"
    "\<not> flags_contain (PTE_R OR PTE_V) PTE_U" by code_simp+
  assume "s \<in> set (boot_segs lk t)"
  then show ?thesis using f
    by (auto simp: boot_segs_def device_segs_def kernel_segments_def Let_def split: prod.splits)
qed

lemma linear_seg_high: "s \<in> set (linear_segs segs) \<Longrightarrow> n \<in> seg_range s \<Longrightarrow> 0xFFFFFFFF00000000 \<le> n"
  by (cases s) (auto simp: linear_segs_def segment_range_def va_offset_def)

text \<open>C36. After the memory set-up no address below \<open>PHYS_VIRT_OFFSET\<close> is translated, so none of the physical addresses through which the
  UART service, the interrupt controller and the polling console access their registers; and no page is accessible in user mode, in
  which \<open>first_switch_to\<close> starts the tasks.\<close>

theorem boot_space_gaps:
  assumes "fdt_from_ptr dtb_addr = Some t" and "machine_ok sz lk t dtb_addr" and "boot_mb b = memblock_new"
    and "caches h = SLUB_ALLOCATOR" and "heap_buddy h = buddy_new"
    and "start_memory fdt_from_ptr sz lk dtb_addr b h = Inr (satp, b', h')"
  shows "(\<forall>w. unat w < 0xFFFFFFFF00000000 \<longrightarrow> translate (heap_mem h') (pa_val (pa_from_ppn (boot_root_ppn b'))) w = None)
    \<and> (\<forall>w pa flags. translate (heap_mem h') (pa_val (pa_from_ppn (boot_root_ppn b'))) w = Some (pa, flags) \<longrightarrow> \<not> flags_contain flags PTE_U)
    \<and> unat (UART_BASE + LSR) < 0xFFFFFFFF00000000 \<and> unat (plic_claim_complete_addr 0) < 0xFFFFFFFF00000000"
proof -
  let ?r = "pa_val (pa_from_ppn (boot_root_ppn b'))" and ?L = "linear_segs (boot_segs lk t)"
  have "started sz lk t dtb_addr (satp, b', h')"
    using start_memory_boots [of fdt_from_ptr dtb_addr t sz lk b h, OF assms(1-5)] assms(6) by (simp add: boots_def)
  from started_space [OF this] have sp: "address_space (heap_mem h') ?r ?L" .
  have low: "translate (heap_mem h') ?r w = None" if "unat w < 0xFFFFFFFF00000000" for w
    using sp linear_seg_high that unfolding address_space_def by (meson leD)
  have user: "\<not> flags_contain flags PTE_U" if tr: "translate (heap_mem h') ?r w = Some (pa, flags)" for w pa flags
  proof -
    obtain s where s: "s \<in> set ?L" "unat w \<in> seg_range s" using sp tr unfolding address_space_def by (metis option.distinct(1))
    then have "translate (heap_mem h') ?r w = Some (unat w - va_offset (seg_type s), seg_flags s OR PTE_V)"
      using sp unfolding address_space_def by blast
    then have "flags = seg_flags s OR PTE_V" using tr by simp
    moreover have "s \<in> set (boot_segs lk t)" using s(1) by (simp add: linear_segs_def)
    ultimately show ?thesis using boot_seg_flags by blast
  qed
  have "unat (UART_BASE + LSR) < 0xFFFFFFFF00000000" "unat (plic_claim_complete_addr 0) < 0xFFFFFFFF00000000"
    by (simp_all add: UART_BASE_def LSR_def plic_claim_complete_addr_def PLIC_BASE_def PLIC_CLAIM_COMPLETE_OFFSET_def
        plic_context_id_s_def PLIC_CONTEXT_STRIDE_def)
  with low user show ?thesis by blast
qed

theorem boot_space_gaps_witness:
  "\<exists>satp b h. start_memory (\<lambda>_. Some demo_tree) 40 demo_linker 0x80000000 demo_boot demo_heap = Inr (satp, b, h)
     \<and> translate (heap_mem h) (pa_val (pa_from_ppn (boot_root_ppn b))) (UART_BASE + LSR) = None"
proof -
  have d: "boot_mb demo_boot = memblock_new" "caches demo_heap = SLUB_ALLOCATOR" "heap_buddy demo_heap = buddy_new"
    by (simp_all add: demo_boot_def demo_heap_def)
  obtain satp b h where st: "start_memory (\<lambda>_. Some demo_tree) 40 demo_linker 0x80000000 demo_boot demo_heap = Inr (satp, b, h)"
    using start_memory_succeeds [where P = block_left, OF refl demo_machine_ok d demo_boot_room] by auto
  then show ?thesis using boot_space_gaps [OF refl demo_machine_ok d st] by blast
qed

section \<open>The early page table\<close>

lemma early_index: "unat (shr v 30 AND (shl 1 9 - 1)) = unat v div 2 ^ 30 mod 512" for v :: usize
proof -
  have "shl 1 9 - 1 = (mask 9 :: usize)" by (simp add: shl_def mask_eq_exp_minus_1)
  then show ?thesis by (simp add: unat_and_mask unat_shr)
qed

lemma early_entry:
  assumes "unat k < 2 ^ 32"
  defines "G \<equiv> unat k div 2 ^ 30 * 2 ^ 30"
  shows "snd (enable_early_mmu k pt m) = m(slot pt (G div 2 ^ 30) := page_entry (PTE_R OR PTE_W OR PTE_X) (G, OneGB),
    slot pt ((G + 0xFFFFFFFF00000000) div 2 ^ 30 mod 512) := page_entry (PTE_R OR PTE_W OR PTE_X) (G, OneGB))"
proof -
  let ?b = "k AND NOT (shl 1 30 - 1)"
  have "shl 1 30 - 1 = (mask 30 :: usize)" by (simp add: shl_def mask_eq_exp_minus_1)
  then have b: "unat ?b = G" unfolding G_def by (simp only: unat_and_not_mask)
  have le: "G \<le> unat k" unfolding G_def by (rule div_times_less_eq_dividend)
  have bo: "?b = of_nat G" unfolding b [symmetric] by simp
  have lt: "G div 2 ^ 30 < 4" using le assms(1) by (simp add: less_mult_imp_div_less)
  have "unat (PHYS_VIRT_OFFSET + x) = unat x + 0xFFFFFFFF00000000" if "unat x < 2 ^ 32" for x :: usize
    using that by (subst unat_word_plus) (simp_all add: PHYS_VIRT_OFFSET_def)
  from this [of ?b] have v: "unat (PHYS_VIRT_OFFSET + ?b) = G + 0xFFFFFFFF00000000" unfolding b using le assms(1) by simp
  have s: "pt + i * 8 = slot pt (unat i)" for i by (simp add: slot_def)
  have f: "PTE_V OR PTE_R OR PTE_W OR PTE_X = (PTE_R OR PTE_W OR PTE_X) OR PTE_V" by (simp add: or.commute)
  have e: "shl (shr ?b PAGE_SIZE_BITS) 10 OR ucast (PTE_V OR PTE_R OR PTE_W OR PTE_X) = page_entry (PTE_R OR PTE_W OR PTE_X) (G, OneGB)"
    unfolding f page_entry_def pte_new_def pa_floor_def bo by simp
  show ?thesis unfolding enable_early_mmu_def Let_def snd_conv s early_index e v b using lt by simp
qed

lemma gib_key:
  assumes "G < 2 ^ 32"
  shows "page_key mt (G, OneGB) = [(G + va_offset mt) div 2 ^ 30 mod 512]"
  using pa_to_va_facts(1) [OF assms, of mt] by (simp add: page_key_def va_path_eq target_level_def)

lemma leaf_at_root: "leaf_at m r [i] = (let e = m (slot r i) in if pte_is_valid e \<and> pte_is_leaf e then Some e else None)"
  by (simp add: leaf_at_def pte_at_def Let_def)

text \<open>C37. For a kernel loaded below 4 GiB and a cleared, page-aligned table, \<open>enable_early_mmu\<close> puts the table into \<open>satp\<close> and maps exactly
  the aligned GiB that holds the kernel, once at its physical address and once at the linear mapping, with all rights.\<close>

theorem enable_early_mmu_correct:
  assumes "unat k < 2 ^ 32" and "4096 dvd unat pt" and "\<forall>j < 512. m (slot pt j) = 0"
    and "enable_early_mmu k pt m = (satp, m')" and "G = unat k div 2 ^ 30 * 2 ^ 30"
  shows "satp_mode satp = 8 \<and> unat (satp_ppn satp) * 4096 = unat pt
    \<and> translate m' pt w =
      (if unat w \<in> {G ..< G + 2 ^ 30} then Some (unat w, PTE_R OR PTE_W OR PTE_X OR PTE_V)
       else if unat w \<in> {G + 0xFFFFFFFF00000000 ..< G + 0xFFFFFFFF00000000 + 2 ^ 30}
       then Some (unat w - 0xFFFFFFFF00000000, PTE_R OR PTE_W OR PTE_X OR PTE_V) else None)"
proof -
  let ?f = "PTE_R OR PTE_W OR PTE_X" and ?x = "(G, OneGB)"
  let ?e = "page_entry ?f ?x" and ?I = "G div 2 ^ 30" and ?J = "(G + 0xFFFFFFFF00000000) div 2 ^ 30 mod 512"
  obtain q where q: "G = q * 2 ^ 30" "q < 4" using assms(1,5) by (simp add: less_mult_imp_div_less)
  have b: "page_bytes OneGB = 2 ^ 30" by (simp add: page_bytes_def)
  have lt: "G < 2 ^ 32" and pb: "page_bytes OneGB dvd G" "G + page_bytes OneGB \<le> 2 ^ 32" unfolding b using q by simp_all
  have po: "pages_ok [?x]" using pb by (simp add: pages_ok_def)
  have m': "m' = m(slot pt ?I := ?e, slot pt ?J := ?e)"
    using early_entry [OF assms(1), of pt m] assms(4,5) by simp
  have idx: "?I < 512" "?J < 512" using q by simp_all
  have at: "m' (slot pt j) = (if j = ?I \<or> j = ?J then ?e else 0)" if "j < 512" for j
    using assms(3) that slot_inj [OF assms(2) assms(2) that] idx unfolding m' by (metis (no_types, opaque_lifting) fun_upd_apply)
  have lf: "leaf_flags ?f" by code_simp
  have ve: "pte_is_valid ?e" "pte_is_leaf ?e" using lf by (simp_all add: page_entry_def pte_is_valid_new pte_is_leaf_new leaf_flags_V)
  have kI: "page_key Identical ?x = [?I]" using gib_key [OF lt, of Identical] q by (simp add: va_offset_def)
  have kJ: "page_key Linear ?x = [?J]" using gib_key [OF lt, of Linear] by (simp add: va_offset_def)
  have leafs: "leaf_at m' pt (page_key mt ?x) = Some ?e" for mt
    using kI kJ at [OF idx(1)] at [OF idx(2)] ve by (cases mt) (simp_all add: leaf_at_root)
  have inside: "translate m' pt w = Some (unat w - va_offset mt, ?f OR PTE_V)"
    if w: "unat w \<in> {G + va_offset mt ..< G + va_offset mt + 2 ^ 30}" for mt
  proof -
    have "unat w \<in> {G + va_offset mt ..< G + page_bytes OneGB + va_offset mt}" using w b by simp
    then have "canonical w" using linear_canonical pb(2) by blast
    then show ?thesis using translate_leaf [OF po _ leafs] w b by simp
  qed
  have outside: "translate m' pt w = None" if w: "\<And>mt. unat w \<notin> {G + va_offset mt ..< G + va_offset mt + 2 ^ 30}"
  proof (cases "canonical w")
    case True
    let ?i = "unat w div 2 ^ 30 mod 512"
    have "take 1 (va_path w) \<noteq> page_key mt ?x" for mt
      using page_key_iff [OF pb True, of mt] w [of mt] b by (simp add: target_level_def)
    from this [of Identical] this [of Linear] have "?i \<noteq> ?I" "?i \<noteq> ?J" unfolding kI kJ by (simp_all add: va_path_eq)
    then have "m' (slot pt ?i) = 0" using at [of ?i] by simp
    then have "sv39_walk m' pt (va_path w) = None" by (simp add: va_path_eq pte_is_valid_def)
    then show ?thesis by (simp add: translate_def)
  qed (simp add: translate_def)
  have sat: "satp = \<lparr>satp_mode = 8, satp_asid = 0, satp_ppn = shr pt PAGE_SIZE_BITS\<rparr>"
    using assms(4) by (auto simp: enable_early_mmu_def Let_def Sv39_def)
  have "unat (satp_ppn satp) * 4096 = unat pt" unfolding sat using assms(2) by (simp add: unat_shr PAGE_SIZE_BITS_def)
  moreover have fl: "PTE_R OR PTE_W OR PTE_X OR PTE_V = ?f OR PTE_V" by (simp add: or.assoc)
  moreover have "unat w \<notin> {G + va_offset mt ..< G + va_offset mt + 2 ^ 30}"
    if "unat w \<notin> {G ..< G + 2 ^ 30}" "unat w \<notin> {G + 0xFFFFFFFF00000000 ..< G + 0xFFFFFFFF00000000 + 2 ^ 30}" for mt
    using that by (cases mt) (simp_all add: va_offset_def)
  ultimately show ?thesis using inside [of Identical] inside [of Linear] outside sat
    unfolding va_offset_def boot_map_type.case by simp
qed

theorem enable_early_mmu_correct_witness:
  "translate (snd (enable_early_mmu 0x80200000 0x80300000 (\<lambda>_. 0))) 0x80300000 0xFFFFFFFF80200000
     = Some (0x80200000, PTE_R OR PTE_W OR PTE_X OR PTE_V)"
  using enable_early_mmu_correct [of "0x80200000" "0x80300000" "\<lambda>_. 0" "fst (enable_early_mmu 0x80200000 0x80300000 (\<lambda>_. 0))"
      "snd (enable_early_mmu 0x80200000 0x80300000 (\<lambda>_. 0))" "0x80000000" "0xFFFFFFFF80200000"] by simp

end
