(* ===== verification/Irq_Lock.thy ===== *)
theory Irq_Lock
  imports Rust_Prelude
begin

text \<open>
  \<open>IrqLock\<close> (\<open>src/data_struct/lock.rs\<close>) and the interrupt enables it uses (\<open>src/trap/interrupts/mod.rs\<close>) on one hart. The code that
  runs is a stack of activations, the interrupted code below the interrupt handlers; each is at one of the points of \<open>lock\<close> and of the
  guard's \<open>drop\<close> between which an interrupt can arrive. The spin lock \<open>spin::Mutex\<close> is a flag: \<open>lock\<close> waits until it is clear. An
  interrupt is taken when \<open>sstatus.SIE\<close> is set, clears it, and the return sets it again.
\<close>

section \<open>Interrupt enables\<close>

definition SSTATUS_SIE_MASK :: usize where "SSTATUS_SIE_MASK = push_bit 1 1"
definition SIE_STIE_MASK :: usize where "SIE_STIE_MASK = push_bit 5 1"
definition SIE_SEIE_MASK :: usize where "SIE_SEIE_MASK = push_bit 9 1"

record csrs =
  csr_sstatus :: usize
  csr_sie :: usize

definition init_supervisor_interrupts :: "csrs \<Rightarrow> csrs" where
  "init_supervisor_interrupts c = c\<lparr>csr_sie := csr_sie c OR SIE_STIE_MASK OR SIE_SEIE_MASK, csr_sstatus := csr_sstatus c OR SSTATUS_SIE_MASK\<rparr>"

definition disable_supervisor_interrupts :: "csrs \<Rightarrow> csrs" where
  "disable_supervisor_interrupts c = c\<lparr>csr_sstatus := csr_sstatus c AND NOT 2\<rparr>"

definition read_and_disable_supervisor_interrupts :: "csrs \<Rightarrow> usize \<times> csrs" where
  "read_and_disable_supervisor_interrupts c = (csr_sstatus c, c\<lparr>csr_sstatus := csr_sstatus c AND NOT 2\<rparr>)"

definition restore_interrupts :: "usize \<Rightarrow> csrs \<Rightarrow> csrs" where
  "restore_interrupts saved_status c =
     (if saved_status AND SSTATUS_SIE_MASK \<noteq> 0 then c\<lparr>csr_sstatus := csr_sstatus c OR SSTATUS_SIE_MASK\<rparr> else c)"

definition enable_supervisor_interrupts :: "csrs \<Rightarrow> csrs" where
  "enable_supervisor_interrupts c = c\<lparr>csr_sstatus := csr_sstatus c OR 2\<rparr>"

section \<open>The lock\<close>

text \<open>
  The points of an activation: outside, in \<open>lock\<close> after the interrupts were disabled, with the guard in use, and in the drop glue after
  \<open>IrqLockGuard::drop\<close> has run and before its field \<open>_guard\<close> is dropped. Rust drops the fields of a value after its \<open>drop\<close> method.
\<close>

datatype point = Outside | Locking (saved: usize) | Guarded (saved: usize) | Dropping

record hart =
  hart_csrs :: csrs
  locked :: bool
  activations :: "point list"

definition lock_disable :: "hart \<Rightarrow> hart" where
  "lock_disable h = (case read_and_disable_supervisor_interrupts (hart_csrs h) of (saved_status, c) \<Rightarrow>
     h\<lparr>hart_csrs := c, activations := Locking saved_status # tl (activations h)\<rparr>)"

definition lock_acquire :: "usize \<Rightarrow> hart \<Rightarrow> hart" where
  "lock_acquire saved_status h =
     (if locked h then h else h\<lparr>locked := True, activations := Guarded saved_status # tl (activations h)\<rparr>)"

definition guard_drop :: "usize \<Rightarrow> hart \<Rightarrow> hart" where
  "guard_drop saved_status h =
     h\<lparr>hart_csrs := restore_interrupts saved_status (hart_csrs h), activations := Dropping # tl (activations h)\<rparr>"

definition inner_guard_drop :: "hart \<Rightarrow> hart" where
  "inner_guard_drop h = h\<lparr>locked := False, activations := Outside # tl (activations h)\<rparr>"

text \<open>What the hardware does on an interrupt and on the return from its handler.\<close>

definition take_interrupt :: "hart \<Rightarrow> hart" where
  "take_interrupt h = h\<lparr>hart_csrs := disable_supervisor_interrupts (hart_csrs h), activations := Outside # activations h\<rparr>"

definition trap_return :: "hart \<Rightarrow> hart" where
  "trap_return h = h\<lparr>hart_csrs := enable_supervisor_interrupts (hart_csrs h), activations := tl (activations h)\<rparr>"

definition sie_on :: "hart \<Rightarrow> bool" where
  "sie_on h \<longleftrightarrow> csr_sstatus (hart_csrs h) AND SSTATUS_SIE_MASK \<noteq> 0"

inductive hart_step :: "hart \<Rightarrow> hart \<Rightarrow> bool" where
  call: "activations h = Outside # fs \<Longrightarrow> hart_step h (lock_disable h)"
| acquire: "activations h = Locking s # fs \<Longrightarrow> hart_step h (lock_acquire s h)"
| drop: "activations h = Guarded s # fs \<Longrightarrow> hart_step h (guard_drop s h)"
| release: "activations h = Dropping # fs \<Longrightarrow> hart_step h (inner_guard_drop h)"
| interrupt: "sie_on h \<Longrightarrow> hart_step h (take_interrupt h)"
| ret: "activations h = Outside # f # fs \<Longrightarrow> hart_step h (trap_return h)"

inductive_cases hart_stepE: "hart_step h h'"

definition hart_start :: "hart \<Rightarrow> bool" where
  "hart_start h \<longleftrightarrow> activations h = [Outside] \<and> \<not> locked h"

definition demo_hart :: hart where
  "demo_hart = \<lparr>hart_csrs = init_supervisor_interrupts \<lparr>csr_sstatus = 0, csr_sie = 0\<rparr>, locked = False, activations = [Outside]\<rparr>"

section \<open>The invariant\<close>

definition holds_lock :: "point \<Rightarrow> bool" where
  "holds_lock p \<longleftrightarrow> is_Guarded p \<or> p = Dropping"

text \<open>Only code outside the lock or in the drop glue is interrupted, a handler runs with interrupts off and remembers them off.\<close>

definition hart_ok :: "hart \<Rightarrow> bool" where
  "hart_ok h \<longleftrightarrow> (case activations h of
      [p] \<Rightarrow> (locked h \<longleftrightarrow> holds_lock p) \<and> (is_Locking p \<or> is_Guarded p \<longrightarrow> \<not> sie_on h)
    | [p, q] \<Rightarrow> (locked h \<longleftrightarrow> holds_lock p \<or> holds_lock q) \<and> \<not> (holds_lock p \<and> holds_lock q) \<and> (q = Outside \<or> q = Dropping)
        \<and> \<not> sie_on h \<and> (is_Locking p \<or> is_Guarded p \<longrightarrow> saved p AND SSTATUS_SIE_MASK = 0)
    | _ \<Rightarrow> False)"

lemma sie_mask: "(w AND - 3) AND SSTATUS_SIE_MASK = 0" for w :: usize
proof -
  have "(- 3 :: usize) = NOT 2" by simp
  then have "(- 3 :: usize) AND SSTATUS_SIE_MASK = 0" by (simp add: SSTATUS_SIE_MASK_def)
  then show ?thesis by (simp add: and.assoc)
qed

lemma sie_on_simps [simp]:
  "\<not> sie_on (lock_disable h)" "\<not> sie_on (take_interrupt h)" "sie_on (lock_acquire s h) \<longleftrightarrow> sie_on h"
  "sie_on (inner_guard_drop h) \<longleftrightarrow> sie_on h"
  "s AND SSTATUS_SIE_MASK = 0 \<Longrightarrow> sie_on (guard_drop s h) \<longleftrightarrow> sie_on h"
  by (simp_all add: sie_on_def lock_disable_def read_and_disable_supervisor_interrupts_def take_interrupt_def
      disable_supervisor_interrupts_def sie_mask lock_acquire_def inner_guard_drop_def guard_drop_def restore_interrupts_def)

lemma hart_ok_step:
  assumes "hart_ok h" and "hart_step h h'"
  shows "hart_ok h'"
proof -
  consider (one) p where "activations h = [p]" | (two) p q where "activations h = [p, q]"
    using assms(1) by (auto simp: hart_ok_def split: list.splits)
  then show ?thesis
  proof cases
    case one
    from assms(2) show ?thesis
    proof (cases rule: hart_step.cases)
      case interrupt
      then have "p = Outside \<or> p = Dropping" using assms(1) one by (cases p) (auto simp: hart_ok_def)
      then show ?thesis using interrupt assms(1) one by (auto simp: hart_ok_def take_interrupt_def holds_lock_def sie_on_def
            disable_supervisor_interrupts_def sie_mask)
    qed (use assms(1) one in \<open>auto simp: hart_ok_def lock_disable_def lock_acquire_def guard_drop_def inner_guard_drop_def holds_lock_def
        read_and_disable_supervisor_interrupts_def sie_on_def sie_mask\<close>)
  next
    case two
    from assms(2) show ?thesis
    proof (cases rule: hart_step.cases)
      case (call fs)
      then show ?thesis using assms(1) two
        by (auto simp: hart_ok_def lock_disable_def holds_lock_def read_and_disable_supervisor_interrupts_def sie_on_def sie_mask)
    next
      case (acquire s fs)
      then show ?thesis using assms(1) two by (auto simp: hart_ok_def lock_acquire_def holds_lock_def sie_on_def)
    next
      case (drop s fs)
      then show ?thesis using assms(1) two by (auto simp: hart_ok_def guard_drop_def holds_lock_def sie_on_def restore_interrupts_def)
    next
      case (release fs)
      then show ?thesis using assms(1) two by (auto simp: hart_ok_def inner_guard_drop_def holds_lock_def sie_on_def)
    next
      case interrupt
      then show ?thesis using assms(1) two by (simp add: hart_ok_def)
    next
      case (ret f fs)
      then show ?thesis using assms(1) two by (auto simp: hart_ok_def trap_return_def holds_lock_def)
    qed
  qed
qed

lemma hart_reach_ok: "hart_step\<^sup>*\<^sup>* h0 h \<Longrightarrow> hart_start h0 \<Longrightarrow> hart_ok h"
proof (induction rule: rtranclp_induct)
  case base
  then show ?case by (simp add: hart_start_def hart_ok_def holds_lock_def)
next
  case (step h h')
  then show ?case using hart_ok_step by blast
qed

section \<open>Properties\<close>

text \<open>C15. In every state that a hart reaches from outside the lock, the lock is taken exactly when one activation holds it, no two
  activations hold it, and while the guard is in use interrupts are off and its owner is the code that runs.\<close>

theorem irq_lock_exclusive:
  assumes "hart_start h0" and "hart_step\<^sup>*\<^sup>* h0 h"
  shows "length (filter holds_lock (activations h)) = (if locked h then 1 else 0)
    \<and> (\<forall>i < length (activations h). is_Guarded (activations h ! i) \<longrightarrow> i = 0 \<and> \<not> sie_on h)"
proof -
  have ok: "hart_ok h" using hart_reach_ok [OF assms(2,1)] .
  then consider (one) p where "activations h = [p]" | (two) p q where "activations h = [p, q]"
    by (auto simp: hart_ok_def split: list.splits)
  then show ?thesis
  proof cases
    case one
    then show ?thesis using ok by (auto simp: hart_ok_def)
  next
    case two
    then show ?thesis using ok by (auto simp: hart_ok_def less_Suc_eq holds_lock_def)
  qed
qed

lemma demo_hart_run:
  "hart_start demo_hart" "sie_on demo_hart" "hart_step\<^sup>*\<^sup>* demo_hart (lock_acquire 2 (lock_disable demo_hart))"
  "is_Guarded (activations (lock_acquire 2 (lock_disable demo_hart)) ! 0)"
proof -
  have s: "csr_sstatus (hart_csrs demo_hart) = 2" by (simp add: demo_hart_def init_supervisor_interrupts_def SSTATUS_SIE_MASK_def)
  show "hart_start demo_hart" by (simp add: hart_start_def demo_hart_def)
  show "sie_on demo_hart" using s by (simp add: sie_on_def SSTATUS_SIE_MASK_def)
  have a: "activations (lock_disable demo_hart) = [Locking 2]"
    using s by (simp add: lock_disable_def read_and_disable_supervisor_interrupts_def demo_hart_def)
  have "hart_step demo_hart (lock_disable demo_hart)" by (rule hart_step.call [of _ "[]"]) (simp add: demo_hart_def)
  moreover have "hart_step (lock_disable demo_hart) (lock_acquire 2 (lock_disable demo_hart))" using a by (rule hart_step.acquire)
  ultimately show "hart_step\<^sup>*\<^sup>* demo_hart (lock_acquire 2 (lock_disable demo_hart))" by simp
  show "is_Guarded (activations (lock_acquire 2 (lock_disable demo_hart)) ! 0)"
    by (simp add: lock_acquire_def lock_disable_def read_and_disable_supervisor_interrupts_def demo_hart_def)
qed

theorem irq_lock_exclusive_witness:
  "length (filter holds_lock (activations (lock_acquire 2 (lock_disable demo_hart)))) = 1
     \<and> \<not> sie_on (lock_acquire 2 (lock_disable demo_hart))"
proof -
  let ?h = "lock_acquire 2 (lock_disable demo_hart)"
  have l: "locked ?h" by (simp add: lock_acquire_def)
  have "0 < length (activations ?h)" by (simp add: lock_acquire_def lock_disable_def read_and_disable_supervisor_interrupts_def demo_hart_def)
  then show ?thesis using irq_lock_exclusive [OF demo_hart_run(1,3)] l demo_hart_run(4) by (metis (full_types))
qed

text \<open>A hart that spins on a lock held below it never leaves its state.\<close>

lemma spin_forever:
  assumes "activations h = [Locking s, Dropping]" and "locked h" and "\<not> sie_on h"
  shows "{h'. hart_step\<^sup>*\<^sup>* h h'} = {h}"
proof -
  have st: "h' = h" if "hart_step h h'" for h'
    using that assms by (cases rule: hart_stepE) (auto simp: lock_acquire_def)
  have "h' = h" if "hart_step\<^sup>*\<^sup>* h h'" for h'
    using that by (induction rule: rtranclp_induct) (auto dest: st)
  then show ?thesis by auto
qed

text \<open>C38. The drop order of the guard allows a deadlock: from every state outside the lock with interrupts on, a hart can reach a
  state in which an interrupt has arrived after the guard restored the interrupts and before it released the lock, the handler
  waits for the same lock, and no step ever leaves that state.\<close>

theorem irq_lock_deadlock:
  assumes "hart_start h0" and "sie_on h0"
  shows "\<exists>h s. hart_step\<^sup>*\<^sup>* h0 h \<and> activations h = [Locking s, Dropping] \<and> {h'. hart_step\<^sup>*\<^sup>* h h'} = {h}"
proof -
  define s where "s = csr_sstatus (hart_csrs h0)"
  define h1 where "h1 = lock_disable h0"
  define h2 where "h2 = lock_acquire s h1"
  define h3 where "h3 = guard_drop s h2"
  define h4 where "h4 = take_interrupt h3"
  define h5 where "h5 = lock_disable h4"
  have a0: "activations h0 = [Outside]" "\<not> locked h0" using assms(1) by (simp_all add: hart_start_def)
  have on: "s AND SSTATUS_SIE_MASK \<noteq> 0" using assms(2) by (simp add: sie_on_def s_def)
  have a1: "activations h1 = [Locking s]" "\<not> locked h1"
    using a0 by (simp_all add: h1_def s_def lock_disable_def read_and_disable_supervisor_interrupts_def)
  have a2: "activations h2 = [Guarded s]" "locked h2" using a1 by (simp_all add: h2_def lock_acquire_def)
  have a3: "activations h3 = [Dropping]" "locked h3" using a2 by (simp_all add: h3_def guard_drop_def)
  have "(x OR SSTATUS_SIE_MASK) AND SSTATUS_SIE_MASK \<noteq> 0" for x :: usize
    by (auto simp: SSTATUS_SIE_MASK_def and_exp_eq_0_iff_not_bit bit_simps)
  then have on3: "sie_on h3" using on by (simp add: h3_def guard_drop_def restore_interrupts_def sie_on_def)
  have a4: "activations h4 = [Outside, Dropping]" "locked h4" using a3 by (simp_all add: h4_def take_interrupt_def)
  have a5: "activations h5 = [Locking (csr_sstatus (hart_csrs h4)), Dropping]" "locked h5"
    using a4 by (simp_all add: h5_def lock_disable_def read_and_disable_supervisor_interrupts_def)
  have "hart_step h0 h1" "hart_step h1 h2" "hart_step h2 h3" "hart_step h3 h4" "hart_step h4 h5"
    unfolding h1_def h2_def h3_def h4_def h5_def
    using a0(1) a1(1) a2(1) a4(1) on3 by (auto simp: h1_def h2_def h3_def h4_def intro: hart_step.intros)
  then have "hart_step\<^sup>*\<^sup>* h0 h5" by (blast intro: converse_rtranclp_into_rtranclp)
  moreover have "{h'. hart_step\<^sup>*\<^sup>* h5 h'} = {h5}" by (rule spin_forever [OF a5]) (simp add: h5_def)
  ultimately show ?thesis using a5(1) by blast
qed

theorem irq_lock_deadlock_witness:
  "\<exists>h s. hart_step\<^sup>*\<^sup>* demo_hart h \<and> activations h = [Locking s, Dropping] \<and> {h'. hart_step\<^sup>*\<^sup>* h h'} = {h}"
  by (rule irq_lock_deadlock [OF demo_hart_run(1,2)])

end
