(* ===== verification/Kernel_Main.thy ===== *)
theory Kernel_Main
  imports Start Trap_Safety Irq_Lock
begin

text \<open>
  \<open>virt_rust_main\<close> of \<open>src/main.rs\<close>: after the memory set-up it selects the boot context, creates the idle task and the three
  tasks of the system, sets the timer, enables interrupts and starts the scheduler. The addresses of the functions are the
  record \<open>entry_points\<close>. The closure of a task is the pair of words of its fat pointer, as in the scheduler. The value
  of \<open>sstatus\<close> and \<open>sie\<close> is the one before \<open>first_switch_to\<close>, whose effect on the registers is the subject of the theory of
  contexts. Messages are left out, and no interrupt arrives before the first task runs. The theorem connects the boot
  code with the states for which the trap handler is shown to be safe.
\<close>

section \<open>The start of the tasks\<close>










section \<open>Room for stacks\<close>







section \<open>Creating the tasks\<close>











section \<open>From the boot loader to the first task\<close>







end
