(* ===== verification/Spec2Isabelle.thy ===== *)
theory Spec2Isabelle
  imports Address Ring_Buffer Memblock Buddy Page_Table Map_Segment Context Scheduler Trap_Safety Slub Kernel_Main
begin

text \<open>
  Charlotte OS: a verification development of the kernel under \<open>src/src/\<close>, a single-hart RISC-V (Sv39) kernel in Rust with a boot
  allocator, page tables, a buddy and a slab allocator, a round-robin scheduler, system calls and an interrupt-driven UART.

  \<^bold>\<open>How the parts interact.\<close> \<open>rust_main\<close> installs an early page table and jumps to \<open>virt_rust_main\<close> in the upper half. That reads
  the device tree, declares RAM to the boot allocator, cuts out what is in use, builds the kernel's page table with frames of the
  boot allocator, switches to it and removes the temporary identity mapping. The memory that is left goes to the buddy allocator, which serves
  the slab allocator (the kernel heap) and the task stacks. Then the tasks are created and the scheduler starts the first one in
  user mode. From there the kernel runs only in traps: \<open>trap_entry\<close> saves the context, \<open>trap_handler\<close> dispatches to the timer, the UART
  service or a system call, the scheduler selects a context, and \<open>trap_entry\<close> restores it.

  \<^bold>\<open>Theories, in the order of their dependencies\<close>
  \<^item> \<open>Rust_Prelude\<close>: machine words, faults as values (\<open>fault\<close>, \<open>'a res\<close>, \<open>rbind\<close>), array access, bit counting, and \<open>loop_res\<close>, a
    loop that is \<open>Inl Diverges\<close> exactly when it does not end.
  \<^item> \<open>Address\<close> (\<open>config.rs\<close>, \<open>mm/address.rs\<close>, helpers of \<open>mm/mod.rs\<close> and \<open>mm/buddy.rs\<close>): the address newtypes, conversions,
    rounding, ranges, the linear mapping and its round trip.
  \<^item> \<open>Ring_Buffer\<close> (\<open>data_struct/ring_buf.rs\<close>): refines a bounded queue; the contract is the locale \<open>bounded_fifo\<close>.
  \<^item> \<open>Memblock\<close> (\<open>mm/memblock.rs\<close>): region arrays as sets of bytes, exact effect of adding, removing and allocating, separation in
    all reachable states. The contract of a region array is the locale \<open>interval_store\<close>.
  \<^item> \<open>Buddy\<close> (\<open>mm/buddy.rs\<close>): free lists threaded through memory, related to lists of blocks and to the set of free pages; allocation is
    complete, release merges fully, histories never overlap. The contract for clients is the locale \<open>page_allocator\<close>, which the
    scheduler and the heap use through the interpretation \<open>frames\<close>.
  \<^item> \<open>Page_Table\<close> (\<open>mm/pagetable.rs\<close>): entries, walks, mapping and unmapping against \<open>translate\<close>, the walk that the hardware
    performs. The locale \<open>frame_source\<close> is what table creation needs of an allocator; the boot allocator provides it.
  \<^item> \<open>Map_Segment\<close> (\<open>map_segment\<close> of \<open>mm/mod.rs\<close>): the loops visit a tiling of the range by 4 KiB and 2 MiB pages; the effect on
    address translation is exact.
  \<^item> \<open>Context\<close> (\<open>task/context.rs\<close>, \<open>trap_entry\<close>, \<open>task/switch.rs\<close>): the assembly as a list of instructions with an executor;
    every register is saved and restored.
  \<^item> \<open>Scheduler\<close> (\<open>task/scheduler.rs\<close>, \<open>task/tcb.rs\<close>): every operation with its invariant, reachable states, ownership of stacks,
    absence of starvation.
  \<^item> \<open>Trap\<close>, \<open>Trap_Safety\<close> (\<open>trap/mod.rs\<close>, \<open>trap/interrupts\<close>, \<open>driver/plic.rs\<close>, \<open>syslib/syscall.rs\<close>): the handler, the UART service and
    the system calls; no reachable state makes a trap panic, contexts of other tasks stay unchanged, characters are delivered.
  \<^item> \<open>Slub\<close> (\<open>mm/slub.rs\<close>, page descriptors): allocation is correct in all histories without a release; every release panics.
  \<^item> \<open>Handover\<close> (\<open>init_buddy_system\<close>): the buddy allocator receives exactly the whole pages that are left.
  \<^item> \<open>Boot\<close>, \<open>Start\<close> (\<open>enable_early_mmu\<close>, \<open>setup_memory_and_mapping\<close>, \<open>switch_to_final_page_table\<close>, \<open>unmap_temp_identity_area\<close>): the boot
    code either stops in the boot allocator or establishes the intended address space and the start state of the heap.
  \<^item> \<open>Board\<close> (\<open>bsp/qemu_virt.rs\<close>, \<open>driver/uart.rs\<close>, \<open>console/mod.rs\<close>): register addresses, the driver as a sequence of device
    accesses, the early console.
  \<^item> \<open>Irq_Lock\<close> (\<open>data_struct/lock.rs\<close>, \<open>trap/interrupts/mod.rs\<close>): locking interleaved with interrupts as a step relation.
  \<^item> \<open>Kernel_Main\<close> (\<open>main.rs\<close>): \<open>virt_rust_main\<close> as a whole; it ends in a state for which \<open>Trap_Safety\<close> shows that traps are safe.

  \<^bold>\<open>State and errors.\<close> A struct is a record, a static is a field of the record its users share (\<open>boot\<close>, \<open>heap\<close>, \<open>kernel\<close>). Physical memory
  is a function from word addresses to words; code after the switch reaches it through the linear mapping (\<open>load\<close>, \<open>store\<close>). A panic, an
  out-of-range index, a failed assertion, an unwrapped \<open>None\<close>, undefined behaviour and an endless loop are values of \<open>fault\<close>. Words wrap as in the
  release profile.

  \<^bold>\<open>Loops and bounds.\<close> Structural recursion and \<open>function\<close> with a measure where the number of rounds is known; \<open>loop_res\<close> or
  \<open>partial_function (option)\<close> where it is not, and then the theorems show when the result is not \<open>Diverges\<close>. No fuel is used, except that
  \<open>reap_loop\<close> takes the length of the zombie queue, which shrinks in every round. Physical addresses are below 4 GiB (page numbers below
  \<open>2 ^ 20\<close>), the range for which \<open>PHYS_VIRT_OFFSET\<close> does not wrap.

  \<^bold>\<open>Parameters.\<close> The device tree library (its parse result), the addresses of the linker script and of the functions, the size of \<open>Page\<close>, the
  clock, device registers and firmware calls. \<open>machine_ok\<close> collects what the boot code relies on; a concrete machine satisfies it.

  \<^bold>\<open>What the theorems show to go wrong.\<close> The subtraction in \<open>early_alloc\<close> can wrap, \<open>map\<close> uses uncleared tables, a stale timer entry ends
  a later sleep, a reader that timed out swallows a character, \<open>dealloc\<close> of the heap always panics and a freed slab stays listed, the guard of
  the lock restores interrupts too early, and the final address space has neither the device registers at the addresses the drivers use nor
  a page for user mode.

  \<^bold>\<open>Not modelled.\<close>
  \<^item> \<open>entry.S\<close>, the linker script and the jump of \<open>rust_main\<close>: a few instructions before any state of the model exists.
  \<^item> The translation cache and \<open>sfence.vma\<close>, caches and memory ordering, other harts.
  \<^item> Formatting, macros and diagnostic output, the panic handler: they pass bytes to functions that are modelled, or to the firmware.
  \<^item> The heap allocations behind \<open>Vec\<close>, \<open>VecDeque\<close>, \<open>BinaryHeap\<close> and \<open>Box\<close> in the scheduler; the collections are lists.
  \<^item> The demonstration tasks and the user library: user code, arbitrary in the theorems on traps.
  \<^item> Code that is not compiled or never called: the polling UART driver, \<open>bump.rs\<close>, the test device; \<open>mm_set.rs\<close>, \<open>system.rs\<close> and the driver traits
    have no operations. \<open>SyncRefCell\<close> only wraps the root page number.
\<close>

end
